(* ===== verification/Prelude.thy ===== *)
theory Prelude
  imports Main "HOL-Library.Char_ord" "HOL-Library.List_Lexorder" "HOL-Library.Multiset"
begin

section \<open>Shared vocabulary of the development\<close>

text \<open>
  The generic part of the library: what a C operation that has no defined meaning evaluates to
  (a \<open>fault\<close>), the sequencing of fallible operations, a for-loop over an array, and the C
  string functions of the standard library that the program calls (\<open>strcmp\<close>, the copy of a
  string up to its terminator, \<open>snprintf\<close> into a bounded buffer, the bytes read when a call is
  given a fixed size and a shorter string).
\<close>

named_theorems frame \<open>which parts of the state an operation leaves as they were\<close>
named_theorems loop \<open>how the loops of the model unfold\<close>

subsection \<open>Faults and sequencing\<close>

text \<open>
  A C expression with undefined behaviour is a branch of its own. \<open>OutOfBounds\<close> is an access
  outside an array, \<open>NullDeref\<close> the use of a null pointer, \<open>UseAfterFree\<close> of a freed object,
  \<open>Uninitialised\<close> of bytes never written.
\<close>

datatype fault = OutOfBounds | NullDeref | UseAfterFree | Uninitialised

type_synonym 'a res = "fault + 'a"

definition bindE :: "'e + 'a \<Rightarrow> ('a \<Rightarrow> 'e + 'b) \<Rightarrow> 'e + 'b" where
  "bindE m f = (case m of Inl e \<Rightarrow> Inl e | Inr x \<Rightarrow> f x)"

lemma bindE_simps [simp]:
  "bindE (Inl e) f = Inl e"
  "bindE (Inr x) f = f x"
  by (simp_all add: bindE_def)

lemma bindE_Inr_iff: "bindE m f = Inr y \<longleftrightarrow> (\<exists>x. m = Inr x \<and> f x = Inr y)"
  by (cases m) simp_all

lemma bindE_InrE [elim!]:
  assumes "bindE m f = Inr y"
  obtains x where "m = Inr x" and "f x = Inr y"
  using assms by (auto simp: bindE_Inr_iff)

lemma bindE_cong [fundef_cong]:
  "m = m' \<Longrightarrow> (\<And>x. m' = Inr x \<Longrightarrow> f x = f' x) \<Longrightarrow> bindE m f = bindE m' f'"
  by (cases m') simp_all

text \<open>A for-loop over the elements of an array whose body may fault.\<close>

fun for_each :: "('a \<Rightarrow> 's \<Rightarrow> 'e + 's) \<Rightarrow> 'a list \<Rightarrow> 's \<Rightarrow> 'e + 's" where
  "for_each body [] s = Inr s"
| "for_each body (x # xs) s = bindE (body x s) (for_each body xs)"

lemma for_each_append:
  "for_each body (xs @ ys) s = bindE (for_each body xs s) (for_each body ys)"
proof (induction xs arbitrary: s)
  case Nil
  then show ?case by simp
next
  case (Cons x xs)
  then show ?case by (cases "body x s") simp_all
qed

text \<open>The rule for a loop that keeps an invariant: it holds after every prefix.\<close>

lemma for_each_invariant:
  assumes "\<And>x s. x \<in> set xs \<Longrightarrow> I s \<Longrightarrow> \<exists>s'. body x s = Inr s' \<and> I s'"
    and "I s"
  shows "\<exists>s'. for_each body xs s = Inr s' \<and> I s'"
  using assms
proof (induction xs arbitrary: s)
  case Nil
  then show ?case by simp
next
  case (Cons x xs)
  obtain s1 where s1: "body x s = Inr s1" "I s1"
    using Cons.prems(1) [of x s] Cons.prems(2) by auto
  have "\<exists>s'. for_each body xs s1 = Inr s' \<and> I s'"
    by (rule Cons.IH [OF Cons.prems(1) s1(2)]) auto
  with s1 show ?case by simp
qed

text \<open>A fallible result seen through a function of the states.\<close>

definition map_res :: "('a \<Rightarrow> 'b) \<Rightarrow> 'e + 'a \<Rightarrow> 'e + 'b" where
  "map_res g m = (case m of Inl e \<Rightarrow> Inl e | Inr x \<Rightarrow> Inr (g x))"

lemma map_res_simps [simp]: "map_res g (Inl e) = Inl e" "map_res g (Inr x) = Inr (g x)"
  by (simp_all add: map_res_def)

subsection \<open>C characters and strings\<close>

text \<open>
  A C string is the list of its characters before the terminator. \<open>strcmp\<close> compares as unsigned
  bytes; the C standard fixes only the sign of its result, and only the sign is used.
\<close>

abbreviation NUL :: char where "NUL \<equiv> CHR 0x00"
abbreviation newline :: char where "newline \<equiv> CHR 0x0A"

lemma char_le_iff: "c \<le> d \<longleftrightarrow> (of_char c :: int) \<le> of_char d"
proof -
  have int: "(of_char x :: int) = int (of_char x)" for x by (simp add: of_nat_of_char)
  show ?thesis by (simp add: less_eq_char_def int)
qed

fun strcmp :: "string \<Rightarrow> string \<Rightarrow> int" where
  "strcmp [] [] = 0"
| "strcmp [] (y # ys) = - 1"
| "strcmp (x # xs) [] = 1"
| "strcmp (x # xs) (y # ys) = (if x = y then strcmp xs ys else if x < y then - 1 else 1)"

lemma strcmp_eq_0 [simp]: "strcmp xs ys = 0 \<longleftrightarrow> xs = ys"
  by (induction xs ys rule: strcmp.induct) auto

lemma strcmp_less_0 [simp]: "strcmp xs ys < 0 \<longleftrightarrow> xs < ys"
  by (induction xs ys rule: strcmp.induct) (auto simp: Cons_less_Cons)

lemma strcmp_le_0 [simp]: "strcmp xs ys \<le> 0 \<longleftrightarrow> xs \<le> ys"
  using strcmp_less_0 [of xs ys] strcmp_eq_0 [of xs ys] by (simp only: le_less)

text \<open>The C string held in a buffer: its bytes before the first terminator.\<close>

definition c_str :: "string \<Rightarrow> string" where
  "c_str buf = takeWhile (\<lambda>c. c \<noteq> NUL) buf"

lemma c_str_no_NUL: "NUL \<notin> set (c_str buf)"
  by (auto simp: c_str_def dest: set_takeWhileD)

lemma c_str_id [simp]: "NUL \<notin> set s \<Longrightarrow> c_str s = s"
  by (auto simp: c_str_def takeWhile_eq_all_conv)

lemma c_str_terminated [simp]: "NUL \<notin> set s \<Longrightarrow> c_str (s @ NUL # rest) = s"
  unfolding c_str_def by (induction s) auto

lemma length_c_str_le: "length (c_str buf) \<le> length buf"
  by (simp add: c_str_def length_takeWhile_le)

text \<open>\<open>snprintf\<close> into a buffer of \<open>n\<close> bytes keeps at most \<open>n - 1\<close> characters.\<close>

definition snprintf :: "nat \<Rightarrow> string \<Rightarrow> string" where
  "snprintf n text = take (n - 1) text"

lemma snprintf_fits: "length text < n \<Longrightarrow> snprintf n text = text"
  by (simp add: snprintf_def)

text \<open>
  A call that is given a string and a fixed size reads that many bytes of memory: the string,
  its terminator, and then whatever follows it (\<open>after\<close>).
\<close>

definition mem_bytes :: "(nat \<Rightarrow> char) \<Rightarrow> string \<Rightarrow> nat \<Rightarrow> string" where
  "mem_bytes after s n =
     map (\<lambda>i. if i < length s then s ! i
              else if i = length s then NUL else after (i - length s - 1)) [0..<n]"

lemma length_mem_bytes [simp]: "length (mem_bytes after s n) = n"
  by (simp add: mem_bytes_def)

lemma mem_bytes_split:
  assumes "length s < n"
  shows "\<exists>rest. mem_bytes after s n = s @ NUL # rest"
proof -
  have "mem_bytes after s n = s @ NUL # drop (Suc (length s)) (mem_bytes after s n)"
    using assms by (intro nth_equalityI) (auto simp: mem_bytes_def nth_append nth_Cons')
  then show ?thesis by blast
qed

lemma c_str_mem_bytes:
  assumes "length s < n" and "NUL \<notin> set s"
  shows "c_str (mem_bytes after s n) = s"
  using mem_bytes_split [OF assms(1), of after] assms(2) by auto

end
