(* ===== verification/Kernel.thy ===== *)
theory Kernel
  imports Prelude
begin

section \<open>The system calls the program makes\<close>

text \<open>
  The state outside the program: descriptors, the bytes still to be read from them and the bytes
  written to them, the outcome of the next allocations and of the next lock calls, and the trace
  of the lock calls that succeeded. What the environment decides is a field of the state: a
  schedule of irregular outcomes per descriptor (an error, an interruption by a signal, a short
  count), which is used up call by call; a call with no scheduled outcome transfers everything it
  can. A schedule is finite, so a retry loop meets finitely many interruptions in a row. A read on
  a descriptor with nothing left to deliver is the end of file (every writer has closed).
\<close>

datatype irregular = Fails | Interrupted | Short nat

datatype sysres = Error bool \<comment> \<open>-1, and whether \<open>errno\<close> is \<open>EINTR\<close>\<close> | Count nat

datatype rwlock = Bucket nat | GlobalHashLock

datatype lock_event = RdLock rwlock | WrLock rwlock | Unlock rwlock

record world =
  w_out :: "int \<Rightarrow> string"
  w_wsched :: "int \<Rightarrow> irregular list"
  w_in :: "int \<Rightarrow> string"
  w_rsched :: "int \<Rightarrow> irregular list"
  w_open :: "int list"
  w_canopen :: "string \<Rightarrow> bool"
  w_allocs :: "bool list"
  w_lockres :: "bool list"
  w_locks :: "lock_event list"
  w_after :: "string \<Rightarrow> nat \<Rightarrow> char"

subsection \<open>write\<close>

definition sys_write :: "world \<Rightarrow> int \<Rightarrow> string \<Rightarrow> sysres \<times> world" where
  "sys_write w fd bs =
     (if fd \<notin> set (w_open w) then (Error False, w)
      else case w_wsched w fd of
        [] \<Rightarrow> (Count (length bs), w\<lparr>w_out := (w_out w)(fd := w_out w fd @ bs)\<rparr>)
      | r # rs \<Rightarrow>
          (let w' = w\<lparr>w_wsched := (w_wsched w)(fd := rs)\<rparr> in
           case r of
             Fails \<Rightarrow> (Error False, w')
           | Interrupted \<Rightarrow> (Error True, w')
           | Short n \<Rightarrow> (Count (min n (length bs)),
                        w'\<lparr>w_out := (w_out w)(fd := w_out w fd @ take n bs)\<rparr>)))"

lemma sys_write_Count:
  assumes "sys_write w fd bs = (Count n, w')"
  shows "n \<le> length bs"
    and "w_out w' = (w_out w)(fd := w_out w fd @ take n bs)"
  using assms
  by (auto simp: sys_write_def Let_def min_def split: if_splits list.splits irregular.splits)

lemma sys_write_Error:
  assumes "sys_write w fd bs = (Error e, w')"
  shows "w_out w' = w_out w"
  using assms by (auto simp: sys_write_def Let_def split: if_splits list.splits irregular.splits)

lemma sys_write_progress:
  assumes "sys_write w fd bs = (r, w')" and "bs \<noteq> []" and "r \<noteq> Error False"
  shows "length (w_wsched w' fd) + (length bs - (case r of Count n \<Rightarrow> n | Error _ \<Rightarrow> 0))
           < length (w_wsched w fd) + length bs"
  using assms by (auto simp: sys_write_def Let_def split: if_splits list.splits irregular.splits)

lemma sys_write_frame [frame]:
  assumes "sys_write w fd bs = (r, w')"
  shows "w_in w' = w_in w" "w_rsched w' = w_rsched w" "w_open w' = w_open w"
    "w_canopen w' = w_canopen w" "w_allocs w' = w_allocs w" "w_lockres w' = w_lockres w"
    "w_locks w' = w_locks w" "w_after w' = w_after w"
    "g \<noteq> fd \<Longrightarrow> w_wsched w' g = w_wsched w g"
  using assms by (auto simp: sys_write_def Let_def split: if_splits list.splits irregular.splits)

lemma sys_write_regular:
  assumes "fd \<in> set (w_open w)" and "w_wsched w fd = []"
  shows "sys_write w fd bs = (Count (length bs), w\<lparr>w_out := (w_out w)(fd := w_out w fd @ bs)\<rparr>)"
  using assms by (simp add: sys_write_def)

subsection \<open>read\<close>

definition sys_read :: "world \<Rightarrow> int \<Rightarrow> nat \<Rightarrow> sysres \<times> string \<times> world" where
  "sys_read w fd n =
     (if fd \<notin> set (w_open w) then (Error False, [], w)
      else case w_rsched w fd of
        [] \<Rightarrow> (Count (min n (length (w_in w fd))), take n (w_in w fd),
               w\<lparr>w_in := (w_in w)(fd := drop n (w_in w fd))\<rparr>)
      | r # rs \<Rightarrow>
          (let w' = w\<lparr>w_rsched := (w_rsched w)(fd := rs)\<rparr> in
           case r of
             Fails \<Rightarrow> (Error False, [], w')
           | Interrupted \<Rightarrow> (Error True, [], w')
           | Short k \<Rightarrow>
               (let m = min n (max 1 k) in
                (Count (min m (length (w_in w fd))), take m (w_in w fd),
                 w'\<lparr>w_in := (w_in w)(fd := drop m (w_in w fd))\<rparr>))))"

lemma sys_read_Count:
  assumes "sys_read w fd n = (Count k, bs, w')"
  shows "k = length bs" and "k \<le> n" and "w_in w fd = bs @ w_in w' fd"
    and "k = 0 \<Longrightarrow> n = 0 \<or> w_in w fd = []"
  using assms
  by (auto simp: sys_read_def Let_def min_def max_def
           split: if_splits list.splits irregular.splits)

lemma sys_read_Error:
  assumes "sys_read w fd n = (Error e, bs, w')"
  shows "bs = []" and "w_in w' = w_in w"
  using assms
  by (auto simp: sys_read_def Let_def split: if_splits list.splits irregular.splits)

lemma sys_read_frame [frame]:
  assumes "sys_read w fd n = (r, bs, w')"
  shows "w_out w' = w_out w" "w_wsched w' = w_wsched w" "w_open w' = w_open w"
    "w_canopen w' = w_canopen w" "w_allocs w' = w_allocs w" "w_lockres w' = w_lockres w"
    "w_locks w' = w_locks w" "w_after w' = w_after w"
    "g \<noteq> fd \<Longrightarrow> w_in w' g = w_in w g" "g \<noteq> fd \<Longrightarrow> w_rsched w' g = w_rsched w g"
  using assms
  by (auto simp: sys_read_def Let_def split: if_splits list.splits irregular.splits)

lemma sys_read_progress:
  assumes "sys_read w fd n = (r, bs, w')" and "r \<noteq> Error False" and "r \<noteq> Count 0"
  shows "length (w_rsched w' fd) + length (w_in w' fd)
           < length (w_rsched w fd) + length (w_in w fd)"
  using assms
  by (auto simp: sys_read_def Let_def split: if_splits list.splits irregular.splits)

lemma sys_read_regular:
  assumes "fd \<in> set (w_open w)" and "w_rsched w fd = []"
  shows "sys_read w fd n =
    (Count (min n (length (w_in w fd))), take n (w_in w fd),
     w\<lparr>w_in := (w_in w)(fd := drop n (w_in w fd))\<rparr>)"
  using assms by (simp add: sys_read_def)

subsection \<open>open and close\<close>

text \<open>\<open>open\<close> returns the lowest descriptor that is not in use, or -1.\<close>

definition fresh_fd :: "int list \<Rightarrow> int" where
  "fresh_fd fds = int (hd (filter (\<lambda>n. int n \<notin> set fds) [0..<Suc (length fds)]))"

lemma fresh_fd_free: "fresh_fd fds \<notin> set fds"
proof -
  let ?free = "filter (\<lambda>n. int n \<notin> set fds) [0..<Suc (length fds)]"
  have "?free \<noteq> []"
  proof
    assume "?free = []"
    then have "int ` set [0..<Suc (length fds)] \<subseteq> set fds"
      by (auto simp: filter_empty_conv simp del: upt_Suc)
    then have "card (int ` set [0..<Suc (length fds)]) \<le> card (set fds)"
      by (intro card_mono) auto
    moreover have "card (int ` set [0..<Suc (length fds)]) = Suc (length fds)"
      by (subst card_image) auto
    ultimately show False using card_length [of fds] by linarith
  qed
  then have "hd ?free \<in> set ?free" by (rule hd_in_set)
  then show ?thesis by (auto simp: fresh_fd_def)
qed

lemma fresh_fd_nonneg [simp]: "0 \<le> fresh_fd fds"
  by (simp add: fresh_fd_def)

definition sys_open :: "world \<Rightarrow> string \<Rightarrow> int \<times> world" where
  "sys_open w path =
     (if w_canopen w path
      then (let fd = fresh_fd (w_open w) in (fd, w\<lparr>w_open := fd # w_open w\<rparr>))
      else (- 1, w))"

definition sys_close :: "world \<Rightarrow> int \<Rightarrow> int \<times> world" where
  "sys_close w fd =
     (if fd \<in> set (w_open w) then (0, w\<lparr>w_open := removeAll fd (w_open w)\<rparr>) else (- 1, w))"

lemma sys_close_frame [frame]:
  assumes "sys_close w fd = (r, w')"
  shows "w_in w' = w_in w" "w_rsched w' = w_rsched w" "w_out w' = w_out w"
    "w_wsched w' = w_wsched w" "w_canopen w' = w_canopen w" "w_allocs w' = w_allocs w"
    "w_lockres w' = w_lockres w" "w_locks w' = w_locks w" "w_after w' = w_after w"
    "set (w_open w') = set (w_open w) - {fd}"
  using assms by (auto simp: sys_close_def split: if_splits)

subsection \<open>Allocation and locks\<close>

definition alloc :: "world \<Rightarrow> bool \<times> world" where
  "alloc w = (case w_allocs w of [] \<Rightarrow> (True, w) | b # bs \<Rightarrow> (b, w\<lparr>w_allocs := bs\<rparr>))"

lemma alloc_plenty [simp]: "w_allocs w = [] \<Longrightarrow> alloc w = (True, w)"
  by (simp add: alloc_def)

lemma alloc_frame [frame]:
  assumes "alloc w = (b, w')"
  shows "w_in w' = w_in w" "w_rsched w' = w_rsched w" "w_out w' = w_out w"
    "w_wsched w' = w_wsched w" "w_canopen w' = w_canopen w" "w_open w' = w_open w"
    "w_lockres w' = w_lockres w" "w_locks w' = w_locks w" "w_after w' = w_after w"
  using assms by (auto simp: alloc_def split: list.splits)

text \<open>
  A lock call returns 0 and is recorded in the trace, or returns an error number. It never waits: the
  functions that use it describe a thread that runs alone. Whether such a thread would wait for a lock
  that it holds itself is read off the trace (LockTrace); waiting for other threads is the subject of
  the step relations of Locks and Concurrency.
\<close>

definition lock_call :: "world \<Rightarrow> lock_event \<Rightarrow> int \<times> world" where
  "lock_call w ev =
     (case w_lockres w of
        [] \<Rightarrow> (0, w\<lparr>w_locks := w_locks w @ [ev]\<rparr>)
      | failed # rest \<Rightarrow>
          (if failed then (1, w\<lparr>w_lockres := rest\<rparr>)
           else (0, w\<lparr>w_lockres := rest, w_locks := w_locks w @ [ev]\<rparr>)))"

lemma lock_call_frame [frame]:
  assumes "lock_call w ev = (r, w')"
  shows "w_in w' = w_in w" "w_rsched w' = w_rsched w" "w_out w' = w_out w"
    "w_wsched w' = w_wsched w" "w_canopen w' = w_canopen w" "w_open w' = w_open w"
    "w_allocs w' = w_allocs w" "w_after w' = w_after w"
  using assms by (auto simp: lock_call_def split: list.splits if_splits)

lemma lock_call_ok [simp]:
  "w_lockres w = [] \<Longrightarrow> lock_call w ev = (0, w\<lparr>w_locks := w_locks w @ [ev]\<rparr>)"
  by (simp add: lock_call_def)

text \<open>
  A calm environment: memory does not run out and no lock call fails. A descriptor is healthy when
  it is open and its writes meet no irregular outcome.
\<close>

definition calm :: "world \<Rightarrow> bool" where
  "calm w \<longleftrightarrow> w_allocs w = [] \<and> w_lockres w = []"

definition healthy :: "world \<Rightarrow> int \<Rightarrow> bool" where
  "healthy w fd \<longleftrightarrow> fd \<in> set (w_open w) \<and> w_wsched w fd = []"

text \<open>
  The frame of an operation that only writes to the descriptors of \<open>S\<close>: the outputs of the others,
  the inputs, the open descriptors and the locks are as they were, and no output shrinks.
\<close>

definition only_writes :: "int set \<Rightarrow> world \<Rightarrow> world \<Rightarrow> bool" where
  "only_writes S w w' \<longleftrightarrow>
     w_in w' = w_in w \<and> w_rsched w' = w_rsched w \<and> w_open w' = w_open w \<and>
     w_canopen w' = w_canopen w \<and> w_lockres w' = w_lockres w \<and> w_locks w' = w_locks w \<and>
     w_after w' = w_after w \<and> (w_allocs w = [] \<longrightarrow> w_allocs w' = []) \<and>
     (\<forall>g. g \<notin> S \<longrightarrow> w_out w' g = w_out w g \<and> w_wsched w' g = w_wsched w g) \<and>
     (\<forall>g. \<exists>bs. w_out w' g = w_out w g @ bs) \<and>
     (\<forall>g. w_wsched w g = [] \<longrightarrow> w_wsched w' g = [])"

lemma only_writes_refl [simp]: "only_writes S w w"
  by (simp add: only_writes_def)

lemma only_writes_trans [trans]:
  assumes "only_writes S w w'" and "only_writes S w' w''"
  shows "only_writes S w w''"
proof -
  have "\<exists>bs. w_out w'' g = w_out w g @ bs" for g
    using assms unfolding only_writes_def by (metis append.assoc)
  with assms show ?thesis by (simp add: only_writes_def)
qed

lemma only_writes_mono: "only_writes S w w' \<Longrightarrow> S \<subseteq> T \<Longrightarrow> only_writes T w w'"
  by (auto simp: only_writes_def)

lemma only_writes_alloc:
  assumes "alloc w = (b, w')"
  shows "only_writes S w w'"
  using assms by (auto simp: only_writes_def alloc_def split: list.splits)

lemma only_writes_calm: "only_writes S w w' \<Longrightarrow> calm w \<Longrightarrow> calm w'"
  by (simp add: only_writes_def calm_def)

lemma only_writes_healthy: "only_writes S w w' \<Longrightarrow> healthy w fd \<Longrightarrow> healthy w' fd"
  by (simp add: only_writes_def healthy_def)

lemma only_writes_output: "only_writes S w w' \<Longrightarrow> fd \<notin> S \<Longrightarrow> w_out w' fd = w_out w fd"
  by (simp add: only_writes_def)

lemma sys_write_only_writes:
  assumes "sys_write w fd bs = (r, w')"
  shows "only_writes {fd} w w'"
  using assms
  by (auto simp: only_writes_def sys_write_def Let_def
           split: if_splits list.splits irregular.splits)

definition quiet_world :: world where
  "quiet_world =
     \<lparr>w_out = (\<lambda>_. []), w_wsched = (\<lambda>_. []), w_in = (\<lambda>_. []), w_rsched = (\<lambda>_. []),
      w_open = [0, 1, 2], w_canopen = (\<lambda>_. True), w_allocs = [], w_lockres = [], w_locks = [],
      w_after = (\<lambda>_ _. NUL)\<rparr>"

lemma calm_quiet_world [simp]: "calm quiet_world"
  by (simp add: calm_def quiet_world_def)

end
