(* ===== verification/Protocol.thy ===== *)
theory Protocol
  imports Prelude
begin

section \<open>Constants of the protocol (common/constants.h, common/protocol.h)\<close>

text \<open>
  The sizes that client and server share and the codes of the messages. A request is one code,
  followed by a key field of \<open>KEY_MESSAGE_SIZE\<close> bytes for a subscription; a response is the code of
  the request and one result character.
\<close>

definition MAX_SESSION_COUNT :: nat where "MAX_SESSION_COUNT = 2"
definition MAX_PIPE_PATH_LENGTH :: nat where "MAX_PIPE_PATH_LENGTH = 40"
definition MAX_STRING_SIZE :: nat where "MAX_STRING_SIZE = 40"
definition MAX_NUMBER_SUB :: nat where "MAX_NUMBER_SUB = 10"
definition KEY_MESSAGE_SIZE :: nat where "KEY_MESSAGE_SIZE = 41"
definition RESULT_KEY_EXISTS :: char where "RESULT_KEY_EXISTS = CHR ''1''"
definition RESULT_KEY_DOESNT_EXIST :: char where "RESULT_KEY_DOESNT_EXIST = CHR ''0''"
definition PIPES_CLOSED :: int where "PIPES_CLOSED = 0"

definition OP_CODE_CONNECT :: char where "OP_CODE_CONNECT = CHR ''1''"
definition OP_CODE_DISCONNECT :: char where "OP_CODE_DISCONNECT = CHR ''2''"
definition OP_CODE_SUBSCRIBE :: char where "OP_CODE_SUBSCRIBE = CHR ''3''"
definition OP_CODE_UNSUBSCRIBE :: char where "OP_CODE_UNSUBSCRIBE = CHR ''4''"

lemmas protocol_codes = OP_CODE_CONNECT_def OP_CODE_DISCONNECT_def OP_CODE_SUBSCRIBE_def
  OP_CODE_UNSUBSCRIBE_def RESULT_KEY_EXISTS_def RESULT_KEY_DOESNT_EXIST_def

end
