(* ===== verification/CommonIO.thy ===== *)
theory CommonIO
  imports Kernel Protocol "HOL-Library.Word"
begin

section \<open>Shared input and output (common/io.c, server/io.c)\<close>

text \<open>
  The retry loops around \<open>read\<close> and \<open>write\<close>, and the small writers of the server. The loops are
  those of the source: the state of the kernel is passed along, the number of bytes already moved
  is the loop's counter, and each turn either moves bytes or uses up one scheduled outcome, which
  is the termination measure.
\<close>

subsection \<open>write\_all\<close>

function write_all_from :: "world \<Rightarrow> int \<Rightarrow> string \<Rightarrow> nat \<Rightarrow> int \<times> world" where
  "write_all_from w fd buffer bytes_written =
     (if bytes_written < length buffer then
        (case sys_write w fd (drop bytes_written buffer) of
           (Error intr, w') \<Rightarrow>
             (if intr then write_all_from w' fd buffer bytes_written else (- 1, w'))
         | (Count n, w') \<Rightarrow> write_all_from w' fd buffer (bytes_written + n))
      else (1, w))"
  by pat_completeness auto
termination
proof (relation "measure (\<lambda>(w, fd, buffer, n). length (w_wsched w fd) + (length buffer - n))", goal_cases)
  case 1
  show ?case by simp
next
  case (2 w fd buffer n x w' intr)
  then have "sys_write w fd (drop n buffer) = (Error True, w')" by simp
  from sys_write_progress [OF this] 2 show ?case by simp
next
  case (3 w fd buffer n x w' k)
  then have "sys_write w fd (drop n buffer) = (Count k, w')" by simp
  from sys_write_progress [OF this] 3 show ?case by simp
qed

declare write_all_from.simps [simp del]

definition write_all :: "world \<Rightarrow> int \<Rightarrow> string \<Rightarrow> int \<times> world" where
  "write_all w fd buffer = write_all_from w fd buffer 0"

text \<open>What the loop promises, wherever it starts: all of the rest is written, or a prefix of it.\<close>

lemma write_all_from_result:
  assumes "write_all_from w fd buffer n = (r, w')" and "n \<le> length buffer"
  shows "\<exists>k \<ge> n. k \<le> length buffer \<and> (r = 1 \<and> k = length buffer \<or> r = - 1) \<and>
           w_out w' = (w_out w)(fd := w_out w fd @ take (k - n) (drop n buffer))"
  using assms
proof (induction w fd buffer n rule: write_all_from.induct)
  case (1 w fd buffer n)
  show ?case
  proof (cases "n < length buffer")
    case False
    with 1 have "r = 1 \<and> w' = w \<and> n = length buffer"
      by (simp add: write_all_from.simps [of w])
    then show ?thesis by (intro exI [of _ n]) simp
  next
    case True
    obtain x w1 where x: "sys_write w fd (drop n buffer) = (x, w1)" by fastforce
    show ?thesis
    proof (cases x)
      case (Error intr)
      have out: "w_out w1 = w_out w" using x Error by (simp add: sys_write_Error)
      show ?thesis
      proof (cases intr)
        case True
        have "write_all_from w1 fd buffer n = (r, w')"
          using "1.prems"(1) \<open>n < length buffer\<close> x Error True
          by (simp add: write_all_from.simps [of w])
        then show ?thesis
          using "1.IH"(1) [OF \<open>n < length buffer\<close> x [symmetric] Error True] "1.prems"(2) out
          by simp
      next
        case False
        then have "r = - 1 \<and> w' = w1"
          using "1.prems"(1) \<open>n < length buffer\<close> x Error by (simp add: write_all_from.simps [of w])
        then show ?thesis using out "1.prems"(2) by (intro exI [of _ n]) simp
      qed
    next
      case (Count k)
      note step = sys_write_Count [OF x [unfolded Count]]
      have run: "write_all_from w1 fd buffer (n + k) = (r, w')"
        using "1.prems"(1) True x Count by (simp add: write_all_from.simps [of w])
      have le: "n + k \<le> length buffer" using step(1) True by simp
      obtain m where m: "n + k \<le> m" "m \<le> length buffer"
          "r = 1 \<and> m = length buffer \<or> r = - 1"
          "w_out w' = (w_out w1)(fd := w_out w1 fd @ take (m - (n + k)) (drop (n + k) buffer))"
        using "1.IH"(2) [OF True x [symmetric] Count run le] by blast
      have "m - n = k + (m - (n + k))" using m(1) by simp
      then have "take (m - n) (drop n buffer) = take k (drop n buffer) @ take (m - (n + k)) (drop (n + k) buffer)"
        by (simp add: take_add drop_drop add.commute)
      then show ?thesis using m step(2) by (intro exI [of _ m]) simp
    qed
  qed
qed

lemma write_all_out:
  assumes "write_all w fd buffer = (r, w')"
  shows "\<exists>k \<le> length buffer. (r = 1 \<and> k = length buffer \<or> r = - 1) \<and>
           w_out w' = (w_out w)(fd := w_out w fd @ take k buffer)"
  using write_all_from_result [of w fd buffer 0 r w'] assms by (fastforce simp: write_all_def)

lemma write_all_only_writes:
  assumes "write_all w fd buffer = (r, w')"
  shows "only_writes {fd} w w'"
proof -
  have "only_writes {fd} w w'" if "write_all_from w fd buffer n = (r, w')" for w n
    using that
  proof (induction w fd buffer n rule: write_all_from.induct)
    case (1 w fd buffer n)
    show ?case
    proof (cases "n < length buffer")
      case False
      with "1.prems" show ?thesis by (simp add: write_all_from.simps [of w])
    next
      case True
      obtain x w1 where x: "sys_write w fd (drop n buffer) = (x, w1)" by fastforce
      note fr = sys_write_only_writes [OF x]
      show ?thesis
      proof (cases x)
        case (Error intr)
        then show ?thesis
          using "1.IH"(1) [OF True x [symmetric] Error] "1.prems" True x fr
          by (cases intr) (auto simp: write_all_from.simps [of w] intro: only_writes_trans)
      next
        case (Count k)
        then show ?thesis
          using "1.IH"(2) [OF True x [symmetric] Count] "1.prems" True x fr
          by (auto simp: write_all_from.simps [of w] intro: only_writes_trans)
      qed
    qed
  qed
  then show ?thesis using assms by (simp add: write_all_def)
qed

lemma write_all_healthy:
  assumes "healthy w fd"
  shows "write_all w fd buffer = (1, w\<lparr>w_out := (w_out w)(fd := w_out w fd @ buffer)\<rparr>)"
proof (cases "buffer = []")
  case True
  then show ?thesis by (simp add: write_all_def write_all_from.simps)
next
  case False
  let ?w = "w\<lparr>w_out := (w_out w)(fd := w_out w fd @ buffer)\<rparr>"
  have "sys_write w fd (drop 0 buffer) = (Count (length buffer), ?w)"
    using assms by (simp add: healthy_def sys_write_regular)
  moreover have "write_all_from ?w fd buffer (length buffer) = (1, ?w)"
    by (simp add: write_all_from.simps)
  ultimately show ?thesis
    using False by (simp add: write_all_def write_all_from.simps [of w])
qed

lemma write_all_closed:
  assumes "fd \<notin> set (w_open w)" and "buffer \<noteq> []"
  shows "write_all w fd buffer = (- 1, w)"
  using assms by (simp add: write_all_def write_all_from.simps [of w] sys_write_def)

subsection \<open>read\_all\<close>

text \<open>
  \<open>intr\<close> is the variable \<open>*intr\<close>: every caller of the program passes one. The result is the
  return value, the bytes stored in the buffer so far, the variable and the kernel.
\<close>

function read_all_from ::
  "world \<Rightarrow> int \<Rightarrow> nat \<Rightarrow> bool \<Rightarrow> string \<Rightarrow> int \<times> string \<times> bool \<times> world" where
  "read_all_from w fd n intr buffer =
     (if length buffer < n then
        (case sys_read w fd (n - length buffer) of
           (Error eintr, bs, w') \<Rightarrow>
             (if eintr then
                (if length buffer = 0 then (- 1, buffer, True, w')
                 else read_all_from w' fd n True buffer)
              else (- 1, buffer, intr, w'))
         | (Count k, bs, w') \<Rightarrow>
             (if k = 0 then (0, buffer, intr, w')
              else read_all_from w' fd n intr (buffer @ bs)))
      else (1, buffer, intr, w))"
  by pat_completeness auto
termination
proof (relation "measure (\<lambda>(w, fd, n, intr, buffer). length (w_rsched w fd) + length (w_in w fd))", goal_cases)
  case 1
  show ?case by simp
next
  case (2 w fd n intr buffer x q eintr bs w')
  then have "sys_read w fd (n - length buffer) = (Error True, bs, w')" by simp
  from sys_read_progress [OF this] show ?case by simp
next
  case (3 w fd n intr buffer x q k bs w')
  then have "sys_read w fd (n - length buffer) = (Count k, bs, w')" by simp
  from sys_read_progress [OF this] 3 show ?case by simp
qed

declare read_all_from.simps [simp del]

definition read_all :: "world \<Rightarrow> int \<Rightarrow> nat \<Rightarrow> bool \<Rightarrow> int \<times> string \<times> bool \<times> world" where
  "read_all w fd n intr = (if intr then (- 1, [], True, w) else read_all_from w fd n intr [])"

text \<open>
  What the loop promises: the bytes it stores are the next bytes of the stream, in order and none
  lost; it returns 1 exactly when it has all of them, 0 at the end of the stream.
\<close>

lemma read_all_from_result:
  assumes "read_all_from w fd n intr buffer = (r, b, i, w')" and "length buffer \<le> n"
  shows "\<exists>bs. b = buffer @ bs \<and> w_in w fd = bs @ w_in w' fd \<and> length b \<le> n \<and>
     (r = 1 \<and> length b = n \<or> r = 0 \<and> length b < n \<and> w_in w' fd = [] \<or>
      r = - 1 \<and> length b < n)"
  using assms
proof (induction w fd n intr buffer rule: read_all_from.induct)
  case (1 w fd n intr buffer)
  show ?case
  proof (cases "length buffer < n")
    case False
    with 1 show ?thesis by (auto simp: read_all_from.simps [of w])
  next
    case True
    obtain x bs w1 where x: "sys_read w fd (n - length buffer) = (x, bs, w1)"
      by (metis prod_cases3)
    show ?thesis
    proof (cases x)
      case (Error eintr)
      note err = sys_read_Error [OF x [unfolded Error]]
      show ?thesis
      proof (cases "eintr \<and> buffer \<noteq> []")
        case False
        then show ?thesis
          using "1.prems" True x Error err by (auto simp: read_all_from.simps [of w] split: if_splits)
      next
        case True
        then show ?thesis
          using "1.IH"(1) [OF \<open>length buffer < n\<close> x [symmetric] Error refl] "1.prems"
            \<open>length buffer < n\<close> x Error err
          by (auto simp: read_all_from.simps [of w] split: if_splits)
      qed
    next
      case (Count k)
      note cnt = sys_read_Count [OF x [unfolded Count]]
      show ?thesis
      proof (cases "k = 0")
        case True
        then show ?thesis
          using "1.prems" \<open>length buffer < n\<close> x Count cnt
          by (auto simp: read_all_from.simps [of w])
      next
        case False
        have run: "read_all_from w1 fd n intr (buffer @ bs) = (r, b, i, w')"
          using "1.prems"(1) True x Count False by (simp add: read_all_from.simps [of w])
        have le: "length (buffer @ bs) \<le> n" using cnt(1,2) True by simp
        show ?thesis
          using "1.IH"(2) [OF True x [symmetric] Count refl False run le] cnt(3) by auto
      qed
    qed
  qed
qed

lemma read_all_from_frame [frame]:
  assumes "read_all_from w fd n intr buffer = (r, b, i, w')"
  shows "w_out w' = w_out w \<and> w_wsched w' = w_wsched w \<and> w_open w' = w_open w \<and>
    w_canopen w' = w_canopen w \<and> w_allocs w' = w_allocs w \<and> w_lockres w' = w_lockres w \<and>
    w_locks w' = w_locks w \<and> w_after w' = w_after w \<and>
    (\<forall>g. g \<noteq> fd \<longrightarrow> w_in w' g = w_in w g \<and> w_rsched w' g = w_rsched w g)"
  using assms
proof (induction w fd n intr buffer rule: read_all_from.induct)
  case (1 w fd n intr buffer)
  show ?case
  proof (cases "length buffer < n")
    case False
    with "1.prems" show ?thesis by (simp add: read_all_from.simps [of w])
  next
    case True
    obtain x bs w1 where x: "sys_read w fd (n - length buffer) = (x, bs, w1)"
      by (metis prod_cases3)
    note fr = sys_read_frame [OF x]
    show ?thesis
    proof (cases x)
      case (Error eintr)
      then show ?thesis
        using "1.IH"(1) [OF True x [symmetric] Error refl] "1.prems" True x fr
        by (auto simp: read_all_from.simps [of w] split: if_splits)
    next
      case (Count k)
      then show ?thesis
        using "1.IH"(2) [OF True x [symmetric] Count refl] "1.prems" True x fr
        by (auto simp: read_all_from.simps [of w] split: if_splits)
    qed
  qed
qed

lemma read_all_frame [frame]:
  assumes "read_all w fd n intr = (r, b, i, w')"
  shows "w_out w' = w_out w" "w_wsched w' = w_wsched w" "w_open w' = w_open w"
    "w_canopen w' = w_canopen w" "w_allocs w' = w_allocs w" "w_lockres w' = w_lockres w"
    "w_locks w' = w_locks w" "w_after w' = w_after w"
    "g \<noteq> fd \<Longrightarrow> w_in w' g = w_in w g" "g \<noteq> fd \<Longrightarrow> w_rsched w' g = w_rsched w g"
  using read_all_from_frame [of w fd n intr "[]" r b i w'] assms
  by (auto simp: read_all_def split: if_splits)

lemma read_all_result:
  assumes "read_all w fd n intr = (r, b, i, w')"
  shows "w_in w fd = b @ w_in w' fd"
    and "r = 1 \<and> length b = n \<or> r = 0 \<and> length b < n \<and> w_in w' fd = [] \<or> r = - 1"
  using read_all_from_result [of w fd n intr "[]" r b i w'] assms
  by (auto simp: read_all_def split: if_splits)

lemma read_all_regular:
  assumes "fd \<in> set (w_open w)" and "w_rsched w fd = []" and "n \<le> length (w_in w fd)"
  shows "read_all w fd n False =
    (1, take n (w_in w fd), False,
     if n = 0 then w else w\<lparr>w_in := (w_in w)(fd := drop n (w_in w fd))\<rparr>)"
proof (cases "n = 0")
  case True
  then show ?thesis by (simp add: read_all_def read_all_from.simps)
next
  case False
  with assms show ?thesis
    by (simp add: read_all_def read_all_from.simps sys_read_regular min_def)
qed

subsection \<open>read\_string of common/io.c\<close>

text \<open>Reads one character at a time up to a terminator or a newline, 39 at most.\<close>

function io_read_string_from :: "world \<Rightarrow> int \<Rightarrow> string \<Rightarrow> int \<times> string \<times> world" where
  "io_read_string_from w fd str =
     (if length str < 40 - 1 then
        (case sys_read w fd 1 of
           (Count (Suc 0), ch # _, w') \<Rightarrow>
             (if ch = NUL \<or> ch = newline then (int (length str), str, w')
              else io_read_string_from w' fd (str @ [ch]))
         | (_, _, w') \<Rightarrow> (- 1, str, w'))
      else (int (length str), str, w))"
  by pat_completeness auto
termination
  by (relation "measure (\<lambda>(w, fd, str). 40 - length str)") auto

declare io_read_string_from.simps [simp del]

definition io_read_string :: "world \<Rightarrow> int \<Rightarrow> int \<times> string \<times> world" where
  "io_read_string w fd = io_read_string_from w fd []"

subsection \<open>Delays\<close>

text \<open>
  \<open>delay_to_timespec\<close> divides a 32-bit count of milliseconds into seconds and nanoseconds; quotient
  and product are computed as unsigned ints and then stored in the wider fields.
\<close>

record timespec =
  tv_sec :: "64 word"
  tv_nsec :: "64 word"

definition delay_to_timespec :: "32 word \<Rightarrow> timespec" where
  "delay_to_timespec delay_ms =
     \<lparr>tv_sec = ucast (delay_ms div 1000), tv_nsec = ucast ((delay_ms mod 1000) * 1000000)\<rparr>"

text \<open>
  The product does not wrap around, the nanoseconds are less than a second, as \<open>nanosleep\<close> asks, and
  the time is exactly the delay.
\<close>

lemma delay_exact:
  "unat (tv_nsec (delay_to_timespec d)) = unat d mod 1000 * 1000000"
  "unat (tv_nsec (delay_to_timespec d)) < 1000000000"
  "unat (tv_sec (delay_to_timespec d)) * 1000 + unat (tv_nsec (delay_to_timespec d)) div 1000000 = unat d"
proof -
  have small: "unat d mod 1000 * 1000000 < 4294967296"
    using mod_less_divisor [of 1000 "unat d"] by linarith
  have "unat ((d mod 1000) * 1000000) = unat d mod 1000 * 1000000"
    using small by (simp add: unat_word_ariths unat_mod)
  moreover have "unat d div 1000 < 18446744073709551616"
    using unsigned_less [of d, where ?'a = nat] div_le_dividend [of "unat d" 1000] by simp
  ultimately show n: "unat (tv_nsec (delay_to_timespec d)) = unat d mod 1000 * 1000000"
    by (simp add: delay_to_timespec_def unsigned_ucast_eq take_bit_nat_eq_self)
  show "unat (tv_nsec (delay_to_timespec d)) < 1000000000"
    unfolding n using mod_less_divisor [of 1000 "unat d"] by linarith
  have "unat (tv_sec (delay_to_timespec d)) = unat d div 1000"
    using \<open>unat d div 1000 < 18446744073709551616\<close>
    by (simp add: delay_to_timespec_def unsigned_ucast_eq unat_div take_bit_nat_eq_self)
  then show "unat (tv_sec (delay_to_timespec d)) * 1000 +
      unat (tv_nsec (delay_to_timespec d)) div 1000000 = unat d"
    unfolding n by simp
qed

subsection \<open>The server's writers (server/io.c)\<close>

function write_str_from :: "world \<Rightarrow> int \<Rightarrow> string \<Rightarrow> world" where
  "write_str_from w fd ptr =
     (if 0 < length ptr then
        (case sys_write w fd ptr of
           (Error _, w') \<Rightarrow> w'
         | (Count written, w') \<Rightarrow> write_str_from w' fd (drop written ptr))
      else w)"
  by pat_completeness auto
termination
proof (relation "measure (\<lambda>(w, fd, ptr). length (w_wsched w fd) + length ptr)", goal_cases)
  case 1
  show ?case by simp
next
  case (2 w fd ptr x w' k)
  then have "sys_write w fd ptr = (Count k, w')" by simp
  from sys_write_progress [OF this] 2 show ?case by simp
qed

declare write_str_from.simps [simp del]

definition write_str :: "world \<Rightarrow> int \<Rightarrow> string \<Rightarrow> world" where
  "write_str w fd str = write_str_from w fd str"

lemma write_str_healthy:
  assumes "healthy w fd"
  shows "write_str w fd s =
    (if s = [] then w else w\<lparr>w_out := (w_out w)(fd := w_out w fd @ s)\<rparr>)"
  using assms
  by (simp add: write_str_def write_str_from.simps healthy_def sys_write_regular)

text \<open>
  \<open>strn_memcpy dest src n\<close> copies at most \<open>n\<close> characters of \<open>src\<close>, without a terminator, and
  returns how many: the model gives the characters copied.
\<close>

definition strn_memcpy :: "string \<Rightarrow> nat \<Rightarrow> string" where
  "strn_memcpy src n = take n src"

definition write_to_resp_pipe :: "world \<Rightarrow> int \<Rightarrow> char \<Rightarrow> char \<Rightarrow> int \<times> world" where
  "write_to_resp_pipe w fdRespPipe opcode result =
     (case write_all w fdRespPipe [opcode] of
        (r, w1) \<Rightarrow> if r = - 1 then (1, w1)
          else (case write_all w1 fdRespPipe [result] of
                  (r', w2) \<Rightarrow> if r' = - 1 then (1, w2) else (0, w2)))"

lemma write_to_resp_pipe_only_writes:
  assumes "write_to_resp_pipe w fd opcode res = (r, w')"
  shows "only_writes {fd} w w'"
  using assms
  by (auto simp: write_to_resp_pipe_def split: prod.splits if_splits
           dest!: write_all_only_writes intro: only_writes_trans)

lemma write_to_resp_pipe_healthy:
  assumes "healthy w fd"
  shows "write_to_resp_pipe w fd opcode res =
    (0, w\<lparr>w_out := (w_out w)(fd := w_out w fd @ [opcode, res])\<rparr>)"
proof -
  let ?w = "w\<lparr>w_out := (w_out w)(fd := w_out w fd @ [opcode])\<rparr>"
  have "healthy ?w fd" using assms by (simp add: healthy_def)
  then show ?thesis
    using assms by (simp add: write_to_resp_pipe_def write_all_healthy)
qed

end
