(* ===== verification/Interfaces.thy ===== *)
theory Interfaces
  imports CommonIO
begin

section \<open>The interfaces between the components\<close>

text \<open>
  Two contracts the operations of the server rest on. \<open>sorting\<close> is what \<open>qsort\<close> promises: a
  permutation that is ordered by the comparison; the order of equal elements is left open, and
  nothing below uses it. \<open>kv_store\<close> is what the hash table promises its client in a calm
  environment: it is a finite map that also tells its subscribers. The loops of the operations are
  verified once, against these contracts.
\<close>

subsection \<open>qsort\<close>

text \<open>A comparison function given by a key: \<open>strcmp\<close> of the keys.\<close>

locale sorting =
  fixes qs :: "('a \<Rightarrow> 'a \<Rightarrow> int) \<Rightarrow> 'a list \<Rightarrow> 'a list"
  assumes qs_mset: "mset (qs cmp xs) = mset xs"
    and qs_sorted: "(\<And>x y. cmp x y = strcmp (f x) (f y)) \<Longrightarrow> sorted (map f (qs cmp xs))"
begin

lemma qs_set [simp]: "set (qs cmp xs) = set xs"
  using qs_mset [of cmp xs] by (metis set_mset_mset)

lemma qs_length [simp]: "length (qs cmp xs) = length xs"
  using qs_mset [of cmp xs] by (metis size_mset)

lemma qs_distinct: "distinct (map f (qs cmp xs)) \<longleftrightarrow> distinct (map f xs)"
proof -
  have "mset (map f (qs cmp xs)) = mset (map f xs)" by (simp add: qs_mset)
  then show ?thesis by (rule mset_eq_imp_distinct_iff)
qed

text \<open>With distinct keys there is only one possible result.\<close>

lemma qs_unique:
  assumes cmp: "\<And>x y. cmp x y = strcmp (f x) (f y)" and dist: "distinct (map f xs)"
  shows "qs cmp xs = sort_key f xs"
proof (rule map_inj_on [of f])
  have "sorted (map f (qs cmp xs))" using qs_sorted [OF cmp] by simp
  moreover have "mset (map f (qs cmp xs)) = mset (map f (sort_key f xs))" by (simp add: qs_mset)
  ultimately show "map f (qs cmp xs) = map f (sort_key f xs)"
    by (metis properties_for_sort sorted_sort_key)
  show "inj_on f (set (qs cmp xs) \<union> set (sort_key f xs))"
    using dist by (simp add: distinct_map)
qed

end

subsection \<open>The table seen by its clients\<close>

text \<open>
  A loop of the operations runs one call per key. The three loops below are the loops of
  \<open>kvs_write\<close>, \<open>kvs_read\<close> and \<open>kvs_delete\<close>, over any table.
\<close>

definition emit :: "world \<Rightarrow> int \<Rightarrow> string \<Rightarrow> world" where
  "emit w fd text = snd (sys_write w fd text)"

definition write_loop ::
  "('t \<Rightarrow> string \<Rightarrow> string \<Rightarrow> world \<Rightarrow> (int \<times> 't \<times> world) res) \<Rightarrow>
   (string \<times> string) list \<Rightarrow> 't \<times> world \<Rightarrow> ('t \<times> world) res" where
  "write_loop wr =
     for_each (\<lambda>(key, val) (t, w). bindE (wr t key val w) (\<lambda>(r, t', w'). Inr (t', w')))"

definition read_line :: "string \<Rightarrow> string option \<Rightarrow> string" where
  "read_line key result =
     snprintf 256
       (case result of None \<Rightarrow> ''('' @ key @ '',KVSERROR)''
        | Some val \<Rightarrow> ''('' @ key @ '','' @ val @ '')'')"

definition read_loop ::
  "('t \<Rightarrow> string \<Rightarrow> world \<Rightarrow> (string option \<times> world) res) \<Rightarrow> 't \<Rightarrow> int \<Rightarrow>
   string list \<Rightarrow> world \<Rightarrow> world res" where
  "read_loop rd t fdOut =
     for_each (\<lambda>key w. bindE (rd t key w)
       (\<lambda>(result, w'). Inr (emit w' fdOut (read_line key result))))"

definition missing_line :: "string \<Rightarrow> string" where
  "missing_line key = snprintf 256 (''('' @ key @ '',KVSMISSING)'')"

definition delete_loop ::
  "('t \<Rightarrow> string \<Rightarrow> world \<Rightarrow> (int \<times> 't \<times> world) res) \<Rightarrow> int \<Rightarrow>
   string list \<Rightarrow> bool \<times> 't \<times> world \<Rightarrow> (bool \<times> 't \<times> world) res" where
  "delete_loop dl fdOut =
     for_each (\<lambda>key (aux, t, w). bindE (dl t key w) (\<lambda>(r, t', w').
       if r \<noteq> 0 then
         (let w1 = (if \<not> aux then emit w' fdOut ''['' else w')
          in Inr (True, t', emit w1 fdOut (missing_line key)))
       else Inr (aux, t', w')))"

text \<open>
  Deleting prints one line per key that was not there (a key listed twice is missing the second
  time), opened by a bracket when the first of them is met.
\<close>

fun missing_keys :: "(string \<Rightarrow> string option) \<Rightarrow> string list \<Rightarrow> string list" where
  "missing_keys m [] = []"
| "missing_keys m (k # ks) =
     (if m k = None then k # missing_keys m ks else missing_keys (m(k := None)) ks)"

lemma missing_keys_distinct:
  "distinct ks \<Longrightarrow> missing_keys m ks = filter (\<lambda>k. m k = None) ks"
proof (induction ks arbitrary: m)
  case Nil
  then show ?case by simp
next
  case (Cons k ks)
  have "missing_keys (m(k := None)) ks = filter (\<lambda>k. m k = None) ks"
    using Cons by (auto intro!: filter_cong)
  with Cons show ?case by simp
qed

lemma emit_only_writes: "only_writes {fd} w (emit w fd text)"
  unfolding emit_def by (metis prod.collapse sys_write_only_writes)

lemma only_writes_emit: "only_writes S w w' \<Longrightarrow> fd \<in> S \<Longrightarrow> only_writes S w (emit w' fd text)"
  by (rule only_writes_trans [OF _ only_writes_mono [OF emit_only_writes]]) simp_all

lemma emit_healthy:
  "healthy w fd \<Longrightarrow> emit w fd text = w\<lparr>w_out := (w_out w)(fd := w_out w fd @ text)\<rparr>"
  by (simp add: emit_def healthy_def sys_write_regular)

locale kv_store =
  fixes inv :: "'t \<Rightarrow> bool"
    and valid :: "string \<Rightarrow> bool"
    and amap :: "'t \<Rightarrow> string \<Rightarrow> string option"
    and dests :: "'t \<Rightarrow> int set"
    and wr :: "'t \<Rightarrow> string \<Rightarrow> string \<Rightarrow> world \<Rightarrow> (int \<times> 't \<times> world) res"
    and rd :: "'t \<Rightarrow> string \<Rightarrow> world \<Rightarrow> (string option \<times> world) res"
    and dl :: "'t \<Rightarrow> string \<Rightarrow> world \<Rightarrow> (int \<times> 't \<times> world) res"
  assumes wr_law: "inv t \<Longrightarrow> valid k \<Longrightarrow> calm w \<Longrightarrow>
      \<exists>t' w'. wr t k v w = Inr (0, t', w') \<and> inv t' \<and> amap t' = (amap t)(k \<mapsto> v) \<and>
        dests t' = dests t \<and> only_writes (dests t) w w'"
    and rd_law: "inv t \<Longrightarrow> valid k \<Longrightarrow> calm w \<Longrightarrow> rd t k w = Inr (amap t k, w)"
    and dl_law: "inv t \<Longrightarrow> valid k \<Longrightarrow> calm w \<Longrightarrow>
      \<exists>t' w'. dl t k w = Inr (if amap t k = None then 1 else 0, t', w') \<and> inv t' \<and>
        amap t' = (amap t)(k := None) \<and> dests t' \<subseteq> dests t \<and> only_writes (dests t) w w' \<and>
        (amap t k = None \<longrightarrow> w' = w)"
begin

lemma write_loop_spec:
  assumes "inv t" and "\<And>k. k \<in> fst ` set ps \<Longrightarrow> valid k" and "calm w"
  shows "\<exists>t' w'. write_loop wr ps (t, w) = Inr (t', w') \<and> inv t' \<and>
    amap t' = amap t ++ map_of (rev ps) \<and> dests t' = dests t \<and> only_writes (dests t) w w'"
  using assms
proof (induction ps arbitrary: t w)
  case Nil
  then show ?case by (simp add: write_loop_def)
next
  case (Cons p ps)
  obtain k v where p: "p = (k, v)" by fastforce
  have "valid k" using Cons.prems(2) p by simp
  with wr_law Cons.prems obtain t1 w1 where
    1: "wr t k v w = Inr (0, t1, w1)" "inv t1" "amap t1 = (amap t)(k \<mapsto> v)" "dests t1 = dests t"
      "only_writes (dests t) w w1" by blast
  have "\<exists>t' w'. write_loop wr ps (t1, w1) = Inr (t', w') \<and> inv t' \<and>
      amap t' = amap t1 ++ map_of (rev ps) \<and> dests t' = dests t1 \<and> only_writes (dests t1) w1 w'"
    using Cons.prems 1 by (intro Cons.IH) (auto intro: only_writes_calm)
  then obtain t' w' where
    2: "write_loop wr ps (t1, w1) = Inr (t', w')" "inv t'" "amap t' = amap t1 ++ map_of (rev ps)"
      "dests t' = dests t1" "only_writes (dests t1) w1 w'" by blast
  have "amap t' = amap t ++ map_of (rev (p # ps))"
    by (simp add: 1(3) 2(3) p fun_eq_iff map_add_def map_of_append split: option.split)
  moreover have "only_writes (dests t) w w'" using 1(4,5) 2(5) only_writes_trans by simp
  moreover have "write_loop wr (p # ps) (t, w) = Inr (t', w')"
    using 1(1) 2(1) p by (simp add: write_loop_def)
  ultimately show ?case using 1(4) 2(2,4) by auto
qed

lemma read_loop_spec:
  assumes "inv t" and "\<And>k. k \<in> set keys \<Longrightarrow> valid k" and "calm w" and "healthy w fdOut"
  shows "read_loop rd t fdOut keys w =
    Inr (w\<lparr>w_out := (w_out w)(fdOut := w_out w fdOut @
           concat (map (\<lambda>k. read_line k (amap t k)) keys))\<rparr>)"
  using assms
proof (induction keys arbitrary: w)
  case Nil
  then show ?case by (simp add: read_loop_def)
next
  case (Cons k keys)
  let ?w1 = "w\<lparr>w_out := (w_out w)(fdOut := w_out w fdOut @ read_line k (amap t k))\<rparr>"
  have "rd t k w = Inr (amap t k, w)" using rd_law Cons.prems by simp
  moreover have "read_loop rd t fdOut keys ?w1 = Inr (?w1\<lparr>w_out := (w_out ?w1)(fdOut :=
      w_out ?w1 fdOut @ concat (map (\<lambda>k. read_line k (amap t k)) keys))\<rparr>)"
    using Cons.prems by (intro Cons.IH) (auto simp: calm_def healthy_def)
  ultimately show ?case
    using Cons.prems by (simp add: read_loop_def emit_healthy fun_upd_def cong: if_cong)
qed

lemma delete_loop_spec:
  assumes "inv t" and "\<And>k. k \<in> set keys \<Longrightarrow> valid k" and "calm w" and "healthy w fdOut"
    and "fdOut \<notin> dests t"
  shows "\<exists>t' w'. delete_loop dl fdOut keys (aux, t, w) =
      Inr (aux \<or> missing_keys (amap t) keys \<noteq> [], t', w') \<and> inv t' \<and>
    amap t' = (\<lambda>k. if k \<in> set keys then None else amap t k) \<and> dests t' \<subseteq> dests t \<and>
    only_writes (insert fdOut (dests t)) w w' \<and>
    w_out w' fdOut = w_out w fdOut @
      (if aux \<or> missing_keys (amap t) keys = [] then [] else ''['') @
      concat (map missing_line (missing_keys (amap t) keys))"
  using assms
proof (induction keys arbitrary: aux t w)
  case Nil
  then show ?case by (simp add: delete_loop_def)
next
  case (Cons k keys)
  let ?S = "insert fdOut (dests t)"
  let ?r = "if amap t k = None then 1 else 0 :: int"
  obtain t1 w1 where
    1: "dl t k w = Inr (?r, t1, w1)" "inv t1" "amap t1 = (amap t)(k := None)" "dests t1 \<subseteq> dests t"
      "only_writes (dests t) w w1" "amap t k = None \<longrightarrow> w1 = w"
    using dl_law [of t k w] Cons.prems by auto
  define w2 where "w2 = (if amap t k = None
    then emit (if aux then w1 else emit w1 fdOut ''['') fdOut (missing_line k) else w1)"
  have ow1: "only_writes ?S w w1" using only_writes_mono [OF 1(5)] by blast
  have ow12: "only_writes ?S w1 w2"
    unfolding w2_def by (auto intro!: only_writes_emit)
  have ow2: "only_writes ?S w w2" using ow1 ow12 by (rule only_writes_trans)
  have out2: "w_out w2 fdOut = w_out w fdOut @
      (if amap t k = None then (if aux then [] else ''['') @ missing_line k else [])"
  proof (cases "amap t k = None")
    case True
    then have "w2 = emit (if aux then w else emit w fdOut ''['') fdOut (missing_line k)"
      using 1(6) by (simp add: w2_def)
    moreover have "healthy (emit w fdOut ''['') fdOut"
      by (rule only_writes_healthy [OF emit_only_writes Cons.prems(4)])
    ultimately show ?thesis using True Cons.prems(4) by (simp add: emit_healthy)
  next
    case False
    then have "w2 = w1" by (simp only: w2_def if_False)
    then show ?thesis using False only_writes_output [OF 1(5) Cons.prems(5)] by (simp only: if_False) simp
  qed
  let ?aux = "aux \<or> amap t k = None"
  obtain t' w' where
    2: "delete_loop dl fdOut keys (?aux, t1, w2) =
        Inr (?aux \<or> missing_keys (amap t1) keys \<noteq> [], t', w')" "inv t'"
      "amap t' = (\<lambda>k. if k \<in> set keys then None else amap t1 k)" "dests t' \<subseteq> dests t1"
      "only_writes (insert fdOut (dests t1)) w2 w'"
      "w_out w' fdOut = w_out w2 fdOut @
        (if ?aux \<or> missing_keys (amap t1) keys = [] then [] else ''['') @
        concat (map missing_line (missing_keys (amap t1) keys))"
    using Cons.IH [of t1 w2 ?aux] Cons.prems 1(2,4) only_writes_calm [OF ow2]
      only_writes_healthy [OF ow2] by auto
  have run: "delete_loop dl fdOut (k # keys) (aux, t, w) = delete_loop dl fdOut keys (?aux, t1, w2)"
    using 1(1) by (cases "amap t k") (simp_all add: delete_loop_def w2_def Let_def)
  have "only_writes ?S w w'"
    using ow2 only_writes_mono [OF 2(5), of ?S] 1(4) by (blast intro: only_writes_trans)
  moreover have "amap t' = (\<lambda>j. if j \<in> set (k # keys) then None else amap t j)"
    using 2(3) 1(3) by auto
  moreover have "missing_keys (amap t) (k # keys) =
      (if amap t k = None then k # missing_keys (amap t1) keys else missing_keys (amap t1) keys)"
    using 1(3) by (auto simp: fun_upd_idem)
  ultimately show ?case
    using run 2(1,2,4,6) 1(4) out2
    by (intro exI [of _ t'] exI [of _ w']) (cases "amap t k", auto)
qed

end

end
