(* ===== verification/Kvs.thy ===== *)
theory Kvs
  imports Interfaces
begin

section \<open>The hash table (server/kvs.c)\<close>

text \<open>
  A table is 26 buckets, each the list of its key nodes in link order. A node holds its key, its
  value (\<open>None\<close> is the null pointer that a failed \<open>strdup\<close> leaves when a value is replaced) and
  the descriptors of its subscribers in link order. Every operation takes the state of the kernel
  and returns it, since it allocates memory and notifies subscribers. An index outside the table is
  a fault.
\<close>

record key_node =
  nkey :: string
  nvalue :: "string option"
  nsubs :: "int list"

record hash_table =
  buckets :: "key_node list list"

definition TABLE_SIZE :: nat where "TABLE_SIZE = 26"

subsection \<open>hash\<close>

text \<open>\<open>char_at\<close> is \<open>key[i]\<close>, where the terminator follows the last character.\<close>

definition char_at :: "string \<Rightarrow> nat \<Rightarrow> int" where
  "char_at key i = (if i < length key then of_char (key ! i) else 0)"

definition tolower :: "int \<Rightarrow> int" where
  "tolower c = (if of_char CHR ''A'' \<le> c \<and> c \<le> of_char CHR ''Z''
                then c - of_char CHR ''A'' + of_char CHR ''a'' else c)"

definition hash :: "string \<Rightarrow> int" where
  "hash key =
     (let firstLetter = tolower (char_at key 0) in
      if of_char CHR ''a'' \<le> firstLetter \<and> firstLetter \<le> of_char CHR ''z''
      then firstLetter - of_char CHR ''a''
      else if of_char CHR ''0'' \<le> firstLetter \<and> firstLetter \<le> of_char CHR ''9''
      then firstLetter - of_char CHR ''0''
      else - 1)"

definition valid_key :: "string \<Rightarrow> bool" where
  "valid_key key \<longleftrightarrow> 0 \<le> hash key"

subsection \<open>The operations\<close>

text \<open>
  \<open>create_hash_table\<close>: two allocations, then 26 buckets are emptied and their locks initialised;
  a lock that cannot be initialised makes it return NULL.
\<close>

fun init_bucket_locks :: "nat list \<Rightarrow> bool list \<Rightarrow> bool" where
  "init_bucket_locks [] rs = True"
| "init_bucket_locks (i # is) rs =
     (case rs of [] \<Rightarrow> init_bucket_locks is []
      | failed # rest \<Rightarrow> if failed then False else init_bucket_locks is rest)"

definition create_hash_table :: "world \<Rightarrow> hash_table option \<times> world" where
  "create_hash_table w =
     (case alloc w of (ok1, w1) \<Rightarrow>
       if \<not> ok1 then (None, w1)
       else (case alloc w1 of (ok2, w2) \<Rightarrow>
         if \<not> ok2 then (None, w2)
         else if init_bucket_locks [0..<TABLE_SIZE] (w_lockres w2)
         then (Some \<lparr>buckets = replicate TABLE_SIZE []\<rparr>,
               w2\<lparr>w_lockres := drop TABLE_SIZE (w_lockres w2)\<rparr>)
         else (None, w2\<lparr>w_lockres := tl (dropWhile Not (w_lockres w2))\<rparr>)))"

text \<open>
  \<open>notify_subscribers\<close> sends every subscriber the key and the value, 41 bytes each, and goes on
  when a write fails.
\<close>

fun notify_loop :: "world \<Rightarrow> int list \<Rightarrow> string \<Rightarrow> string \<Rightarrow> world" where
  "notify_loop w [] key val = w"
| "notify_loop w (fd # subscribers) key val =
     (let (r1, w1) = write_all w fd (mem_bytes (w_after w key) key KEY_MESSAGE_SIZE);
          (r2, w2) = write_all w1 fd (mem_bytes (w_after w1 val) val KEY_MESSAGE_SIZE)
      in notify_loop w2 subscribers key val)"

definition notify_subscribers :: "world \<Rightarrow> key_node \<Rightarrow> string \<Rightarrow> string \<Rightarrow> world" where
  "notify_subscribers w keyNode key val = notify_loop w (nsubs keyNode) key val"

text \<open>The search loop of \<open>write_pair\<close>: \<open>None\<close> when no node has the key.\<close>

fun write_existing ::
  "key_node list \<Rightarrow> string \<Rightarrow> string \<Rightarrow> world \<Rightarrow> (key_node list \<times> world) option" where
  "write_existing [] key val w = None"
| "write_existing (keyNode # next) key val w =
     (if strcmp (nkey keyNode) key = 0 then
        (let (ok, w1) = alloc w;
             keyNode' = keyNode\<lparr>nvalue := if ok then Some val else None\<rparr>
         in Some (keyNode' # next, notify_subscribers w1 keyNode' key val))
      else (case write_existing next key val w of
              None \<Rightarrow> None
            | Some (next', w') \<Rightarrow> Some (keyNode # next', w')))"

definition write_pair ::
  "hash_table \<Rightarrow> string \<Rightarrow> string \<Rightarrow> world \<Rightarrow> (int \<times> hash_table \<times> world) res" where
  "write_pair ht key val w =
     (let index = hash key in
      if index < 0 then Inl OutOfBounds
      else (let bucket = buckets ht ! nat index in
        case write_existing bucket key val w of
          Some (bucket', w') \<Rightarrow> Inr (0, ht\<lparr>buckets := (buckets ht)[nat index := bucket']\<rparr>, w')
        | None \<Rightarrow>
            (let (node_ok, w1) = alloc w in
             if \<not> node_ok then Inr (1, ht, w1)
             else (let (key_ok, w2) = alloc w1; (val_ok, w3) = alloc w2 in
               if \<not> key_ok \<or> \<not> val_ok then Inr (1, ht, w3)
               else (let keyNode = \<lparr>nkey = key, nvalue = Some val, nsubs = []\<rparr> in
                 Inr (0, ht\<lparr>buckets := (buckets ht)[nat index := keyNode # bucket]\<rparr>, w3))))))"

text \<open>\<open>read_pair\<close> returns a copy of the value, or NULL.\<close>

fun read_search :: "key_node list \<Rightarrow> string \<Rightarrow> world \<Rightarrow> (string option \<times> world) res" where
  "read_search [] key w = Inr (None, w)"
| "read_search (keyNode # next) key w =
     (if strcmp (nkey keyNode) key = 0 then
        (case nvalue keyNode of
           None \<Rightarrow> Inl NullDeref
         | Some val \<Rightarrow> (let (ok, w1) = alloc w in Inr (if ok then Some val else None, w1)))
      else read_search next key w)"

definition read_pair :: "hash_table \<Rightarrow> string \<Rightarrow> world \<Rightarrow> (string option \<times> world) res" where
  "read_pair ht key w =
     (let index = hash key in
      if index < 0 then Inl OutOfBounds
      else read_search (buckets ht ! nat index) key w)"

text \<open>\<open>delete_pair\<close> notifies the subscribers of the node before it unlinks and frees it.\<close>

fun delete_search :: "key_node list \<Rightarrow> string \<Rightarrow> world \<Rightarrow> (key_node list \<times> world) option" where
  "delete_search [] key w = None"
| "delete_search (keyNode # next) key w =
     (if strcmp (nkey keyNode) key = 0
      then Some (next, notify_subscribers w keyNode key ''DELETE'')
      else (case delete_search next key w of
              None \<Rightarrow> None
            | Some (next', w') \<Rightarrow> Some (keyNode # next', w')))"

definition delete_pair :: "hash_table \<Rightarrow> string \<Rightarrow> world \<Rightarrow> (int \<times> hash_table \<times> world) res" where
  "delete_pair ht key w =
     (let index = hash key in
      if index < 0 then Inl OutOfBounds
      else (case delete_search (buckets ht ! nat index) key w of
              Some (bucket', w') \<Rightarrow> Inr (0, ht\<lparr>buckets := (buckets ht)[nat index := bucket']\<rparr>, w')
            | None \<Rightarrow> Inr (1, ht, w)))"

text \<open>Subscribers of a node: added at the end unless present, removed at the first match.\<close>

definition add_subscriber ::
  "key_node option \<Rightarrow> int \<Rightarrow> world \<Rightarrow> int \<times> key_node option \<times> world" where
  "add_subscriber keyNode fdNotifPipe w =
     (case keyNode of
        None \<Rightarrow> (- 1, None, w)
      | Some kn \<Rightarrow>
          if fdNotifPipe \<in> set (nsubs kn) then (1, Some kn, w)
          else (let (ok, w1) = alloc w in
            if \<not> ok then (- 1, Some kn, w1)
            else (0, Some (kn\<lparr>nsubs := nsubs kn @ [fdNotifPipe]\<rparr>), w1)))"

fun remove_first :: "int \<Rightarrow> int list \<Rightarrow> int list option" where
  "remove_first fd [] = None"
| "remove_first fd (s # subs) =
     (if s = fd then Some subs
      else (case remove_first fd subs of None \<Rightarrow> None | Some subs' \<Rightarrow> Some (s # subs')))"

definition remove_subscriber :: "key_node \<Rightarrow> int \<Rightarrow> int \<times> key_node" where
  "remove_subscriber keyNode fdNotifPipe =
     (case remove_first fdNotifPipe (nsubs keyNode) of
        Some subs \<Rightarrow> (0, keyNode\<lparr>nsubs := subs\<rparr>)
      | None \<Rightarrow> (1, keyNode))"


text \<open>
  \<open>free_table\<close> releases every node and destroys the 26 bucket locks (an error is only reported);
  what it leaves of the kernel is the outcome of the later lock calls.
\<close>

definition free_table :: "hash_table \<Rightarrow> world \<Rightarrow> world" where
  "free_table ht w = w\<lparr>w_lockres := drop (length (buckets ht)) (w_lockres w)\<rparr>"

subsection \<open>What the table stands for\<close>

definition bucket_map :: "key_node list \<Rightarrow> string \<Rightarrow> key_node option" where
  "bucket_map bucket = map_of (map (\<lambda>n. (nkey n, n)) bucket)"

definition node_of :: "hash_table \<Rightarrow> string \<Rightarrow> key_node option" where
  "node_of ht key = (if hash key < 0 then None else bucket_map (buckets ht ! nat (hash key)) key)"

definition kvs_map :: "hash_table \<Rightarrow> string \<Rightarrow> string option" where
  "kvs_map ht key = (case node_of ht key of None \<Rightarrow> None | Some n \<Rightarrow> nvalue n)"

definition subscribers :: "hash_table \<Rightarrow> string \<Rightarrow> int list" where
  "subscribers ht key = (case node_of ht key of None \<Rightarrow> [] | Some n \<Rightarrow> nsubs n)"

definition all_nodes :: "hash_table \<Rightarrow> key_node list" where
  "all_nodes ht = concat (buckets ht)"

definition targets :: "hash_table \<Rightarrow> int set" where
  "targets ht = (\<Union>n \<in> set (all_nodes ht). set (nsubs n))"

text \<open>
  The representation invariant: 26 buckets, every node in the bucket of its key, no key twice, no
  subscriber twice at a node. \<open>no_null\<close> says that no node lost its value.
\<close>

definition wf_bucket :: "nat \<Rightarrow> key_node list \<Rightarrow> bool" where
  "wf_bucket i bucket \<longleftrightarrow>
     (\<forall>n \<in> set bucket. hash (nkey n) = int i \<and> distinct (nsubs n)) \<and> distinct (map nkey bucket)"

definition wf_table :: "hash_table \<Rightarrow> bool" where
  "wf_table ht \<longleftrightarrow>
     length (buckets ht) = TABLE_SIZE \<and> (\<forall>i < TABLE_SIZE. wf_bucket i (buckets ht ! i))"

definition no_null :: "hash_table \<Rightarrow> bool" where
  "no_null ht \<longleftrightarrow> (\<forall>n \<in> set (all_nodes ht). nvalue n \<noteq> None)"

subsection \<open>Lemmas on the hash\<close>

lemma hash_bounds: "- 1 \<le> hash key" "hash key < int TABLE_SIZE"
  by (simp_all add: hash_def TABLE_SIZE_def Let_def)

lemma valid_key_index: "valid_key key \<Longrightarrow> nat (hash key) < TABLE_SIZE"
  using hash_bounds [of key] by (simp add: valid_key_def)

lemma valid_key_not_neg [simp]: "valid_key key \<Longrightarrow> \<not> hash key < 0"
  by (simp add: valid_key_def)

lemma valid_key_ConsI: "c \<in> set ''abcdefghijklmnopqrstuvwxyz0123456789'' \<Longrightarrow> valid_key (c # cs)"
  by (auto simp: valid_key_def hash_def char_at_def tolower_def)

subsection \<open>Lemmas on buckets\<close>

lemma bucket_map_simps [simp]:
  "bucket_map [] = Map.empty"
  "bucket_map (n # b) = (bucket_map b)(nkey n \<mapsto> n)"
  by (simp_all add: bucket_map_def)

lemma bucket_map_None: "bucket_map b k = None \<longleftrightarrow> k \<notin> nkey ` set b"
  by (induction b) auto

lemma bucket_map_Some: "bucket_map b k = Some n \<Longrightarrow> n \<in> set b \<and> nkey n = k"
  by (induction b) (auto split: if_splits)

lemma bucket_map_member: "distinct (map nkey b) \<Longrightarrow> n \<in> set b \<Longrightarrow> bucket_map b (nkey n) = Some n"
  by (induction b) (auto simp: image_iff)

lemma write_existing_None: "write_existing b k v w = None \<longleftrightarrow> bucket_map b k = None"
  by (induction b) (auto simp: Let_def split: option.splits prod.splits)

lemma write_existing_Some:
  assumes "write_existing b k v w = Some (b', w')"
  obtains n ok w1 where "bucket_map b k = Some n" "alloc w = (ok, w1)"
    "w' = notify_loop w1 (nsubs n) k v"
    "map nkey b' = map nkey b"
    "bucket_map b' = (bucket_map b)(k \<mapsto> n\<lparr>nvalue := if ok then Some v else None\<rparr>)"
    "set b' \<subseteq> insert (n\<lparr>nvalue := if ok then Some v else None\<rparr>) (set b)"
  using assms
proof (induction b arbitrary: b' thesis)
  case Nil
  then show ?case by simp
next
  case (Cons m b)
  obtain ok w1 where al: "alloc w = (ok, w1)" by fastforce
  show ?case
  proof (cases "nkey m = k")
    case True
    then show ?thesis
      using Cons.prems al
      by (intro Cons.prems(1) [of m ok w1]) (auto simp: notify_subscribers_def)
  next
    case False
    with Cons.prems(2) obtain b1 where b1: "write_existing b k v w = Some (b1, w')" "b' = m # b1"
      by (auto split: option.splits)
    show ?thesis
      by (rule Cons.IH [OF _ b1(1)], rule Cons.prems(1))
        (use False b1(2) in \<open>auto simp: fun_upd_twist\<close>)
  qed
qed

lemma delete_search_None: "delete_search b k w = None \<longleftrightarrow> bucket_map b k = None"
  by (induction b) (auto split: option.splits prod.splits)

lemma delete_search_Some:
  assumes "delete_search b k w = Some (b', w')" and "distinct (map nkey b)"
  obtains n where "bucket_map b k = Some n" "w' = notify_loop w (nsubs n) k ''DELETE''"
    "distinct (map nkey b')" "bucket_map b' = (bucket_map b)(k := None)" "set b' \<subseteq> set b"
  using assms
proof (induction b arbitrary: b' thesis)
  case Nil
  then show ?case by simp
next
  case (Cons m b)
  show ?case
  proof (cases "nkey m = k")
    case True
    have "bucket_map b k = None" using Cons.prems(3) True by (auto simp: bucket_map_None)
    then show ?thesis
      using Cons.prems True
      by (intro Cons.prems(1) [of m]) (auto simp: notify_subscribers_def fun_upd_idem_iff)
  next
    case False
    with Cons.prems(2) obtain b1 where b1: "delete_search b k w = Some (b1, w')" "b' = m # b1"
      by (auto split: option.splits)
    have "distinct (map nkey b)" using Cons.prems(3) by simp
    from Cons.IH [OF _ b1(1) this] obtain n where n: "bucket_map b k = Some n"
      "w' = notify_loop w (nsubs n) k ''DELETE''" "distinct (map nkey b1)"
      "bucket_map b1 = (bucket_map b)(k := None)" "set b1 \<subseteq> set b" by blast
    then have "nkey m \<notin> nkey ` set b1" using Cons.prems(3) by auto
    then show ?thesis
      using n False b1(2) by (intro Cons.prems(1) [of n]) (auto simp: fun_upd_twist)
  qed
qed

lemma read_search_eq:
  "read_search b k w =
     (case bucket_map b k of
        None \<Rightarrow> Inr (None, w)
      | Some n \<Rightarrow>
          (case nvalue n of
             None \<Rightarrow> Inl NullDeref
           | Some v \<Rightarrow> (let (ok, w1) = alloc w in Inr (if ok then Some v else None, w1))))"
  by (induction b) (auto split: option.splits)

lemma remove_first_eq:
  "remove_first fd subs = (if fd \<in> set subs then Some (remove1 fd subs) else None)"
  by (induction subs) auto


subsection \<open>Lemmas on tables\<close>

lemma node_of_update:
  assumes "valid_key k" and "length (buckets ht) = TABLE_SIZE"
  shows "node_of (ht\<lparr>buckets := (buckets ht)[nat (hash k) := b]\<rparr>) k' =
    (if hash k' = hash k then bucket_map b k' else node_of ht k')"
proof (cases "hash k' < 0")
  case True
  with assms show ?thesis by (simp add: node_of_def valid_key_def)
next
  case False
  with assms show ?thesis
    using valid_key_index [OF assms(1)]
    by (auto simp: node_of_def nth_list_update eq_nat_nat_iff valid_key_def)
qed

lemma node_of_bucket: "valid_key k \<Longrightarrow> node_of ht k = bucket_map (buckets ht ! nat (hash k)) k"
  by (simp add: node_of_def)

lemma node_of_same_hash:
  "valid_key k \<Longrightarrow> hash k' = hash k \<Longrightarrow> node_of ht k' = bucket_map (buckets ht ! nat (hash k)) k'"
  by (simp add: node_of_def)

lemma node_of_fun_upd:
  assumes "valid_key k" and "length (buckets ht) = TABLE_SIZE"
    and "bucket_map b = (bucket_map (buckets ht ! nat (hash k)))(k := x)"
  shows "node_of (ht\<lparr>buckets := (buckets ht)[nat (hash k) := b]\<rparr>) = (node_of ht)(k := x)"
proof
  fix k'
  show "node_of (ht\<lparr>buckets := (buckets ht)[nat (hash k) := b]\<rparr>) k' = ((node_of ht)(k := x)) k'"
    unfolding node_of_update [OF assms(1,2)]
    by (cases "hash k' = hash k") (auto simp: assms(3) node_of_same_hash [OF assms(1)])
qed

lemma wf_table_update:
  assumes "wf_table ht" and "wf_bucket (nat (hash k)) b"
  shows "wf_table (ht\<lparr>buckets := (buckets ht)[nat (hash k) := b]\<rparr>)"
  using assms by (cases "nat (hash k) < TABLE_SIZE") (auto simp: wf_table_def nth_list_update)

lemma wf_table_bucket:
  assumes "wf_table ht" and "valid_key k"
  shows "wf_bucket (nat (hash k)) (buckets ht ! nat (hash k))"
  using assms valid_key_index [OF assms(2)] by (simp add: wf_table_def)

lemma wf_table_length [simp]: "wf_table ht \<Longrightarrow> length (buckets ht) = TABLE_SIZE"
  by (simp add: wf_table_def)

lemma all_nodes_iff:
  assumes "wf_table ht"
  shows "n \<in> set (all_nodes ht) \<longleftrightarrow> node_of ht (nkey n) = Some n"
proof
  assume "n \<in> set (all_nodes ht)"
  then obtain i where i: "i < TABLE_SIZE" "n \<in> set (buckets ht ! i)"
    using assms unfolding all_nodes_def wf_table_def set_concat by (metis UN_E in_set_conv_nth)
  then have "hash (nkey n) = int i" and "distinct (map nkey (buckets ht ! i))"
    using assms by (auto simp: wf_table_def wf_bucket_def)
  with i show "node_of ht (nkey n) = Some n"
    by (simp add: node_of_def bucket_map_member)
next
  assume n: "node_of ht (nkey n) = Some n"
  then have v: "valid_key (nkey n)" by (auto simp: node_of_def valid_key_def split: if_splits)
  have "bucket_map (buckets ht ! nat (hash (nkey n))) (nkey n) = Some n"
    using n by (simp only: node_of_bucket [OF v])
  then have "n \<in> set (buckets ht ! nat (hash (nkey n)))" by (rule bucket_map_Some [THEN conjunct1])
  moreover have "buckets ht ! nat (hash (nkey n)) \<in> set (buckets ht)"
    using valid_key_index [OF v] assms by simp
  ultimately show "n \<in> set (all_nodes ht)" unfolding all_nodes_def set_concat by blast
qed

lemma node_of_Some:
  assumes "node_of ht k = Some n"
  shows "nkey n = k" and "valid_key k"
  using assms
  by (auto simp: node_of_def valid_key_def bucket_map_Some split: if_splits)

lemma targets_iff:
  assumes "wf_table ht"
  shows "fd \<in> targets ht \<longleftrightarrow> (\<exists>k. fd \<in> set (subscribers ht k))"
proof
  assume "fd \<in> targets ht"
  then obtain n where "n \<in> set (all_nodes ht)" "fd \<in> set (nsubs n)" by (auto simp: targets_def)
  then show "\<exists>k. fd \<in> set (subscribers ht k)"
    using all_nodes_iff [OF assms] by (intro exI [of _ "nkey n"]) (simp add: subscribers_def)
next
  assume "\<exists>k. fd \<in> set (subscribers ht k)"
  then obtain k n where n: "node_of ht k = Some n" "fd \<in> set (nsubs n)"
    unfolding subscribers_def by (metis empty_iff list.set(1) option.case(1,2) option.exhaust)
  from n(1) have "nkey n = k" by (rule node_of_Some(1))
  with n have "n \<in> set (all_nodes ht)" by (simp add: all_nodes_iff [OF assms])
  with n show "fd \<in> targets ht" by (auto simp: targets_def)
qed

lemma no_null_iff:
  assumes "wf_table ht"
  shows "no_null ht \<longleftrightarrow> (\<forall>k n. node_of ht k = Some n \<longrightarrow> nvalue n \<noteq> None)"
  using all_nodes_iff [OF assms] node_of_Some by (fastforce simp: no_null_def)

lemma wf_node:
  assumes "wf_table ht" and "node_of ht k = Some n"
  shows "distinct (nsubs n)"
proof -
  have v: "valid_key k" and m: "n \<in> set (buckets ht ! nat (hash k))"
    using assms(2) node_of_Some(2) [OF assms(2)] bucket_map_Some [of _ k n]
    by (simp_all add: node_of_bucket)
  then show ?thesis using wf_table_bucket [OF assms(1) v] by (simp add: wf_bucket_def)
qed

subsection \<open>Lemmas on notifications\<close>

definition notification :: "world \<Rightarrow> string \<Rightarrow> string \<Rightarrow> string" where
  "notification w key val =
     mem_bytes (w_after w key) key KEY_MESSAGE_SIZE @ mem_bytes (w_after w val) val KEY_MESSAGE_SIZE"

lemma notify_loop_only_writes: "only_writes (set subs) w (notify_loop w subs k v)"
proof (induction subs arbitrary: w)
  case Nil
  then show ?case by simp
next
  case (Cons fd subs)
  obtain r1 w1 where 1: "write_all w fd (mem_bytes (w_after w k) k KEY_MESSAGE_SIZE) = (r1, w1)"
    by fastforce
  obtain r2 w2 where 2: "write_all w1 fd (mem_bytes (w_after w1 v) v KEY_MESSAGE_SIZE) = (r2, w2)"
    by fastforce
  have "only_writes (set (fd # subs)) w w1"
    by (rule only_writes_mono [OF write_all_only_writes [OF 1]]) simp
  also have "only_writes (set (fd # subs)) w1 w2"
    by (rule only_writes_mono [OF write_all_only_writes [OF 2]]) simp
  also have "only_writes (set (fd # subs)) w2 (notify_loop w2 subs k v)"
    by (rule only_writes_mono [OF Cons.IH]) auto
  finally show ?case using 1 2 by simp
qed

text \<open>
  A subscriber whose pipe is healthy gets one whole notification, whatever the writes to the other
  subscribers do.
\<close>

lemma notify_loop_out:
  assumes "distinct subs" and "healthy w fd"
  shows "w_out (notify_loop w subs k v) fd =
    (if fd \<in> set subs then w_out w fd @ notification w k v else w_out w fd)"
  using assms
proof (induction subs arbitrary: w)
  case Nil
  then show ?case by simp
next
  case (Cons g subs)
  let ?key = "mem_bytes (w_after w k) k KEY_MESSAGE_SIZE"
  obtain r1 w1 where 1: "write_all w g ?key = (r1, w1)" by fastforce
  let ?val = "mem_bytes (w_after w1 v) v KEY_MESSAGE_SIZE"
  obtain r2 w2 where 2: "write_all w1 g ?val = (r2, w2)" by fastforce
  have run: "notify_loop w (g # subs) k v = notify_loop w2 subs k v" using 1 2 by simp
  have only: "only_writes {g} w w2"
    using write_all_only_writes [OF 1] write_all_only_writes [OF 2] by (rule only_writes_trans)
  have after: "w_after w1 = w_after w" "notification w2 k v = notification w k v"
    using write_all_only_writes [OF 1] only by (simp_all add: only_writes_def notification_def)
  have h1: "healthy w1 fd" "healthy w2 fd"
    using only_writes_healthy [OF write_all_only_writes [OF 1]] only_writes_healthy [OF only] Cons.prems(2)
    by simp_all
  have "w_out w2 fd = (if fd = g then w_out w fd @ notification w k v else w_out w fd)"
  proof (cases "fd = g")
    case True
    then show ?thesis
      using write_all_healthy [OF Cons.prems(2), of ?key] write_all_healthy [OF h1(1), of ?val] 1 2 after(1)
      by (auto simp: notification_def)
  next
    case False
    then show ?thesis using only_writes_output [OF only] by simp
  qed
  then show ?case
    unfolding run using Cons.IH [OF _ h1(2)] Cons.prems(1) after(2) by auto
qed

text \<open>
  A reader that takes the 82 bytes apart as the client does finds the key and the value, whatever
  the bytes are that follow the two strings in memory.
\<close>

lemma length_notification [simp]: "length (notification w k v) = 2 * KEY_MESSAGE_SIZE"
  by (simp add: notification_def)

lemma notification_decodes:
  assumes "length k < KEY_MESSAGE_SIZE" "NUL \<notin> set k" "length v < KEY_MESSAGE_SIZE" "NUL \<notin> set v"
  shows "c_str (take KEY_MESSAGE_SIZE (notification w k v)) = k"
    and "c_str (drop KEY_MESSAGE_SIZE (notification w k v)) = v"
  using assms by (simp_all add: notification_def c_str_mem_bytes)


subsection \<open>What each operation does to the table\<close>

text \<open>
  \<open>write_pair\<close> on every branch: a key that is present keeps its node and subscribers, gets the new
  value (or a null one when \<open>strdup\<close> fails) and its subscribers are notified; a key that is absent
  gets a node of its own without subscribers, unless an allocation fails.
\<close>

lemma write_pair_cases:
  assumes "wf_table ht" and "valid_key k"
  obtains (updated) n ok w1 ht' where "node_of ht k = Some n" "alloc w = (ok, w1)"
      "write_pair ht k v w = Inr (0, ht', notify_loop w1 (nsubs n) k v)" "wf_table ht'"
      "node_of ht' = (node_of ht)(k \<mapsto> n\<lparr>nvalue := if ok then Some v else None\<rparr>)"
  | (inserted) ht' w' where "node_of ht k = None" "write_pair ht k v w = Inr (0, ht', w')"
      "wf_table ht'" "only_writes {} w w'"
      "node_of ht' = (node_of ht)(k \<mapsto> \<lparr>nkey = k, nvalue = Some v, nsubs = []\<rparr>)"
  | (no_memory) w' where "node_of ht k = None" "write_pair ht k v w = Inr (1, ht, w')"
      "only_writes {} w w'" "w_allocs w \<noteq> []"
proof -
  let ?b = "buckets ht ! nat (hash k)"
  have wfb: "wf_bucket (nat (hash k)) ?b" using wf_table_bucket [OF assms] .
  have hk: "hash k = int (nat (hash k))" using assms(2) by (simp add: valid_key_def)
  note upd = node_of_fun_upd [OF assms(2) wf_table_length [OF assms(1)]]
  show thesis
  proof (cases "write_existing ?b k v w")
    case (Some p)
    obtain b' w' where p: "p = (b', w')" by fastforce
    from write_existing_Some [OF Some [unfolded p]] obtain n ok w1 where
      n: "bucket_map ?b k = Some n" "alloc w = (ok, w1)" "w' = notify_loop w1 (nsubs n) k v"
        "map nkey b' = map nkey ?b"
        "bucket_map b' = (bucket_map ?b)(k \<mapsto> n\<lparr>nvalue := if ok then Some v else None\<rparr>)"
        "set b' \<subseteq> insert (n\<lparr>nvalue := if ok then Some v else None\<rparr>) (set ?b)" by metis
    let ?ht = "ht\<lparr>buckets := (buckets ht)[nat (hash k) := b']\<rparr>"
    let ?n = "n\<lparr>nvalue := if ok then Some v else None\<rparr>"
    have m: "n \<in> set ?b" "nkey n = k" using bucket_map_Some [OF n(1)] by blast+
    have "hash (nkey x) = int (nat (hash k)) \<and> distinct (nsubs x)" if "x \<in> set b'" for x
    proof (cases "x = ?n")
      case True
      then show ?thesis using wfb m(1) unfolding wf_bucket_def by simp
    next
      case False
      then have "x \<in> set ?b" using n(6) that by blast
      then show ?thesis using wfb unfolding wf_bucket_def by blast
    qed
    then have "wf_bucket (nat (hash k)) b'" using wfb n(4) unfolding wf_bucket_def by metis
    moreover have "node_of ?ht = (node_of ht)(k \<mapsto> n\<lparr>nvalue := if ok then Some v else None\<rparr>)"
      by (rule upd) (rule n(5))
    ultimately show thesis
      using Some p n assms
      by (intro updated [of n ok w1 ?ht])
        (simp_all add: write_pair_def node_of_bucket wf_table_update)
  next
    case None
    then have nn: "bucket_map ?b k = None" by (simp add: write_existing_None)
    obtain a1 w1 a2 w2 a3 w3 where al: "alloc w = (a1, w1)" "alloc w1 = (a2, w2)" "alloc w2 = (a3, w3)"
      by (metis surj_pair)
    note ow = al [THEN only_writes_alloc, of "{}"]
    show thesis
    proof (cases "a1 \<and> a2 \<and> a3")
      case True
      let ?n = "\<lparr>nkey = k, nvalue = Some v, nsubs = []\<rparr>"
      let ?ht = "ht\<lparr>buckets := (buckets ht)[nat (hash k) := ?n # ?b]\<rparr>"
      have "wf_bucket (nat (hash k)) (?n # ?b)"
        using wfb nn hk by (auto simp: wf_bucket_def bucket_map_None)
      moreover have "node_of ?ht = (node_of ht)(k \<mapsto> ?n)"
        by (rule upd) simp
      moreover have "only_writes {} w w3" using ow by (blast intro: only_writes_trans)
      ultimately show thesis
        using None True nn al assms
        by (intro inserted [of ?ht w3])
          (simp_all add: write_pair_def node_of_bucket wf_table_update Let_def)
    next
      case False
      have "w_allocs w \<noteq> []" using False al by (auto simp: alloc_def split: list.splits)
      then show thesis
        using None False nn al assms ow
        by (intro no_memory [of "if a1 then w3 else w1"])
          (auto simp: write_pair_def node_of_bucket Let_def intro: only_writes_trans)
    qed
  qed
qed

lemma read_pair_eq:
  assumes "valid_key k"
  shows "read_pair ht k w =
     (case node_of ht k of
        None \<Rightarrow> Inr (None, w)
      | Some n \<Rightarrow>
          (case nvalue n of
             None \<Rightarrow> Inl NullDeref
           | Some v \<Rightarrow> (let (ok, w1) = alloc w in Inr (if ok then Some v else None, w1))))"
  using assms by (simp add: read_pair_def node_of_bucket read_search_eq)

lemma delete_pair_cases:
  assumes "wf_table ht" and "valid_key k"
  obtains (deleted) n ht' where "node_of ht k = Some n"
      "delete_pair ht k w = Inr (0, ht', notify_loop w (nsubs n) k ''DELETE'')" "wf_table ht'"
      "node_of ht' = (node_of ht)(k := None)"
  | (missing) "node_of ht k = None" "delete_pair ht k w = Inr (1, ht, w)"
proof -
  let ?b = "buckets ht ! nat (hash k)"
  have wfb: "wf_bucket (nat (hash k)) ?b" using wf_table_bucket [OF assms] .
  then have db: "distinct (map nkey ?b)" by (simp add: wf_bucket_def)
  note upd = node_of_fun_upd [OF assms(2) wf_table_length [OF assms(1)]]
  show thesis
  proof (cases "delete_search ?b k w")
    case (Some p)
    obtain b' w' where p: "p = (b', w')" by fastforce
    from delete_search_Some [OF Some [unfolded p] db] obtain n where
      n: "bucket_map ?b k = Some n" "w' = notify_loop w (nsubs n) k ''DELETE''"
        "distinct (map nkey b')" "bucket_map b' = (bucket_map ?b)(k := None)" "set b' \<subseteq> set ?b"
      by metis
    let ?ht = "ht\<lparr>buckets := (buckets ht)[nat (hash k) := b']\<rparr>"
    have "wf_bucket (nat (hash k)) b'" using wfb n(3,5) by (auto simp: wf_bucket_def)
    moreover have "node_of ?ht = (node_of ht)(k := None)"
      by (rule upd) (rule n(4))
    ultimately show thesis
      using Some p n assms
      by (intro deleted [of n ?ht]) (simp_all add: delete_pair_def node_of_bucket wf_table_update)
  next
    case None
    then have "bucket_map ?b k = None" by (simp add: delete_search_None)
    with None show thesis
      using assms by (intro missing) (simp_all add: delete_pair_def node_of_bucket)
  qed
qed


subsection \<open>The table is a key-value store\<close>

definition sound_table :: "hash_table \<Rightarrow> bool" where
  "sound_table ht \<longleftrightarrow> wf_table ht \<and> no_null ht"

lemma kvs_map_upd:
  "node_of ht' = (node_of ht)(k := x) \<Longrightarrow>
   kvs_map ht' = (kvs_map ht)(k := (case x of None \<Rightarrow> None | Some n \<Rightarrow> nvalue n))"
  by (auto simp: kvs_map_def fun_eq_iff)

lemma kvs_map_None:
  "sound_table ht \<Longrightarrow> kvs_map ht k = None \<longleftrightarrow> node_of ht k = None"
  by (auto simp: kvs_map_def sound_table_def no_null_iff split: option.splits)

lemma subscribers_upd:
  "node_of ht' = (node_of ht)(k := x) \<Longrightarrow>
   subscribers ht' = (subscribers ht)(k := (case x of None \<Rightarrow> [] | Some n \<Rightarrow> nsubs n))"
  by (auto simp: subscribers_def fun_eq_iff)

lemma no_null_upd:
  assumes "wf_table ht" "wf_table ht'" "no_null ht" "node_of ht' = (node_of ht)(k := x)"
    and "\<And>n. x = Some n \<Longrightarrow> nvalue n \<noteq> None"
  shows "no_null ht'"
  using assms by (auto simp: no_null_iff)

lemma targets_cong:
  assumes "wf_table ht" "wf_table ht'" "subscribers ht' = subscribers ht"
  shows "targets ht' = targets ht"
  using assms by (auto simp: targets_iff)

lemma subscribers_targets:
  "wf_table ht \<Longrightarrow> node_of ht k = Some n \<Longrightarrow> set (nsubs n) \<subseteq> targets ht"
  by (auto simp: targets_iff subscribers_def intro!: exI [of _ k])

lemma write_pair_law:
  assumes "sound_table ht" and "valid_key k" and "calm w"
  shows "\<exists>ht' w'. write_pair ht k v w = Inr (0, ht', w') \<and> sound_table ht' \<and>
    kvs_map ht' = (kvs_map ht)(k \<mapsto> v) \<and> targets ht' = targets ht \<and>
    only_writes (targets ht) w w'"
proof -
  have wf: "wf_table ht" and nn: "no_null ht" using assms(1) by (simp_all add: sound_table_def)
  show ?thesis
  proof (rule write_pair_cases [OF wf assms(2), of w v], goal_cases)
    case (1 n ok w1 ht')
    have w1: "ok" "w1 = w" using 1(2) assms(3) by (simp_all add: calm_def)
    have "no_null ht'" using w1(1) by (intro no_null_upd [OF wf 1(4) nn 1(5)]) auto
    moreover have "targets ht' = targets ht"
      using 1(1) by (intro targets_cong [OF wf 1(4)])
        (auto simp: subscribers_upd [OF 1(5)] subscribers_def fun_eq_iff)
    moreover have "only_writes (targets ht) w (notify_loop w1 (nsubs n) k v)"
      using only_writes_mono [OF notify_loop_only_writes subscribers_targets [OF wf 1(1)]] w1(2)
      by simp
    ultimately show ?thesis
      using 1 w1(1) kvs_map_upd [OF 1(5)] by (auto simp: sound_table_def)
  next
    case (2 ht' w')
    have "no_null ht'" by (rule no_null_upd [OF wf 2(3) nn 2(5)]) auto
    moreover have "targets ht' = targets ht"
      using 2(1) by (intro targets_cong [OF wf 2(3)])
        (auto simp: subscribers_upd [OF 2(5)] subscribers_def fun_eq_iff)
    ultimately show ?thesis
      using 2 kvs_map_upd [OF 2(5)] only_writes_mono [OF 2(4)] by (auto simp: sound_table_def)
  next
    case (3 w')
    then show ?thesis using assms(3) by (simp add: calm_def)
  qed
qed

lemma read_pair_law:
  assumes "sound_table ht" and "valid_key k" and "calm w"
  shows "read_pair ht k w = Inr (kvs_map ht k, w)"
proof (cases "node_of ht k")
  case None
  then show ?thesis by (simp add: read_pair_eq [OF assms(2)] kvs_map_def)
next
  case (Some n)
  then obtain v where "nvalue n = Some v"
    using assms(1) no_null_iff by (fastforce simp: sound_table_def)
  with Some show ?thesis
    using assms(3) by (simp add: read_pair_eq [OF assms(2)] kvs_map_def calm_def)
qed

lemma delete_pair_law:
  assumes "sound_table ht" and "valid_key k" and "calm w"
  shows "\<exists>ht' w'. delete_pair ht k w = Inr (if kvs_map ht k = None then 1 else 0, ht', w') \<and>
    sound_table ht' \<and> kvs_map ht' = (kvs_map ht)(k := None) \<and> targets ht' \<subseteq> targets ht \<and>
    only_writes (targets ht) w w' \<and> (kvs_map ht k = None \<longrightarrow> w' = w)"
proof -
  have wf: "wf_table ht" and nn: "no_null ht" using assms(1) by (simp_all add: sound_table_def)
  show ?thesis
  proof (rule delete_pair_cases [OF wf assms(2), of w], goal_cases)
    case (1 n ht')
    have "kvs_map ht k \<noteq> None" using 1(1) by (simp add: kvs_map_None [OF assms(1)])
    moreover have "no_null ht'" by (rule no_null_upd [OF wf 1(3) nn 1(4)]) auto
    moreover have "targets ht' \<subseteq> targets ht"
      by (auto simp: targets_iff wf 1(3) subscribers_upd [OF 1(4)] split: if_splits)
    moreover have "only_writes (targets ht) w (notify_loop w (nsubs n) k ''DELETE'')"
      by (rule only_writes_mono [OF notify_loop_only_writes subscribers_targets [OF wf 1(1)]])
    ultimately show ?thesis
      using 1 kvs_map_upd [OF 1(4)] by (auto simp: sound_table_def)
  next
    case 2
    then have "kvs_map ht k = None" by (simp add: kvs_map_None [OF assms(1)])
    with 2 assms(1) show ?thesis by (auto simp: fun_upd_idem)
  qed
qed

interpretation kvs: kv_store sound_table valid_key kvs_map targets write_pair read_pair delete_pair
  by unfold_locales (simp_all add: write_pair_law read_pair_law delete_pair_law)
subsection \<open>Changing one node\<close>

text \<open>
  What the subscription operations do to a bucket: the node of the key, if there is one, is changed
  by a function that keeps its key and value.
\<close>

definition set_node :: "string \<Rightarrow> (key_node \<Rightarrow> key_node) \<Rightarrow> key_node list \<Rightarrow> key_node list" where
  "set_node k f b = map (\<lambda>n. if nkey n = k then f n else n) b"

definition modify_node :: "hash_table \<Rightarrow> string \<Rightarrow> (key_node \<Rightarrow> key_node) \<Rightarrow> hash_table" where
  "modify_node ht k f =
     ht\<lparr>buckets := (buckets ht)[nat (hash k) := set_node k f (buckets ht ! nat (hash k))]\<rparr>"

definition keeps_pair :: "(key_node \<Rightarrow> key_node) \<Rightarrow> bool" where
  "keeps_pair f \<longleftrightarrow> (\<forall>n. nkey (f n) = nkey n \<and> nvalue (f n) = nvalue n \<and>
     (distinct (nsubs n) \<longrightarrow> distinct (nsubs (f n))))"

lemma set_node_absent: "k \<notin> nkey ` set b \<Longrightarrow> set_node k f b = b"
  unfolding set_node_def by (intro map_idI) auto

lemma bucket_map_set_node:
  assumes "keeps_pair f"
  shows "bucket_map (set_node k f b) = (bucket_map b)(k := map_option f (bucket_map b k))"
  using assms by (induction b) (auto simp: set_node_def keeps_pair_def fun_eq_iff)

lemma wf_bucket_set_node:
  assumes "keeps_pair f" and "wf_bucket i b"
  shows "wf_bucket i (set_node k f b)"
proof -
  have "map nkey (set_node k f b) = map nkey b"
    using assms(1) by (simp add: set_node_def keeps_pair_def)
  then show ?thesis
    using assms unfolding wf_bucket_def
    by (auto simp del: map_map simp: keeps_pair_def) (auto simp: set_node_def)
qed

lemma modify_node:
  assumes "keeps_pair f" and "valid_key k" and "wf_table ht"
  shows "wf_table (modify_node ht k f)"
    and "node_of (modify_node ht k f) = (node_of ht)(k := map_option f (node_of ht k))"
    and "kvs_map (modify_node ht k f) = kvs_map ht"
    and "subscribers (modify_node ht k f) =
      (subscribers ht)(k := (case node_of ht k of None \<Rightarrow> [] | Some n \<Rightarrow> nsubs (f n)))"
proof -
  have "wf_bucket (nat (hash k)) (set_node k f (buckets ht ! nat (hash k)))"
    by (rule wf_bucket_set_node [OF assms(1) wf_table_bucket [OF assms(3,2)]])
  then show "wf_table (modify_node ht k f)"
    unfolding modify_node_def by (rule wf_table_update [OF assms(3)])
  show upd: "node_of (modify_node ht k f) = (node_of ht)(k := map_option f (node_of ht k))"
    unfolding modify_node_def
    by (rule node_of_fun_upd [OF assms(2) wf_table_length [OF assms(3)]])
      (simp add: bucket_map_set_node [OF assms(1)] node_of_bucket [OF assms(2)])
  show "kvs_map (modify_node ht k f) = kvs_map ht"
    using assms(1) kvs_map_upd [OF upd]
    by (auto simp: keeps_pair_def kvs_map_def fun_eq_iff split: option.splits)
  show "subscribers (modify_node ht k f) =
      (subscribers ht)(k := (case node_of ht k of None \<Rightarrow> [] | Some n \<Rightarrow> nsubs (f n)))"
    using subscribers_upd [OF upd] by (auto split: option.splits)
qed

lemma modify_node_sound:
  assumes "keeps_pair f" and "valid_key k" and "sound_table ht"
  shows "sound_table (modify_node ht k f)"
proof -
  have wf: "wf_table ht" "no_null ht" using assms(3) by (simp_all add: sound_table_def)
  note m = modify_node [OF assms(1,2) wf(1)]
  have "nvalue (f n) = nvalue n" for n using assms(1) by (simp add: keeps_pair_def)
  then have "no_null (modify_node ht k f)"
    using wf no_null_iff [OF wf(1)] by (intro no_null_upd [OF wf(1) m(1) wf(2) m(2)]) auto
  then show ?thesis using m(1) by (simp add: sound_table_def)
qed
subsection \<open>A table to evaluate on\<close>

text \<open>One key with one subscriber, for the instances that show that hypotheses can hold.\<close>

definition sample_table :: hash_table where
  "sample_table =
     \<lparr>buckets = [[\<lparr>nkey = ''a'', nvalue = Some ''1'', nsubs = [7]\<rparr>],
       [], [], [], [], [], [], [], [], [], [], [], [], [], [], [], [], [], [], [], [], [], [], [], [], []]\<rparr>"

lemma sample_table_sound [simp]: "sound_table sample_table"
  by code_simp

lemma sample_table_facts [simp]:
  "kvs_map sample_table ''a'' = Some ''1''" "subscribers sample_table ''a'' = [7]"
  "targets sample_table = {7}" "no_null sample_table" "wf_table sample_table"
  "node_of sample_table ''b'' = None" "kvs_map sample_table ''b'' = None"
  "valid_key ''a''" "valid_key ''b''" "valid_key ''c''"
  by (simp_all add: kvs_map_def node_of_def subscribers_def targets_def all_nodes_def
      sample_table_def valid_key_def hash_def tolower_def char_at_def) code_simp+

lemma quiet_world_facts [simp]:
  "healthy quiet_world 1" "w_locks quiet_world = []" "w_out quiet_world = (\<lambda>_. [])"
  "w_allocs quiet_world = []" "w_lockres quiet_world = []" "w_open quiet_world = [0, 1, 2]"
  "w_in quiet_world = (\<lambda>_. [])" "w_wsched quiet_world = (\<lambda>_. [])" "w_rsched quiet_world = (\<lambda>_. [])"
  "w_canopen quiet_world = (\<lambda>_. True)"
  by (simp_all add: healthy_def quiet_world_def)
lemma all_nodes_sample:
  "all_nodes sample_table = [\<lparr>nkey = ''a'', nvalue = Some ''1'', nsubs = [7]\<rparr>]"
  by (simp add: all_nodes_def sample_table_def)

end
