(* ===== verification/Operations.thy ===== *)
theory Operations
  imports Kvs
begin

section \<open>The operations on the table (server/operations.c)\<close>

text \<open>
  The commands of a job on the shared table: each sorts its keys, locks the buckets they fall into,
  works through them and unlocks the buckets again. \<open>table_ptr\<close> is the static pointer
  \<open>kvs_table\<close>: null before \<open>kvs_init\<close>, dangling after \<open>kvs_terminate\<close>. The arrays of a command are
  the lists of its \<open>num_pairs\<close> keys and values. What is printed on the error stream is left out.
\<close>

datatype table_ptr = NullTable | Table hash_table | FreedTable

definition MAX_WRITE_SIZE :: nat where "MAX_WRITE_SIZE = 256"

subsection \<open>Sorting\<close>

text \<open>
  \<open>qsort\<close> of the C library, as an insertion sort over the comparison function. C leaves the order
  of elements that compare equal open; the properties below rest on the contract \<open>sorting\<close> only.
\<close>

fun qsort_insert :: "('a \<Rightarrow> 'a \<Rightarrow> int) \<Rightarrow> 'a \<Rightarrow> 'a list \<Rightarrow> 'a list" where
  "qsort_insert cmp x [] = [x]"
| "qsort_insert cmp x (y # ys) = (if cmp x y \<le> 0 then x # y # ys else y # qsort_insert cmp x ys)"

definition qsort :: "('a \<Rightarrow> 'a \<Rightarrow> int) \<Rightarrow> 'a list \<Rightarrow> 'a list" where
  "qsort cmp xs = foldr (qsort_insert cmp) xs []"

definition compare_pairs :: "string \<times> string \<Rightarrow> string \<times> string \<Rightarrow> int" where
  "compare_pairs pair1 pair2 = strcmp (fst pair1) (fst pair2)"

definition compare_keys :: "string \<Rightarrow> string \<Rightarrow> int" where
  "compare_keys key1 key2 = strcmp key1 key2"

subsection \<open>Delays\<close>

text \<open>The time that WAIT hands to \<open>nanosleep\<close>; common/io.c has the same function.\<close>

definition server_delay_to_timespec :: "32 word \<Rightarrow> timespec" where
  "server_delay_to_timespec delay_ms =
     \<lparr>tv_sec = ucast (delay_ms div 1000), tv_nsec = ucast ((delay_ms mod 1000) * 1000000)\<rparr>"

lemma server_delay_eq: "server_delay_to_timespec = delay_to_timespec"
  by (simp add: fun_eq_iff server_delay_to_timespec_def delay_to_timespec_def)

subsection \<open>Initialisation and termination\<close>

definition kvs_init :: "table_ptr \<Rightarrow> world \<Rightarrow> int \<times> table_ptr \<times> world" where
  "kvs_init kvs_table w =
     (if kvs_table \<noteq> NullTable then (1, kvs_table, w)
      else (case create_hash_table w of
              (None, w') \<Rightarrow> (1, NullTable, w')
            | (Some ht, w') \<Rightarrow> (0, Table ht, w')))"

definition kvs_terminate :: "table_ptr \<Rightarrow> world \<Rightarrow> (int \<times> table_ptr \<times> world) res" where
  "kvs_terminate kvs_table w =
     (case kvs_table of
        NullTable \<Rightarrow> Inr (1, NullTable, w)
      | FreedTable \<Rightarrow> Inl UseAfterFree
      | Table ht \<Rightarrow> Inr (0, FreedTable, free_table ht w))"

subsection \<open>Locking the buckets of a list of keys\<close>

text \<open>\<open>indexList\<close> remembers which buckets this call has locked already.\<close>

fun lock_list ::
  "(rwlock \<Rightarrow> lock_event) \<Rightarrow> string list \<Rightarrow> int list \<Rightarrow> world \<Rightarrow> (int \<times> int list \<times> world) res" where
  "lock_list mode [] indexList w = Inr (0, indexList, w)"
| "lock_list mode (key # keys) indexList w =
     (let index = hash key in
      if index < 0 then Inl OutOfBounds
      else if indexList ! nat index = 0 then
        (case lock_call w (mode (Bucket (nat index))) of
           (r, w1) \<Rightarrow>
             if r \<noteq> 0 then Inr (1, indexList, w1)
             else lock_list mode keys (indexList[nat index := 1]) w1)
      else lock_list mode keys indexList w)"

definition lock_write_list :: "string list \<Rightarrow> int list \<Rightarrow> world \<Rightarrow> (int \<times> int list \<times> world) res" where
  "lock_write_list = lock_list WrLock"

definition lock_read_list :: "string list \<Rightarrow> int list \<Rightarrow> world \<Rightarrow> (int \<times> int list \<times> world) res" where
  "lock_read_list = lock_list RdLock"

fun unlock_from :: "nat list \<Rightarrow> int list \<Rightarrow> world \<Rightarrow> int \<times> int list \<times> world" where
  "unlock_from [] indexList w = (0, indexList, w)"
| "unlock_from (i # is) indexList w =
     (if indexList ! i = 1 then
        (case lock_call w (Unlock (Bucket i)) of
           (r, w1) \<Rightarrow> if r \<noteq> 0 then (1, indexList, w1) else unlock_from is (indexList[i := 0]) w1)
      else unlock_from is indexList w)"

definition unlock_list :: "int list \<Rightarrow> world \<Rightarrow> int \<times> int list \<times> world" where
  "unlock_list indexList w = unlock_from [0..<TABLE_SIZE] indexList w"

definition no_locks :: "int list" where "no_locks = replicate TABLE_SIZE 0"

subsection \<open>WRITE, READ and DELETE\<close>

definition kvs_write ::
  "table_ptr \<Rightarrow> string list \<Rightarrow> string list \<Rightarrow> world \<Rightarrow> (int \<times> table_ptr \<times> world) res" where
  "kvs_write kvs_table keys vals w =
     (case kvs_table of
        NullTable \<Rightarrow> Inr (1, NullTable, w)
      | FreedTable \<Rightarrow> Inl UseAfterFree
      | Table ht \<Rightarrow>
          (let pairs = qsort compare_pairs (zip keys vals); sortedKeys = map fst pairs in
           bindE (lock_write_list sortedKeys no_locks w) (\<lambda>(r, indexList, w1).
             if r \<noteq> 0 then Inr (1, Table ht, w1)
             else bindE (write_loop write_pair pairs (ht, w1)) (\<lambda>(ht', w2).
               (case unlock_list indexList w2 of
                  (r', _, w3) \<Rightarrow> Inr (if r' \<noteq> 0 then 1 else 0, Table ht', w3))))))"

definition kvs_read :: "table_ptr \<Rightarrow> string list \<Rightarrow> int \<Rightarrow> world \<Rightarrow> (int \<times> world) res" where
  "kvs_read kvs_table keys fdOut w =
     (case kvs_table of
        NullTable \<Rightarrow> Inr (1, w)
      | FreedTable \<Rightarrow> Inl UseAfterFree
      | Table ht \<Rightarrow>
          (let sortedKeys = qsort compare_keys keys in
           bindE (lock_read_list sortedKeys no_locks w) (\<lambda>(r, indexList, w1).
             if r \<noteq> 0 then Inr (1, w1)
             else bindE (read_loop read_pair ht fdOut sortedKeys (emit w1 fdOut ''['')) (\<lambda>w2.
               (case unlock_list indexList (emit w2 fdOut ('']'' @ [newline])) of
                  (r', _, w3) \<Rightarrow> Inr (if r' \<noteq> 0 then 1 else 0, w3))))))"

definition kvs_delete ::
  "table_ptr \<Rightarrow> string list \<Rightarrow> int \<Rightarrow> world \<Rightarrow> (int \<times> table_ptr \<times> world) res" where
  "kvs_delete kvs_table keys fdOut w =
     (case kvs_table of
        NullTable \<Rightarrow> Inr (1, NullTable, w)
      | FreedTable \<Rightarrow> Inl UseAfterFree
      | Table ht \<Rightarrow>
          (let sortedKeys = qsort compare_keys keys in
           bindE (lock_write_list sortedKeys no_locks w) (\<lambda>(r, indexList, w1).
             if r \<noteq> 0 then Inr (1, Table ht, w1)
             else bindE (delete_loop delete_pair fdOut sortedKeys (False, ht, w1)) (\<lambda>(aux, ht', w2).
               (case unlock_list indexList
                   (if aux then emit w2 fdOut ('']'' @ [newline]) else w2) of
                  (r', _, w3) \<Rightarrow> Inr (if r' \<noteq> 0 then 1 else 0, Table ht', w3))))))"

subsection \<open>SHOW and BACKUP\<close>

text \<open>The table is used without a test for null: a call before \<open>kvs_init\<close> is a fault.\<close>

definition deref :: "table_ptr \<Rightarrow> hash_table res" where
  "deref kvs_table =
     (case kvs_table of
        NullTable \<Rightarrow> Inl NullDeref | FreedTable \<Rightarrow> Inl UseAfterFree | Table ht \<Rightarrow> Inr ht)"

text \<open>A loop of lock calls that stops at the first error.\<close>

fun lock_calls :: "lock_event list \<Rightarrow> world \<Rightarrow> int \<times> world" where
  "lock_calls [] w = (0, w)"
| "lock_calls (ev # evs) w =
     (case lock_call w ev of (r, w1) \<Rightarrow> if r \<noteq> 0 then (1, w1) else lock_calls evs w1)"

definition node_value :: "key_node \<Rightarrow> string res" where
  "node_value keyNode = (case nvalue keyNode of None \<Rightarrow> Inl NullDeref | Some val \<Rightarrow> Inr val)"

definition show_line :: "string \<Rightarrow> string \<Rightarrow> string" where
  "show_line key val = snprintf MAX_WRITE_SIZE (''('' @ key @ '', '' @ val @ '')'' @ [newline])"

definition show_table :: "hash_table \<Rightarrow> int \<Rightarrow> world \<Rightarrow> world res" where
  "show_table ht fdOut =
     for_each (for_each (\<lambda>keyNode w. bindE (node_value keyNode)
       (\<lambda>val. Inr (emit w fdOut (show_line (nkey keyNode) val))))) (buckets ht)"

definition kvs_show :: "table_ptr \<Rightarrow> int \<Rightarrow> world \<Rightarrow> (int \<times> world) res" where
  "kvs_show kvs_table fdOut w =
     bindE (deref kvs_table) (\<lambda>ht.
       (case lock_calls (map (\<lambda>i. RdLock (Bucket i)) [0..<TABLE_SIZE]) w of
          (r, w1) \<Rightarrow>
            if r \<noteq> 0 then Inr (1, w1)
            else bindE (show_table ht fdOut w1) (\<lambda>w2.
              Inr (lock_calls (map (\<lambda>i. Unlock (Bucket i)) [0..<TABLE_SIZE]) w2))))"

text \<open>
  One line of a backup is assembled in a buffer of 40 bytes: every part is copied only as far as
  the space that is left, one byte being kept for the terminator.
\<close>

definition backup_append :: "string \<Rightarrow> string \<Rightarrow> string" where
  "backup_append aux src = aux @ strn_memcpy src (MAX_STRING_SIZE - length aux - 1)"

definition backup_line :: "string \<Rightarrow> string \<Rightarrow> string" where
  "backup_line key val =
     backup_append (backup_append (backup_append (backup_append ''('' key) '', '') val)
       ('')'' @ [newline])"

definition backup_table :: "hash_table \<Rightarrow> int \<Rightarrow> world \<Rightarrow> world res" where
  "backup_table ht fdBck =
     for_each (for_each (\<lambda>keyNode w. bindE (node_value keyNode)
       (\<lambda>val. Inr (write_str w fdBck (backup_line (nkey keyNode) val))))) (buckets ht)"

definition kvs_backup :: "table_ptr \<Rightarrow> int \<Rightarrow> world \<Rightarrow> (int \<times> world) res" where
  "kvs_backup kvs_table fdBck w =
     bindE (deref kvs_table) (\<lambda>ht.
       bindE (backup_table ht fdBck w) (\<lambda>w1. Inr (0, snd (sys_close w1 fdBck))))"


subsection \<open>qsort keeps its contract\<close>

lemma mset_qsort_insert: "mset (qsort_insert cmp x ys) = add_mset x (mset ys)"
  by (induction ys) auto

lemma mset_qsort: "mset (qsort cmp xs) = mset xs"
  unfolding qsort_def by (induction xs) (simp_all add: mset_qsort_insert)

lemma set_qsort_insert: "set (qsort_insert cmp x ys) = insert x (set ys)"
  using mset_qsort_insert [of cmp x ys] by (metis set_mset_add_mset_insert set_mset_mset)

lemma sorted_qsort_insert:
  assumes "\<And>x y. cmp x y = strcmp (f x) (f y)" and "sorted (map f ys)"
  shows "sorted (map f (qsort_insert cmp x ys))"
  using assms(2)
proof (induction ys)
  case Nil
  then show ?case by simp
next
  case (Cons y ys)
  show ?case
  proof (cases "f x \<le> f y")
    case True
    with Cons.prems show ?thesis by (auto simp: assms(1) intro: order_trans)
  next
    case False
    then have "f y \<le> f x" by simp
    with False Cons show ?thesis by (simp add: assms(1) set_qsort_insert)
  qed
qed

lemma sorted_qsort:
  assumes "\<And>x y. cmp x y = strcmp (f x) (f y)"
  shows "sorted (map f (qsort cmp xs))"
  unfolding qsort_def
proof (induction xs)
  case Nil
  then show ?case by simp
next
  case (Cons x xs)
  from sorted_qsort_insert [OF assms Cons.IH] show ?case by simp
qed

interpretation qs: sorting qsort
  by unfold_locales (simp_all add: mset_qsort sorted_qsort)

lemma sorted_keys [simp]: "qsort compare_keys keys = sort keys"
proof -
  have "sorted (map id (qsort compare_keys keys))"
    by (rule qs.qs_sorted) (simp add: compare_keys_def)
  moreover have "mset (qsort compare_keys keys) = mset keys" by (rule qs.qs_mset)
  ultimately show ?thesis using properties_for_sort [of "qsort compare_keys keys" keys] by simp
qed

lemma sorted_pairs:
  assumes "length vals = length keys"
  shows "map fst (qsort compare_pairs (zip keys vals)) = sort keys"
proof (rule properties_for_sort [symmetric])
  show "sorted (map fst (qsort compare_pairs (zip keys vals)))"
    by (rule qs.qs_sorted) (simp add: compare_pairs_def)
  have "mset (map fst (qsort compare_pairs (zip keys vals))) = mset (map fst (zip keys vals))"
    using qs.qs_mset [of compare_pairs "zip keys vals"] by (simp add: mset_map)
  then show "mset (map fst (qsort compare_pairs (zip keys vals))) = mset keys"
    using assms by simp
qed

subsection \<open>Which locks are taken, and in which order\<close>

text \<open>The buckets of the keys, each at its first occurrence.\<close>

fun first_occs :: "'a list \<Rightarrow> 'a list" where
  "first_occs [] = []"
| "first_occs (x # xs) = x # filter (\<lambda>y. y \<noteq> x) (first_occs xs)"

definition bucket_of :: "string \<Rightarrow> nat" where
  "bucket_of key = nat (hash key)"

definition lock_order :: "string list \<Rightarrow> nat list" where
  "lock_order keys = first_occs (map bucket_of keys)"

definition touched :: "string list \<Rightarrow> nat list" where
  "touched keys = filter (\<lambda>i. i \<in> bucket_of ` set keys) [0..<TABLE_SIZE]"

lemma set_first_occs [simp]: "set (first_occs xs) = set xs"
  by (induction xs) auto

lemma distinct_first_occs [simp]: "distinct (first_occs xs)"
  by (induction xs) auto

lemma set_lock_order: "set (lock_order keys) = bucket_of ` set keys"
  by (simp add: lock_order_def)

lemma bucket_of_less: "valid_key key \<Longrightarrow> bucket_of key < TABLE_SIZE"
  by (simp add: bucket_of_def valid_key_index)

definition marked :: "int list \<Rightarrow> nat set \<Rightarrow> int list" where
  "marked indexList I = map (\<lambda>i. if i \<in> I then 1 else indexList ! i) [0..<TABLE_SIZE]"

lemma lock_list_calm:
  assumes "\<And>k. k \<in> set keys \<Longrightarrow> valid_key k" and "w_lockres w = []"
    and "length il = TABLE_SIZE"
  shows "lock_list mode keys il w =
    Inr (0, marked il {i \<in> bucket_of ` set keys. il ! i = 0},
      w\<lparr>w_locks := w_locks w @
         map (\<lambda>i. mode (Bucket i)) (filter (\<lambda>i. il ! i = 0) (lock_order keys))\<rparr>)"
  using assms
proof (induction keys arbitrary: il w)
  case Nil
  have "marked il {} = il" using Nil.prems(3) by (auto simp: marked_def intro: nth_equalityI)
  then show ?case by (simp add: lock_order_def)
next
  case (Cons k keys)
  have k: "valid_key k" "bucket_of k < TABLE_SIZE"
    using Cons.prems(1) [of k] bucket_of_less by auto
  show ?case
  proof (cases "il ! bucket_of k = 0")
    case True
    let ?il = "il[bucket_of k := 1]"
    let ?w = "w\<lparr>w_locks := w_locks w @ [mode (Bucket (bucket_of k))]\<rparr>"
    have nth: "?il ! i = (if i = bucket_of k then 1 else il ! i)" if "i < TABLE_SIZE" for i
      using that k(2) Cons.prems(3) by (simp add: nth_list_update)
    have "marked ?il {i \<in> bucket_of ` set keys. ?il ! i = 0} =
        marked il {i \<in> bucket_of ` set (k # keys). il ! i = 0}"
      using True by (auto simp: marked_def nth)
    moreover have "filter (\<lambda>i. il ! i = 0) (lock_order (k # keys)) =
        bucket_of k # filter (\<lambda>i. ?il ! i = 0) (lock_order keys)"
    proof -
      have "\<And>i. i \<in> set (lock_order keys) \<Longrightarrow> i < TABLE_SIZE"
        using Cons.prems(1) bucket_of_less by (auto simp: set_lock_order)
      then show ?thesis
        using True
        by (auto simp: lock_order_def nth conj_commute split: if_splits intro!: filter_cong)
    qed
    moreover have "lock_list mode keys ?il ?w =
      Inr (0, marked ?il {i \<in> bucket_of ` set keys. ?il ! i = 0},
        ?w\<lparr>w_locks := w_locks ?w @
          map (\<lambda>i. mode (Bucket i)) (filter (\<lambda>i. ?il ! i = 0) (lock_order keys))\<rparr>)"
      by (rule Cons.IH) (use Cons.prems in auto)
    moreover have "lock_list mode (k # keys) il w = lock_list mode keys ?il ?w"
      using True k(1) Cons.prems(2) by (simp add: bucket_of_def Let_def)
    ultimately show ?thesis by simp
  next
    case False
    have "{i \<in> bucket_of ` set (k # keys). il ! i = 0} = {i \<in> bucket_of ` set keys. il ! i = 0}"
      using False by auto
    moreover have "filter (\<lambda>i. il ! i = 0) (lock_order (k # keys)) =
        filter (\<lambda>i. il ! i = 0) (lock_order keys)"
      using False by (auto simp: lock_order_def intro!: filter_cong)
    moreover have "lock_list mode (k # keys) il w = lock_list mode keys il w"
      using False k(1) by (simp add: bucket_of_def Let_def)
    ultimately show ?thesis using Cons.IH [of w il] Cons.prems by simp
  qed
qed

lemma unlock_from_calm:
  assumes "w_lockres w = []" and "distinct is"
  shows "\<exists>il'. unlock_from is il w =
    (0, il', w\<lparr>w_locks := w_locks w @
        map (\<lambda>i. Unlock (Bucket i)) (filter (\<lambda>i. il ! i = 1) is)\<rparr>)"
  using assms
proof (induction "is" arbitrary: il w)
  case Nil
  then show ?case by simp
next
  case (Cons i js)
  have "filter (\<lambda>j. il[i := 0] ! j = 1) js = filter (\<lambda>j. il ! j = 1) js"
  proof (rule filter_cong [OF refl])
    fix j
    assume "j \<in> set js"
    then have "i \<noteq> j" using Cons.prems(2) by auto
    then show "(il[i := 0] ! j = 1) = (il ! j = 1)" by simp
  qed
  then show ?case
    using Cons.IH [of "w\<lparr>w_locks := w_locks w @ [Unlock (Bucket i)]\<rparr>" "il[i := 0]"]
      Cons.IH [of w il] Cons.prems
    by simp
qed

text \<open>What a command does to the locks: it takes them in key order and gives all of them back.\<close>

definition acquired :: "(rwlock \<Rightarrow> lock_event) \<Rightarrow> string list \<Rightarrow> lock_event list" where
  "acquired mode keys = map (\<lambda>i. mode (Bucket i)) (lock_order (sort keys))"

definition released :: "string list \<Rightarrow> lock_event list" where
  "released keys = map (\<lambda>i. Unlock (Bucket i)) (touched keys)"

lemma lock_command:
  assumes "\<And>k. k \<in> set keys \<Longrightarrow> valid_key k" and "w_lockres w = []"
  obtains il where
    "lock_list mode (sort keys) no_locks w =
       Inr (0, il, w\<lparr>w_locks := w_locks w @ acquired mode keys\<rparr>)"
    "\<And>w1. w_lockres w1 = [] \<Longrightarrow>
       \<exists>il'. unlock_list il w1 = (0, il', w1\<lparr>w_locks := w_locks w1 @ released keys\<rparr>)"
proof -
  let ?il = "marked no_locks {i \<in> bucket_of ` set (sort keys). no_locks ! i = 0}"
  have free: "no_locks ! i = 0" if "i < TABLE_SIZE" for i using that by (simp add: no_locks_def)
  then have idx: "\<And>i. i \<in> bucket_of ` set keys \<Longrightarrow> no_locks ! i = 0"
    using assms(1) bucket_of_less by auto
  have "filter (\<lambda>i. no_locks ! i = 0) (lock_order (sort keys)) = lock_order (sort keys)"
    using idx by (auto simp: filter_id_conv set_lock_order)
  then have "lock_list mode (sort keys) no_locks w =
      Inr (0, ?il, w\<lparr>w_locks := w_locks w @ acquired mode keys\<rparr>)"
    using lock_list_calm [of "sort keys" w no_locks mode] assms
    by (simp add: acquired_def no_locks_def)
  moreover have "\<exists>il'. unlock_list ?il w1 =
      (0, il', w1\<lparr>w_locks := w_locks w1 @ released keys\<rparr>)" if "w_lockres w1 = []" for w1
  proof -
    have "filter (\<lambda>i. ?il ! i = 1) [0..<TABLE_SIZE] = touched keys"
      by (auto simp: touched_def marked_def free split: if_splits intro!: filter_cong)
    then show ?thesis
      using unlock_from_calm [OF that distinct_upt, of 0 TABLE_SIZE ?il]
      by (simp add: unlock_list_def released_def)
  qed
  ultimately show thesis using that by blast
qed


subsection \<open>The commands are correct in a calm environment\<close>

lemma only_writes_locks:
  "only_writes S (w\<lparr>w_locks := ls\<rparr>) w' \<Longrightarrow>
   only_writes S (w\<lparr>w_locks := w_locks (w'\<lparr>w_locks := w_locks w' @ es\<rparr>)\<rparr>)
     (w'\<lparr>w_locks := w_locks w' @ es\<rparr>)"
  by (simp add: only_writes_def)

lemma kvs_write_run:
  assumes "sound_table ht" and "length vals = length keys"
    and "\<And>k. k \<in> set keys \<Longrightarrow> valid_key k" and "calm w"
  shows "\<exists>ht' w'. kvs_write (Table ht) keys vals w = Inr (0, Table ht', w') \<and>
    sound_table ht' \<and>
    kvs_map ht' = kvs_map ht ++ map_of (rev (qsort compare_pairs (zip keys vals))) \<and>
    targets ht' = targets ht \<and>
    w_locks w' = w_locks w @ acquired WrLock keys @ released keys \<and>
    only_writes (targets ht) (w\<lparr>w_locks := w_locks w'\<rparr>) w'"
proof -
  let ?pairs = "qsort compare_pairs (zip keys vals)"
  have res: "w_lockres w = []" using assms(4) by (simp add: calm_def)
  obtain il where il:
    "lock_list WrLock (sort keys) no_locks w =
       Inr (0, il, w\<lparr>w_locks := w_locks w @ acquired WrLock keys\<rparr>)"
    "\<And>w1. w_lockres w1 = [] \<Longrightarrow>
       \<exists>il'. unlock_list il w1 = (0, il', w1\<lparr>w_locks := w_locks w1 @ released keys\<rparr>)"
    using lock_command [OF assms(3) res] by blast
  let ?w1 = "w\<lparr>w_locks := w_locks w @ acquired WrLock keys\<rparr>"
  have c1: "calm ?w1" using assms(4) by (simp add: calm_def)
  have valid: "valid_key k" if "k \<in> fst ` set ?pairs" for k
  proof -
    have "k \<in> set (map fst ?pairs)" using that by simp
    then show ?thesis using assms(3) sorted_pairs [OF assms(2)] by simp
  qed
  obtain ht' w2 where run: "write_loop write_pair ?pairs (ht, ?w1) = Inr (ht', w2)"
    "sound_table ht'" "kvs_map ht' = kvs_map ht ++ map_of (rev ?pairs)" "targets ht' = targets ht"
    "only_writes (targets ht) ?w1 w2"
    using kvs.write_loop_spec [OF assms(1) valid c1] by blast
  then have "w_lockres w2 = []" using only_writes_calm [OF run(5) c1] by (simp add: calm_def)
  then obtain il' where "unlock_list il w2 = (0, il', w2\<lparr>w_locks := w_locks w2 @ released keys\<rparr>)"
    using il(2) by blast
  moreover have "w_locks w2 = w_locks w @ acquired WrLock keys"
    using run(5) by (simp add: only_writes_def)
  ultimately show ?thesis
    using il(1) run only_writes_locks [OF run(5), of "released keys"] sorted_pairs [OF assms(2)]
    by (simp add: kvs_write_def lock_write_list_def)
qed

lemma kvs_write_distinct:
  assumes "sound_table ht" and "length vals = length keys" and "distinct keys"
    and "\<forall>k \<in> set keys. valid_key k" and "calm w"
  shows "\<exists>ht' w'. kvs_write (Table ht) keys vals w = Inr (0, Table ht', w') \<and>
    sound_table ht' \<and> kvs_map ht' = kvs_map ht ++ map_of (zip keys vals) \<and>
    targets ht' = targets ht \<and>
    w_locks w' = w_locks w @ acquired WrLock keys @ released keys \<and>
    only_writes (targets ht) (w\<lparr>w_locks := w_locks w'\<rparr>) w'"
proof -
  let ?pairs = "qsort compare_pairs (zip keys vals)"
  have "distinct (map fst ?pairs)" using assms(3) sorted_pairs [OF assms(2)] by simp
  then have "map_of (rev ?pairs) = map_of (zip keys vals)"
    using assms(2,3) by (subst map_of_inject_set) (simp_all add: rev_map [symmetric])
  then show ?thesis
    using kvs_write_run [of ht vals keys w] assms by fastforce
qed

text \<open>
  C13: WRITE on a sound table, with distinct valid keys and no failing call, returns 0, overrides
  the abstract map by the given pairs, keeps the table sound, takes the bucket locks of its keys
  in the order of the sorted keys, gives all of them back, and writes to subscribers only.
\<close>

theorem kvs_write_correct:
  assumes "sound_table ht" and "length vals = length keys" and "distinct keys"
    and "\<forall>k \<in> set keys. valid_key k" and "calm w"
  shows "\<exists>ht' w'. kvs_write (Table ht) keys vals w = Inr (0, Table ht', w') \<and>
    sound_table ht' \<and> kvs_map ht' = kvs_map ht ++ map_of (zip keys vals) \<and>
    w_locks w' = w_locks w @ acquired WrLock keys @ released keys \<and>
    only_writes (targets ht) (w\<lparr>w_locks := w_locks w'\<rparr>) w'"
  using kvs_write_distinct [OF assms] by blast

lemma kvs_read_run:
  assumes "sound_table ht" and "\<And>k. k \<in> set keys \<Longrightarrow> valid_key k" and "calm w"
    and "healthy w fdOut"
  shows "kvs_read (Table ht) keys fdOut w =
    Inr (0, w\<lparr>w_out := (w_out w)(fdOut := w_out w fdOut @ ''['' @
               concat (map (\<lambda>k. read_line k (kvs_map ht k)) (sort keys)) @ '']'' @ [newline]),
             w_locks := w_locks w @ acquired RdLock keys @ released keys\<rparr>)"
proof -
  have res: "w_lockres w = []" using assms(3) by (simp add: calm_def)
  obtain il where il:
    "lock_list RdLock (sort keys) no_locks w =
       Inr (0, il, w\<lparr>w_locks := w_locks w @ acquired RdLock keys\<rparr>)"
    "\<And>w1. w_lockres w1 = [] \<Longrightarrow>
       \<exists>il'. unlock_list il w1 = (0, il', w1\<lparr>w_locks := w_locks w1 @ released keys\<rparr>)"
    using lock_command [OF assms(2) res] by blast
  let ?w1 = "w\<lparr>w_locks := w_locks w @ acquired RdLock keys\<rparr>"
  let ?w2 = "emit ?w1 fdOut ''[''"
  have h1: "healthy ?w1 fdOut" using assms(4) by (simp add: healthy_def)
  have c2: "calm ?w2" using assms(3) h1 by (simp add: emit_healthy calm_def)
  have h2: "healthy ?w2 fdOut" using h1 by (simp add: emit_healthy healthy_def)
  have loop: "read_loop read_pair ht fdOut (sort keys) ?w2 =
    Inr (?w2\<lparr>w_out := (w_out ?w2)(fdOut := w_out ?w2 fdOut @
           concat (map (\<lambda>k. read_line k (kvs_map ht k)) (sort keys)))\<rparr>)"
    using kvs.read_loop_spec [OF assms(1) _ c2 h2, of "sort keys"] assms(2) by simp
  let ?out = "w_out w fdOut @ ''['' @
        concat (map (\<lambda>k. read_line k (kvs_map ht k)) (sort keys)) @ '']'' @ [newline]"
  let ?w3 = "?w1\<lparr>w_out := (w_out w)(fdOut := ?out)\<rparr>"
  have "emit (?w2\<lparr>w_out := (w_out ?w2)(fdOut := w_out ?w2 fdOut @
          concat (map (\<lambda>k. read_line k (kvs_map ht k)) (sort keys)))\<rparr>) fdOut ('']'' @ [newline]) = ?w3"
    using h1 by (subst emit_healthy) (simp_all add: emit_healthy healthy_def)
  moreover obtain il' where
    "unlock_list il ?w3 = (0, il', ?w3\<lparr>w_locks := w_locks ?w3 @ released keys\<rparr>)"
    using il(2) [of ?w3] res by auto
  ultimately show ?thesis
    using il(1) loop by (simp add: kvs_read_def lock_read_list_def)
qed


lemma kvs_delete_run:
  assumes "sound_table ht" and "\<And>k. k \<in> set keys \<Longrightarrow> valid_key k" and "calm w"
    and "healthy w fdOut" and "fdOut \<notin> targets ht"
  shows "\<exists>ht' w'. kvs_delete (Table ht) keys fdOut w = Inr (0, Table ht', w') \<and>
    sound_table ht' \<and> kvs_map ht' = (\<lambda>k. if k \<in> set keys then None else kvs_map ht k) \<and>
    targets ht' \<subseteq> targets ht \<and>
    w_out w' fdOut = w_out w fdOut @
      (let missing = missing_keys (kvs_map ht) (sort keys) in
       if missing = [] then [] else ''['' @ concat (map missing_line missing) @ '']'' @ [newline]) \<and>
    w_locks w' = w_locks w @ acquired WrLock keys @ released keys \<and>
    only_writes (insert fdOut (targets ht)) (w\<lparr>w_locks := w_locks w'\<rparr>) w'"
proof -
  have res: "w_lockres w = []" using assms(3) by (simp add: calm_def)
  obtain il where il:
    "lock_list WrLock (sort keys) no_locks w =
       Inr (0, il, w\<lparr>w_locks := w_locks w @ acquired WrLock keys\<rparr>)"
    "\<And>w1. w_lockres w1 = [] \<Longrightarrow>
       \<exists>il'. unlock_list il w1 = (0, il', w1\<lparr>w_locks := w_locks w1 @ released keys\<rparr>)"
    using lock_command [OF assms(2) res] by blast
  let ?w1 = "w\<lparr>w_locks := w_locks w @ acquired WrLock keys\<rparr>"
  let ?miss = "missing_keys (kvs_map ht) (sort keys)"
  let ?S = "insert fdOut (targets ht)"
  have c1: "calm ?w1" using assms(3) by (simp add: calm_def)
  have h1: "healthy ?w1 fdOut" using assms(4) by (simp add: healthy_def)
  obtain ht' w2 where run:
    "delete_loop delete_pair fdOut (sort keys) (False, ht, ?w1) = Inr (?miss \<noteq> [], ht', w2)"
    "sound_table ht'" "kvs_map ht' = (\<lambda>k. if k \<in> set keys then None else kvs_map ht k)"
    "targets ht' \<subseteq> targets ht" "only_writes ?S ?w1 w2"
    "w_out w2 fdOut = w_out w fdOut @ (if ?miss = [] then [] else ''['') @ concat (map missing_line ?miss)"
    using kvs.delete_loop_spec [OF assms(1) _ c1 h1 assms(5), of "sort keys" False] assms(2) by auto
  let ?w3 = "if ?miss \<noteq> [] then emit w2 fdOut ('']'' @ [newline]) else w2"
  have h2: "healthy w2 fdOut" by (rule only_writes_healthy [OF run(5) h1])
  have ow3: "only_writes ?S ?w1 ?w3" using run(5) by (auto intro: only_writes_emit)
  then have "w_lockres ?w3 = []" using only_writes_calm [OF ow3 c1] by (simp add: calm_def)
  then obtain il' where u: "unlock_list il ?w3 = (0, il', ?w3\<lparr>w_locks := w_locks ?w3 @ released keys\<rparr>)"
    using il(2) by blast
  have "w_locks ?w3 = w_locks w @ acquired WrLock keys" using ow3 by (simp add: only_writes_def)
  moreover have "w_out ?w3 fdOut = w_out w fdOut @
      (if ?miss = [] then [] else ''['' @ concat (map missing_line ?miss) @ '']'' @ [newline])"
    using run(6) h2 by (simp add: emit_healthy)
  moreover have "kvs_delete (Table ht) keys fdOut w =
      Inr (0, Table ht', ?w3\<lparr>w_locks := w_locks ?w3 @ released keys\<rparr>)"
    using il(1) run(1) u by (simp add: kvs_delete_def lock_write_list_def)
  ultimately show ?thesis
    using run(2-4) only_writes_locks [OF ow3, of "released keys"] by (auto simp: Let_def)
qed

text \<open>
  C14: READ prints, between brackets and in the order of the sorted keys, the value of each key in
  the abstract map or KVSERROR, and changes nothing else but the trace of lock calls.
\<close>

theorem kvs_read_correct:
  assumes "sound_table ht" and "\<forall>k \<in> set keys. valid_key k" and "calm w" and "healthy w fdOut"
  shows "kvs_read (Table ht) keys fdOut w =
    Inr (0, w\<lparr>w_out := (w_out w)(fdOut := w_out w fdOut @ ''['' @
               concat (map (\<lambda>k. read_line k (kvs_map ht k)) (sort keys)) @ '']'' @ [newline]),
             w_locks := w_locks w @ acquired RdLock keys @ released keys\<rparr>)"
  using assms by (intro kvs_read_run) auto

text \<open>
  C15: DELETE removes exactly the given keys from the abstract map and prints one KVSMISSING line
  per key that was not there when its turn came (a key given twice is missing the second time),
  nothing when all were there.
\<close>

theorem kvs_delete_correct:
  assumes "sound_table ht" and "\<forall>k \<in> set keys. valid_key k" and "calm w" and "healthy w fdOut"
    and "fdOut \<notin> targets ht"
  shows "\<exists>ht' w'. kvs_delete (Table ht) keys fdOut w = Inr (0, Table ht', w') \<and>
    sound_table ht' \<and> kvs_map ht' = (\<lambda>k. if k \<in> set keys then None else kvs_map ht k) \<and>
    w_out w' fdOut = w_out w fdOut @
      (let missing = missing_keys (kvs_map ht) (sort keys) in
       if missing = [] then [] else ''['' @ concat (map missing_line missing) @ '']'' @ [newline]) \<and>
    w_locks w' = w_locks w @ acquired WrLock keys @ released keys \<and>
    only_writes (insert fdOut (targets ht)) (w\<lparr>w_locks := w_locks w'\<rparr>) w'"
  using kvs_delete_run [OF assms(1) _ assms(3-5), of keys] assms(2) by blast

subsection \<open>SHOW and BACKUP print every pair\<close>

lemma for_each_concat: "for_each (for_each f) xss s = for_each f (concat xss) s"
proof (induction xss arbitrary: s)
  case Nil
  then show ?case by simp
next
  case (Cons xs xss)
  then show ?case by (cases "for_each f xs s") (simp_all add: for_each_append)
qed

lemma print_nodes:
  assumes "\<And>n. n \<in> set nodes \<Longrightarrow> nvalue n \<noteq> None"
    and "healthy w fd"
    and "\<And>w text. healthy w fd \<Longrightarrow> text \<noteq> [] \<Longrightarrow>
           put w text = w\<lparr>w_out := (w_out w)(fd := w_out w fd @ text)\<rparr>"
    and "\<And>k v. line k v \<noteq> []"
  shows "for_each (\<lambda>n w. bindE (node_value n) (\<lambda>val. Inr (put w (line (nkey n) val)))) nodes w =
    Inr (w\<lparr>w_out := (w_out w)(fd := w_out w fd @
           concat (map (\<lambda>n. line (nkey n) (the (nvalue n))) nodes))\<rparr>)"
  using assms(1,2)
proof (induction nodes arbitrary: w)
  case Nil
  then show ?case by simp
next
  case (Cons n nodes)
  obtain v where v: "nvalue n = Some v" using Cons.prems(1) [of n] by auto
  let ?w1 = "w\<lparr>w_out := (w_out w)(fd := w_out w fd @ line (nkey n) v)\<rparr>"
  have "put w (line (nkey n) v) = ?w1" using assms(3,4) Cons.prems(2) by blast
  moreover have "healthy ?w1 fd" using Cons.prems(2) by (simp add: healthy_def)
  ultimately show ?case
    using Cons.IH [of ?w1] Cons.prems(1) v by (simp add: node_value_def fun_upd_def cong: if_cong)
qed

lemma show_line_nonempty: "show_line k v \<noteq> []"
  by (simp add: show_line_def snprintf_def MAX_WRITE_SIZE_def)

lemma lock_calls_calm:
  "w_lockres w = [] \<Longrightarrow> lock_calls evs w = (0, w\<lparr>w_locks := w_locks w @ evs\<rparr>)"
  by (induction evs arbitrary: w) simp_all

text \<open>
  SHOW prints one line per node in the order of buckets and links, and takes and releases the read
  lock of every bucket in index order.
\<close>

theorem kvs_show_correct:
  assumes "no_null ht" and "calm w" and "healthy w fdOut"
  shows "kvs_show (Table ht) fdOut w =
    Inr (0, w\<lparr>w_out := (w_out w)(fdOut := w_out w fdOut @
               concat (map (\<lambda>n. show_line (nkey n) (the (nvalue n))) (all_nodes ht))),
             w_locks := w_locks w @ map (\<lambda>i. RdLock (Bucket i)) [0..<TABLE_SIZE] @
               map (\<lambda>i. Unlock (Bucket i)) [0..<TABLE_SIZE]\<rparr>)"
proof -
  let ?w1 = "w\<lparr>w_locks := w_locks w @ map (\<lambda>i. RdLock (Bucket i)) [0..<TABLE_SIZE]\<rparr>"
  have r: "w_lockres w = []" using assms(2) by (simp add: calm_def)
  have "show_table ht fdOut ?w1 = Inr (?w1\<lparr>w_out := (w_out ?w1)(fdOut := w_out ?w1 fdOut @
      concat (map (\<lambda>n. show_line (nkey n) (the (nvalue n))) (all_nodes ht)))\<rparr>)"
    unfolding show_table_def for_each_concat all_nodes_def [symmetric]
    using assms
    by (intro print_nodes) (auto simp: no_null_def emit_healthy healthy_def show_line_nonempty)
  then show ?thesis using r by (simp add: kvs_show_def deref_def lock_calls_calm)
qed

lemma backup_append_take: "length aux \<le> 39 \<Longrightarrow> backup_append aux src = take 39 (aux @ src)"
  by (simp add: backup_append_def strn_memcpy_def MAX_STRING_SIZE_def)

lemma take_take_append: "take n (take n xs @ ys) = take n (xs @ ys)"
  by (cases "n \<le> length xs") simp_all

text \<open>
  A line of a backup is the text of the pair cut after 39 characters, so pairs with a long key and
  value lose their end and the line break.
\<close>

theorem backup_line_truncates:
  "backup_line key val = take 39 (''('' @ key @ '', '' @ val @ '')'' @ [newline])"
  unfolding backup_line_def
  by (simp only: backup_append_take take_take_append append_assoc length_take list.size One_nat_def
      min.cobounded1 min.bounded_iff le_numeral_extra length_append)


lemma backup_line_nonempty: "backup_line k v \<noteq> []"
  by (simp add: backup_line_def backup_append_def)

lemma kvs_backup_run:
  assumes "no_null ht" and "healthy w fdBck"
  shows "kvs_backup (Table ht) fdBck w =
    Inr (0, w\<lparr>w_out := (w_out w)(fdBck := w_out w fdBck @
               concat (map (\<lambda>n. backup_line (nkey n) (the (nvalue n))) (all_nodes ht))),
             w_open := removeAll fdBck (w_open w)\<rparr>)"
proof -
  have "backup_table ht fdBck w = Inr (w\<lparr>w_out := (w_out w)(fdBck := w_out w fdBck @
      concat (map (\<lambda>n. backup_line (nkey n) (the (nvalue n))) (all_nodes ht)))\<rparr>)"
    unfolding backup_table_def for_each_concat all_nodes_def [symmetric]
    using assms
    by (intro print_nodes) (auto simp: no_null_def write_str_healthy backup_line_nonempty)
  then show ?thesis
    using assms(2) by (simp add: kvs_backup_def deref_def sys_close_def healthy_def)
qed

text \<open>
  A backup writes one line per node to its file in the order of buckets and links, closes the file
  and returns 0.
\<close>

theorem kvs_backup_correct:
  assumes "no_null ht" and "healthy w fdBck"
  shows "kvs_backup (Table ht) fdBck w =
    Inr (0, w\<lparr>w_out := (w_out w)(fdBck := w_out w fdBck @
               concat (map (\<lambda>n. backup_line (nkey n) (the (nvalue n))) (all_nodes ht))),
             w_open := removeAll fdBck (w_open w)\<rparr>)"
  using assms by (rule kvs_backup_run)

subsection \<open>Instances\<close>

theorem kvs_write_correct_witness:
  "\<exists>ht' w'. kvs_write (Table sample_table) [''c'', ''b''] [''3'', ''2''] quiet_world =
      Inr (0, Table ht', w') \<and> sound_table ht' \<and>
    kvs_map ht' ''b'' = Some ''2'' \<and> kvs_map ht' ''c'' = Some ''3'' \<and> kvs_map ht' ''a'' = Some ''1''"
proof -
  have "\<exists>ht' w'. kvs_write (Table sample_table) [''c'', ''b''] [''3'', ''2''] quiet_world =
      Inr (0, Table ht', w') \<and> sound_table ht' \<and>
      kvs_map ht' = kvs_map sample_table ++ map_of (zip [''c'', ''b''] [''3'', ''2'']) \<and>
      w_locks w' = w_locks quiet_world @ acquired WrLock [''c'', ''b''] @ released [''c'', ''b''] \<and>
      only_writes (targets sample_table) (quiet_world\<lparr>w_locks := w_locks w'\<rparr>) w'"
    by (rule kvs_write_correct) simp_all
  then obtain ht' w' where run: "kvs_write (Table sample_table) [''c'', ''b''] [''3'', ''2''] quiet_world =
      Inr (0, Table ht', w')" "sound_table ht'"
    "kvs_map ht' = kvs_map sample_table ++ map_of (zip [''c'', ''b''] [''3'', ''2''])" by blast
  then show ?thesis
    by (intro exI [of _ ht'] exI [of _ w']) (simp add: run(3))
qed

theorem kvs_read_correct_witness:
  "kvs_read (Table sample_table) [''b'', ''a''] 1 quiet_world =
    Inr (0, quiet_world\<lparr>w_out := (\<lambda>_. [])(1 := ''[(a,1)(b,KVSERROR)]'' @ [newline]),
      w_locks := [RdLock (Bucket 0), RdLock (Bucket 1), Unlock (Bucket 0), Unlock (Bucket 1)]\<rparr>)"
proof -
  have "acquired RdLock [''b'', ''a''] @ released [''b'', ''a''] =
      [RdLock (Bucket 0), RdLock (Bucket 1), Unlock (Bucket 0), Unlock (Bucket 1)]" by code_simp
  moreover have "sort [''b'', ''a''] = [''a'', ''b'']" by code_simp
  ultimately show ?thesis
    using kvs_read_correct [of sample_table "[''b'', ''a'']" quiet_world 1]
    by (simp add: read_line_def snprintf_def)
qed

theorem kvs_delete_correct_witness:
  "\<exists>ht' w'. kvs_delete (Table sample_table) [''a'', ''b''] 1 quiet_world = Inr (0, Table ht', w') \<and>
    kvs_map ht' ''a'' = None \<and> w_out w' 1 = ''[(b,KVSMISSING)]'' @ [newline]"
proof -
  have s: "sort [''a'', ''b''] = [''a'', ''b'']" by code_simp
  from kvs_delete_correct [of sample_table "[''a'', ''b'']" quiet_world 1]
  obtain ht' w' where run: "kvs_delete (Table sample_table) [''a'', ''b''] 1 quiet_world =
      Inr (0, Table ht', w')"
    "kvs_map ht' = (\<lambda>k. if k \<in> set [''a'', ''b''] then None else kvs_map sample_table k)"
    "w_out w' 1 = (let missing = missing_keys (kvs_map sample_table) [''a'', ''b''] in
       if missing = [] then [] else ''['' @ concat (map missing_line missing) @ '']'' @ [newline])"
    by (auto simp: s)
  then show ?thesis
    by (intro exI [of _ ht'] exI [of _ w']) (simp add: run(2,3) missing_line_def snprintf_def)
qed

theorem kvs_show_correct_witness:
  "\<exists>w'. kvs_show (Table sample_table) 1 quiet_world = Inr (0, w') \<and>
    w_out w' 1 = ''(a, 1)'' @ [newline]"
  using kvs_show_correct [of sample_table quiet_world 1]
  by (simp add: all_nodes_sample show_line_def snprintf_def MAX_WRITE_SIZE_def)

theorem kvs_backup_correct_witness:
  "\<exists>w'. kvs_backup (Table sample_table) 1 quiet_world = Inr (0, w') \<and>
    w_out w' 1 = ''(a, 1)'' @ [newline] \<and> w_open w' = [0, 2]"
  using kvs_backup_correct [of sample_table quiet_world 1]
  by (simp add: all_nodes_sample backup_line_def backup_append_def strn_memcpy_def
      MAX_STRING_SIZE_def)

end
