(* ===== verification/Locks.thy ===== *)
theory Locks
  imports Operations
begin

section \<open>Concurrent commands and the bucket locks\<close>

text \<open>
  Several job threads run commands on one table. What they do to each other is decided by the
  read-write locks of the buckets. A thread that runs a command is described by the lock requests
  it has still to make (in the order of \<open>lock_write_list\<close> or \<open>lock_read_list\<close>) and the locks it
  holds; it releases all of them when its requests are done (\<open>unlock_list\<close>). A request is granted
  when no other thread holds the bucket, or when all its holders and the request are readers.
\<close>

record thread =
  todo :: "(bool \<times> nat) list" \<comment> \<open>(is a write lock, bucket)\<close>
  held :: "(bool \<times> nat) list"

text \<open>The requests of a trace of lock calls.\<close>

fun request :: "lock_event \<Rightarrow> (bool \<times> nat) list" where
  "request (RdLock (Bucket i)) = [(False, i)]"
| "request (WrLock (Bucket i)) = [(True, i)]"
| "request _ = []"

definition requests :: "lock_event list \<Rightarrow> (bool \<times> nat) list" where
  "requests evs = concat (map request evs)"

definition start_thread :: "lock_event list \<Rightarrow> thread" where
  "start_thread evs = \<lparr>todo = requests evs, held = []\<rparr>"

definition grantable :: "thread list \<Rightarrow> nat \<Rightarrow> bool \<times> nat \<Rightarrow> bool" where
  "grantable ts i req \<longleftrightarrow>
     (\<forall>j < length ts. j \<noteq> i \<longrightarrow>
        (\<forall>(m, b) \<in> set (held (ts ! j)). b = snd req \<longrightarrow> \<not> m \<and> \<not> fst req))"

inductive lock_step :: "thread list \<Rightarrow> thread list \<Rightarrow> bool" where
  acquire: "i < length ts \<Longrightarrow> todo (ts ! i) = req # rest \<Longrightarrow> grantable ts i req \<Longrightarrow>
    lock_step ts (ts[i := (ts ! i)\<lparr>todo := rest, held := req # held (ts ! i)\<rparr>])"
| release: "i < length ts \<Longrightarrow> todo (ts ! i) = [] \<Longrightarrow> held (ts ! i) \<noteq> [] \<Longrightarrow>
    lock_step ts (ts[i := (ts ! i)\<lparr>held := []\<rparr>])"

inductive_cases lock_stepE: "lock_step ts ts'"

definition finished :: "thread list \<Rightarrow> bool" where
  "finished ts \<longleftrightarrow> (\<forall>t \<in> set ts. todo t = [] \<and> held t = [])"

definition deadlocked :: "thread list \<Rightarrow> bool" where
  "deadlocked ts \<longleftrightarrow> \<not> finished ts \<and> (\<forall>ts'. \<not> lock_step ts ts')"

subsection \<open>Mutual exclusion\<close>

definition exclusive :: "thread list \<Rightarrow> bool" where
  "exclusive ts \<longleftrightarrow>
     (\<forall>i < length ts. \<forall>j < length ts. i \<noteq> j \<longrightarrow>
        (\<forall>b. (True, b) \<in> set (held (ts ! i)) \<longrightarrow> (\<forall>m. (m, b) \<notin> set (held (ts ! j)))))"

lemma nth_list_update_if:
  "i < length xs \<Longrightarrow> xs[i := x] ! j = (if j = i then x else xs ! j)"
  by (cases "j = i") simp_all

lemma lock_step_exclusive:
  assumes "lock_step ts ts'" and "exclusive ts"
  shows "exclusive ts'"
  using assms
proof (induction rule: lock_step.induct)
  case (acquire i ts req rest)
  let ?ts' = "ts[i := (ts ! i)\<lparr>todo := rest, held := req # held (ts ! i)\<rparr>]"
  have held': "held (?ts' ! j) = (if j = i then req # held (ts ! i) else held (ts ! j))" for j
    using acquire.hyps(1) by (simp add: nth_list_update_if)
  have new: "b \<noteq> snd req \<or> \<not> m \<and> \<not> fst req"
    if "j < length ts" "j \<noteq> i" "(m, b) \<in> set (held (ts ! j))" for j m b
    using acquire.hyps(3) that unfolding grantable_def by fastforce
  have "(m, b) \<notin> set (held (?ts' ! k))"
    if jk: "j < length ts" "k < length ts" "j \<noteq> k" and w: "(True, b) \<in> set (held (?ts' ! j))"
    for j k b m
  proof
    assume m: "(m, b) \<in> set (held (?ts' ! k))"
    have old: "(True, b) \<in> set (held (ts ! j)) \<Longrightarrow> (m, b) \<notin> set (held (ts ! k))"
      using acquire.prems jk unfolding exclusive_def by blast
    show False
    proof (cases "j = i")
      case True
      then have "(m, b) \<in> set (held (ts ! k))" using m jk(3) by (simp add: held')
      then show False using new [of k m b] old w jk True by (auto simp: held')
    next
      case False
      then have "(True, b) \<in> set (held (ts ! j))" using w by (simp add: held')
      then show False using new [of j True b] old m jk False by (cases "k = i") (auto simp: held')
    qed
  qed
  then show ?case unfolding exclusive_def length_list_update by blast
next
  case (release i ts)
  let ?ts' = "ts[i := (ts ! i)\<lparr>held := []\<rparr>]"
  have held': "set (held (?ts' ! j)) \<subseteq> set (held (ts ! j))" for j
    using release.hyps(1) by (simp add: nth_list_update_if)
  show ?case
    using release.prems held' unfolding exclusive_def length_list_update by blast
qed

lemma steps_exclusive: "lock_step\<^sup>*\<^sup>* ts ts' \<Longrightarrow> exclusive ts \<Longrightarrow> exclusive ts'"
  by (induction rule: rtranclp_induct) (auto intro: lock_step_exclusive)

subsection \<open>Every run ends\<close>

definition work :: "thread \<Rightarrow> nat" where
  "work t = 2 * length (todo t) + length (held t)"

lemma lock_step_work:
  assumes "lock_step ts ts'"
  shows "sum_list (map work ts') < sum_list (map work ts)"
proof -
  have upd: "sum_list (map work (ts[i := t])) < sum_list (map work ts)"
    if "i < length ts" "work t < work (ts ! i)" for i t and ts :: "thread list"
    using that
  proof (induction ts arbitrary: i)
    case Nil
    then show ?case by simp
  next
    case (Cons s ts)
    then show ?case by (cases i) auto
  qed
  show ?thesis
    using assms by cases (auto intro!: upd simp: work_def)
qed

lemma steps_end: "\<exists>ts'. lock_step\<^sup>*\<^sup>* ts ts' \<and> (\<forall>u. \<not> lock_step ts' u)"
proof (induction "sum_list (map work ts)" arbitrary: ts rule: less_induct)
  case less
  show ?case
  proof (cases "\<exists>u. lock_step ts u")
    case True
    then obtain u where u: "lock_step ts u" by blast
    from less [OF lock_step_work [OF u]] u show ?thesis
      by (meson converse_rtranclp_into_rtranclp)
  next
    case False
    then show ?thesis by blast
  qed
qed

subsection \<open>Requests in increasing order\<close>

text \<open>
  The classical condition: each thread asks for its buckets in increasing order, above those it
  holds. The thread that waits for the greatest bucket can always go on.
\<close>

definition ordered :: "thread \<Rightarrow> bool" where
  "ordered t \<longleftrightarrow> sorted_wrt (<) (map snd (todo t)) \<and>
     (\<forall>h \<in> set (held t). \<forall>r \<in> set (todo t). snd h < snd r)"

lemma lock_step_ordered:
  assumes "lock_step ts ts'" and "\<forall>t \<in> set ts. ordered t"
  shows "\<forall>t \<in> set ts'. ordered t"
  using assms
proof (induction rule: lock_step.induct)
  case (acquire i ts req rest)
  have "ordered (ts ! i)" using acquire by simp
  then have "ordered ((ts ! i)\<lparr>todo := rest, held := req # held (ts ! i)\<rparr>)"
    using acquire.hyps(2) by (auto simp: ordered_def)
  then show ?case using acquire.prems by (auto dest!: set_update_subset_insert [THEN subsetD])
next
  case (release i ts)
  have "ordered (ts ! i)" using release by simp
  then have "ordered ((ts ! i)\<lparr>held := []\<rparr>)" by (simp add: ordered_def)
  then show ?case using release.prems by (auto dest!: set_update_subset_insert [THEN subsetD])
qed

lemma steps_ordered:
  "lock_step\<^sup>*\<^sup>* ts ts' \<Longrightarrow> \<forall>t \<in> set ts. ordered t \<Longrightarrow> \<forall>t \<in> set ts'. ordered t"
  by (induction rule: rtranclp_induct) (auto dest: lock_step_ordered)

lemma ordered_progress:
  assumes "\<forall>t \<in> set ts. ordered t" and "\<not> finished ts"
  shows "\<exists>ts'. lock_step ts ts'"
proof (cases "\<exists>i < length ts. todo (ts ! i) = [] \<and> held (ts ! i) \<noteq> []")
  case True
  then show ?thesis by (blast intro: lock_step.release)
next
  case idle: False
  let ?waiting = "{i. i < length ts \<and> todo (ts ! i) \<noteq> []}"
  let ?next = "\<lambda>i. snd (hd (todo (ts ! i)))"
  obtain i0 where "i0 < length ts" "todo (ts ! i0) \<noteq> [] \<or> held (ts ! i0) \<noteq> []"
    using assms(2) by (auto simp: finished_def in_set_conv_nth)
  then have "i0 \<in> ?waiting" using idle by blast
  then have "Max (?next ` ?waiting) \<in> ?next ` ?waiting" by (intro Max_in) auto
  then obtain i where i: "i \<in> ?waiting" "?next i = Max (?next ` ?waiting)" by auto
  then have max: "?next j \<le> ?next i" if "j \<in> ?waiting" for j using that by simp
  obtain req rest where req: "todo (ts ! i) = req # rest"
    using i(1) by (auto simp: neq_Nil_conv)
  have "grantable ts i req"
    unfolding grantable_def
  proof (intro allI impI ballI)
    fix j h
    assume j: "j < length ts" "j \<noteq> i" and h: "h \<in> set (held (ts ! j))"
    have "todo (ts ! j) \<noteq> []" using idle j(1) h by force
    then have w: "j \<in> ?waiting" and hd: "hd (todo (ts ! j)) \<in> set (todo (ts ! j))" using j(1) by auto
    have "ordered (ts ! j)" using assms(1) j(1) by simp
    then have "snd h < ?next j" using h hd unfolding ordered_def by blast
    also have "\<dots> \<le> ?next i" using max [OF w] .
    finally show "case h of (m, b) \<Rightarrow> b = snd req \<longrightarrow> \<not> m \<and> \<not> fst req"
      using req by auto
  qed
  then show ?thesis using i(1) req by (blast intro: lock_step.acquire)
qed


subsection \<open>The commands and their requests\<close>

datatype table_op =
  WriteOp "string list" | ReadOp "string list" | DeleteOp "string list" | ShowOp

fun op_keys :: "table_op \<Rightarrow> string list" where
  "op_keys (WriteOp keys) = keys"
| "op_keys (ReadOp keys) = keys"
| "op_keys (DeleteOp keys) = keys"
| "op_keys ShowOp = []"

text \<open>The lock calls of a command up to its unlocking, as proved of the operations.\<close>

fun op_locks :: "table_op \<Rightarrow> lock_event list" where
  "op_locks (WriteOp keys) = acquired WrLock keys"
| "op_locks (ReadOp keys) = acquired RdLock keys"
| "op_locks (DeleteOp keys) = acquired WrLock keys"
| "op_locks ShowOp = map (\<lambda>i. RdLock (Bucket i)) [0..<TABLE_SIZE]"

definition start_system :: "table_op list \<Rightarrow> thread list" where
  "start_system ops = map (\<lambda>op. start_thread (op_locks op)) ops"

definition lowercase_key :: "string \<Rightarrow> bool" where
  "lowercase_key key \<longleftrightarrow> key \<noteq> [] \<and> CHR ''a'' \<le> hd key \<and> hd key \<le> CHR ''z''"

lemma bucket_of_lowercase:
  assumes "lowercase_key k"
  shows "bucket_of k = nat (of_char (hd k) - of_char CHR ''a'')"
proof -
  obtain c cs where k: "k = c # cs" using assms by (auto simp: lowercase_key_def neq_Nil_conv)
  have "of_char CHR ''a'' \<le> (of_char c :: int)" "(of_char c :: int) \<le> of_char CHR ''z''"
    using assms k by (simp_all add: lowercase_key_def char_le_iff)
  then show ?thesis
    using k by (simp add: bucket_of_def hash_def tolower_def char_at_def)
qed


lemma bucket_of_mono:
  assumes "lowercase_key k" and "lowercase_key k'" and "k \<le> k'"
  shows "bucket_of k \<le> bucket_of k'"
proof -
  have "hd k \<le> hd k'"
    using assms by (cases k; cases k') (auto simp: lowercase_key_def Cons_le_Cons)
  then show ?thesis
    by (simp add: bucket_of_lowercase assms(1,2) char_le_iff)
qed

lemma first_occs_increasing:
  assumes "sorted xs"
  shows "sorted_wrt (<) (first_occs xs)"
  using assms
proof (induction xs)
  case Nil
  then show ?case by simp
next
  case (Cons x xs)
  then have "sorted_wrt (<) (filter (\<lambda>y. y \<noteq> x) (first_occs xs))" by (simp add: sorted_wrt_filter)
  moreover have "x < y" if "y \<in> set (filter (\<lambda>y. y \<noteq> x) (first_occs xs))" for y
    using that Cons.prems by (auto simp: less_le)
  ultimately show ?case by simp
qed

lemma lock_order_increasing:
  assumes "\<forall>k \<in> set keys. lowercase_key k"
  shows "sorted_wrt (<) (lock_order (sort keys))"
proof -
  have "sorted_wrt (\<lambda>k k'. bucket_of k \<le> bucket_of k') (sort keys)"
    by (rule sorted_wrt_mono_rel [of "sort keys" "(\<le>)"]) (use assms bucket_of_mono in auto)
  then show ?thesis
    unfolding lock_order_def by (intro first_occs_increasing) (simp add: sorted_wrt_map)
qed

lemma requests_map:
  "requests (map (\<lambda>i. WrLock (Bucket i)) is) = map (\<lambda>i. (True, i)) is"
  "requests (map (\<lambda>i. RdLock (Bucket i)) is) = map (\<lambda>i. (False, i)) is"
  by (induction "is") (simp_all add: requests_def)

lemma ordered_command:
  assumes "\<forall>k \<in> set (op_keys c). lowercase_key k"
  shows "ordered (start_thread (op_locks c))"
proof (cases c)
  case ShowOp
  then show ?thesis by (simp add: ordered_def start_thread_def requests_map comp_def)
qed (use assms lock_order_increasing in
    \<open>simp_all add: ordered_def start_thread_def acquired_def requests_map comp_def\<close>)

lemma exclusive_start: "exclusive (start_system ops)"
  by (simp add: exclusive_def start_system_def start_thread_def)

text \<open>
  Any number of concurrent commands whose keys start with a lower case letter never deadlock: from
  every reachable state of the bucket locks all of them can finish, and a bucket locked for
  writing is locked by nobody else.
\<close>

theorem lowercase_commands_finish:
  assumes "\<forall>c \<in> set ops. \<forall>k \<in> set (op_keys c). lowercase_key k"
    and "lock_step\<^sup>*\<^sup>* (start_system ops) ts"
  shows "\<not> deadlocked ts \<and> exclusive ts \<and> (\<exists>ts'. lock_step\<^sup>*\<^sup>* ts ts' \<and> finished ts')"
proof -
  have "\<forall>t \<in> set (start_system ops). ordered t"
    using assms(1) ordered_command by (auto simp: start_system_def)
  from steps_ordered [OF assms(2) this] have ord: "\<forall>t \<in> set ts. ordered t" .
  obtain ts' where ts': "lock_step\<^sup>*\<^sup>* ts ts'" "\<forall>u. \<not> lock_step ts' u" using steps_end by blast
  have "finished ts'" using ordered_progress steps_ordered [OF ts'(1) ord] ts'(2) by blast
  moreover have "\<not> deadlocked ts" using ordered_progress [OF ord] by (auto simp: deadlocked_def)
  ultimately show ?thesis
    using ts'(1) steps_exclusive [OF assms(2) exclusive_start] by blast
qed

text \<open>
  C34: Two concurrent WRITE commands, one with the keys 1x and ax, the other with ax and bx, can
  reach a deadlock: buckets are locked in the order of the keys, and 1x falls into the bucket of
  bx.
\<close>

theorem mixed_keys_deadlock:
  "\<exists>ts. lock_step\<^sup>*\<^sup>* (start_system [WriteOp [''1x'', ''ax''], WriteOp [''ax'', ''bx'']]) ts \<and>
     deadlocked ts"
proof -
  let ?s0 = "start_system [WriteOp [''1x'', ''ax''], WriteOp [''ax'', ''bx'']]"
  let ?s1 = "[\<lparr>todo = [(True, 0)], held = [(True, 1)]\<rparr>, \<lparr>todo = [(True, 0), (True, 1)], held = []\<rparr>]"
  let ?s2 = "[\<lparr>todo = [(True, 0)], held = [(True, 1)]\<rparr>, \<lparr>todo = [(True, 1)], held = [(True, 0)]\<rparr>]"
  have s0: "?s0 = [\<lparr>todo = [(True, 1), (True, 0)], held = []\<rparr>,
      \<lparr>todo = [(True, 0), (True, 1)], held = []\<rparr>]" by code_simp
  have 1: "lock_step ?s0 ?s1"
    unfolding s0
    using lock_step.acquire [of 0 "[\<lparr>todo = [(True, 1), (True, 0)], held = []\<rparr>,
      \<lparr>todo = [(True, 0), (True, 1)], held = []\<rparr>]" "(True, 1)" "[(True, 0)]"]
    by (auto simp: grantable_def less_Suc_eq)
  have 2: "lock_step ?s1 ?s2"
    using lock_step.acquire [of 1 ?s1 "(True, 0)" "[(True, 1)]"]
    by (auto simp: grantable_def less_Suc_eq)
  have "\<not> lock_step ?s2 u" for u
    by (auto elim!: lock_stepE simp: grantable_def less_Suc_eq)
  then have "deadlocked ?s2" by (simp add: deadlocked_def finished_def)
  then show ?thesis using 1 2 by (meson converse_rtranclp_into_rtranclp r_into_rtranclp)
qed
theorem lowercase_commands_finish_witness:
  "\<not> deadlocked (start_system [WriteOp [''b'', ''a''], ReadOp [''a'', ''b''], ShowOp]) \<and>
   (\<exists>ts'. lock_step\<^sup>*\<^sup>* (start_system [WriteOp [''b'', ''a''], ReadOp [''a'', ''b''], ShowOp]) ts' \<and>
     finished ts')"
  using lowercase_commands_finish [of "[WriteOp [''b'', ''a''], ReadOp [''a'', ''b''], ShowOp]"
      "start_system [WriteOp [''b'', ''a''], ReadOp [''a'', ''b''], ShowOp]"]
  by (simp add: lowercase_key_def)

end
