(* ===== verification/LockTrace.thy ===== *)
theory LockTrace
  imports Operations
begin

section \<open>The lock calls of a thread, one after another\<close>

text \<open>
  A lock call of the model never waits. What a thread would wait for is read off the trace of its
  calls: \<open>lock_replay\<close> follows the locks the thread holds, and gives \<open>None\<close> when it asks for one that
  it holds already, since such a call never returns. The lemmas show that, when no lock call fails,
  every operation on the table asks for buckets it does not hold and gives all of them back,
  whatever allocations and writes fail and whatever the keys are.
\<close>

fun lock_replay :: "rwlock list \<Rightarrow> lock_event list \<Rightarrow> rwlock list option" where
  "lock_replay locks [] = Some locks"
| "lock_replay locks (RdLock l # evs) = (if l \<in> set locks then None else lock_replay (l # locks) evs)"
| "lock_replay locks (WrLock l # evs) = (if l \<in> set locks then None else lock_replay (l # locks) evs)"
| "lock_replay locks (Unlock l # evs) = lock_replay (removeAll l locks) evs"

lemma lock_replay_append:
  "lock_replay locks (xs @ ys) = Option.bind (lock_replay locks xs) (\<lambda>ls. lock_replay ls ys)"
  by (induction locks xs rule: lock_replay.induct) simp_all

lemma lock_replay_prefix: "lock_replay locks (xs @ ys) \<noteq> None \<Longrightarrow> lock_replay locks xs \<noteq> None"
  by (cases "lock_replay locks xs") (simp_all add: lock_replay_append)

lemma replay_acquire:
  assumes "mode = RdLock \<or> mode = WrLock" and "distinct is" and "Bucket ` set is \<inter> set locks = {}"
  shows "lock_replay locks (map (\<lambda>i. mode (Bucket i)) is) = Some (rev (map Bucket is) @ locks)"
  using assms(2,3)
proof (induction "is" arbitrary: locks)
  case Nil
  then show ?case by simp
next
  case (Cons i js)
  have "lock_replay (Bucket i # locks) (map (\<lambda>i. mode (Bucket i)) js) = Some (rev (map Bucket js) @ Bucket i # locks)"
    by (rule Cons.IH) (use Cons.prems in auto)
  then show ?case using assms(1) Cons.prems by auto
qed

lemma replay_release:
  "lock_replay locks (map (\<lambda>i. Unlock (Bucket i)) is) = Some (filter (\<lambda>l. l \<notin> Bucket ` set is) locks)"
proof (induction "is" arbitrary: locks)
  case Nil
  then show ?case by simp
next
  case (Cons i js)
  then show ?case
    by (auto simp: removeAll_filter_not_eq intro!: filter_cong)
qed

text \<open>Buckets that are taken and given back by a thread that holds the global lock.\<close>

lemma replay_buckets:
  assumes "mode = RdLock \<or> mode = WrLock" and "distinct is" and "set js = set is"
  shows "lock_replay [GlobalHashLock] (map (\<lambda>i. mode (Bucket i)) is @ map (\<lambda>i. Unlock (Bucket i)) js) =
    Some [GlobalHashLock]"
proof -
  have "filter (\<lambda>l. l \<notin> Bucket ` set js) (rev (map Bucket is) @ [GlobalHashLock]) = [GlobalHashLock]"
    using assms(3) by (auto simp: filter_empty_conv)
  then show ?thesis
    using assms(1,2) by (simp add: lock_replay_append replay_acquire replay_release image_iff disjoint_iff)
qed

subsection \<open>The work between the lock calls\<close>

definition same_locks :: "world \<Rightarrow> world \<Rightarrow> bool" where
  "same_locks w w' \<longleftrightarrow> w_locks w' = w_locks w \<and> w_lockres w' = w_lockres w"

lemma same_locks_refl [simp]: "same_locks w w"
  by (simp add: same_locks_def)

lemma same_locks_trans [trans]: "same_locks w w1 \<Longrightarrow> same_locks w1 w2 \<Longrightarrow> same_locks w w2"
  by (simp add: same_locks_def)

lemma only_writes_same_locks: "only_writes S w w' \<Longrightarrow> same_locks w w'"
  by (simp add: only_writes_def same_locks_def)

lemma same_locks_emit: "same_locks w (emit w fd s)"
  by (rule only_writes_same_locks [OF emit_only_writes])

lemma same_locks_alloc: "alloc w = (b, w') \<Longrightarrow> same_locks w w'"
  by (rule only_writes_same_locks [OF only_writes_alloc])

lemma write_pair_locks:
  assumes "write_pair ht k v w = Inr (r, ht', w')"
  shows "same_locks w w'"
proof (cases "write_existing (buckets ht ! nat (hash k)) k v w")
  case None
  obtain b1 w1 where 1: "alloc w = (b1, w1)" by fastforce
  obtain b2 w2 where 2: "alloc w1 = (b2, w2)" by fastforce
  obtain b3 w3 where 3: "alloc w2 = (b3, w3)" by fastforce
  have "w' = w1 \<or> w' = w3"
    using assms None 1 2 3 by (auto simp: write_pair_def Let_def split: if_splits)
  then show ?thesis
    using same_locks_alloc [OF 1] same_locks_alloc [OF 2] same_locks_alloc [OF 3]
    by (auto intro: same_locks_trans)
next
  case (Some p)
  obtain b' w2 where p: "p = (b', w2)" by fastforce
  have "same_locks w w2"
  proof (rule write_existing_Some [OF Some [unfolded p]])
    fix n ok w1
    assume "alloc w = (ok, w1)" and "w2 = notify_loop w1 (nsubs n) k v"
    then show "same_locks w w2"
      using same_locks_alloc only_writes_same_locks [OF notify_loop_only_writes] by (blast intro: same_locks_trans)
  qed
  then show ?thesis using assms Some p by (auto simp: write_pair_def Let_def split: if_splits)
qed

lemma delete_search_locks: "delete_search b k w = Some (b', w') \<Longrightarrow> same_locks w w'"
  by (induction b arbitrary: b')
    (auto simp: notify_subscribers_def only_writes_same_locks [OF notify_loop_only_writes]
      split: if_splits option.splits)

lemma delete_pair_locks: "delete_pair ht k w = Inr (r, ht', w') \<Longrightarrow> same_locks w w'"
  by (auto simp: delete_pair_def Let_def split: if_splits option.splits dest: delete_search_locks)

lemma read_pair_locks: "read_pair ht k w = Inr (v, w') \<Longrightarrow> same_locks w w'"
  by (auto simp: read_pair_def Let_def read_search_eq split: if_splits option.splits prod.splits
      dest: same_locks_alloc)

text \<open>A loop whose steps leave the locks alone leaves them alone.\<close>

lemma for_each_locks:
  assumes "for_each f xs s = Inr s'" and "\<And>x s s'. f x s = Inr s' \<Longrightarrow> same_locks (g s) (g s')"
  shows "same_locks (g s) (g s')"
  using assms(1)
proof (induction xs arbitrary: s)
  case Nil
  then show ?case by simp
next
  case (Cons x xs)
  then obtain s1 where "f x s = Inr s1" "for_each f xs s1 = Inr s'" by (auto simp: bindE_def split: sum.splits)
  then show ?case using Cons.IH assms(2) same_locks_trans by blast
qed

lemma write_loop_locks:
  "write_loop write_pair ps (ht, w) = Inr (ht', w') \<Longrightarrow> same_locks w w'"
  using for_each_locks [of _ ps "(ht, w)" "(ht', w')" snd] write_pair_locks
  unfolding write_loop_def by (fastforce simp: bindE_def split: sum.splits)

lemma read_loop_locks:
  assumes "read_loop read_pair ht fdOut ks w = Inr w'"
  shows "same_locks w w'"
proof -
  have "same_locks w w'" if "bindE (read_pair ht k w) (\<lambda>(v, w1). Inr (emit w1 fdOut (read_line k v))) = Inr w'"
    for k w w'
    using that same_locks_trans [OF read_pair_locks same_locks_emit] by (auto simp: bindE_def split: sum.splits)
  then show ?thesis
    using for_each_locks [of _ ks w w' "\<lambda>w. w", OF assms [unfolded read_loop_def]] by blast
qed

lemma delete_loop_locks:
  assumes "delete_loop delete_pair fdOut ks (aux, ht, w) = Inr (aux', ht', w')"
  shows "same_locks w w'"
proof -
  let ?body = "\<lambda>key (aux, t, w). bindE (delete_pair t key w) (\<lambda>(r, t', w').
       if r \<noteq> 0 then
         (let w1 = (if \<not> aux then emit w' fdOut ''['' else w')
          in Inr (True, t', emit w1 fdOut (missing_line key)))
       else Inr (aux, t', w'))"
  have "same_locks (snd (snd s)) (snd (snd s'))" if step: "?body k s = Inr s'" for k s s'
  proof -
    obtain a t w where s: "s = (a, t, w)" by (cases s) auto
    obtain r t1 w1 where 1: "delete_pair t k w = Inr (r, t1, w1)"
      using step s by (cases "delete_pair t k w") auto
    have "same_locks w1 (emit (if a then w1 else emit w1 fdOut ''['') fdOut (missing_line k))"
      using same_locks_emit same_locks_trans by (cases a) (simp_all, blast)
    then show ?thesis
      using step s 1 delete_pair_locks [OF 1] by (auto simp: Let_def split: if_splits intro: same_locks_trans)
  qed
  then show ?thesis
    using for_each_locks [where g = "\<lambda>s. snd (snd s)", OF assms [unfolded delete_loop_def]] by fastforce
qed

subsection \<open>Whole operations\<close>

text \<open>An operation of a thread that holds the global lock gives back the buckets it takes.\<close>

definition gives_back :: "world \<Rightarrow> world \<Rightarrow> bool" where
  "gives_back w w' \<longleftrightarrow> w_lockres w' = [] \<and>
     (\<exists>evs. w_locks w' = w_locks w @ evs \<and> lock_replay [GlobalHashLock] evs = Some [GlobalHashLock])"

lemma lock_list_valid:
  assumes "lock_list mode keys il w = Inr res" and "w_lockres w = []" and "k \<in> set keys"
  shows "valid_key k"
  using assms
proof (induction mode keys il w rule: lock_list.induct)
  case (1 mode il w)
  then show ?case by simp
next
  case (2 mode key keys il w)
  then show ?case by (auto simp: Let_def valid_key_def split: if_splits)
qed

text \<open>The buckets that a command takes and gives back, around a work that leaves the locks alone.\<close>

lemma command_gives_back:
  assumes "mode = RdLock \<or> mode = WrLock" and "lock_list mode (sort keys) no_locks w = Inr (r, il, w1)"
    and "w_lockres w = []" and "r = 0 \<Longrightarrow> same_locks w1 w2"
  shows "r = 0" and "\<exists>il' w3. unlock_list il w2 = (0, il', w3) \<and> gives_back w w3"
proof -
  have valid: "valid_key k" if "k \<in> set keys" for k
    using lock_list_valid [OF assms(2,3), of k] that by simp
  obtain il0 where il0: "lock_list mode (sort keys) no_locks w =
       Inr (0, il0, w\<lparr>w_locks := w_locks w @ acquired mode keys\<rparr>)"
    "\<And>w1. w_lockres w1 = [] \<Longrightarrow>
       \<exists>il'. unlock_list il0 w1 = (0, il', w1\<lparr>w_locks := w_locks w1 @ released keys\<rparr>)"
    using lock_command [OF valid assms(3)] by blast
  then show r: "r = 0" using assms(2) by simp
  have w1: "il0 = il" "w1 = w\<lparr>w_locks := w_locks w @ acquired mode keys\<rparr>" using il0(1) assms(2) by simp_all
  have w2: "w_lockres w2 = []" "w_locks w2 = w_locks w @ acquired mode keys"
    using assms(4) [OF r] assms(3) w1(2) by (simp_all add: same_locks_def)
  have "set (touched keys) = set (lock_order (sort keys))"
    using valid bucket_of_less by (auto simp: touched_def set_lock_order)
  then have "lock_replay [GlobalHashLock] (acquired mode keys @ released keys) = Some [GlobalHashLock]"
    unfolding acquired_def released_def
    by (intro replay_buckets [OF assms(1)]) (simp_all add: lock_order_def)
  then have "gives_back w (w2\<lparr>w_locks := w_locks w2 @ released keys\<rparr>)"
    using w2 by (simp add: gives_back_def)
  then show "\<exists>il' w3. unlock_list il w2 = (0, il', w3) \<and> gives_back w w3"
    using il0(2) [OF w2(1)] w1(1) by blast
qed

lemma kvs_write_locks:
  assumes "kvs_write (Table ht) keys vals w = Inr (r, t, w')" and "length vals = length keys" and "w_lockres w = []"
  shows "r = 0" and "\<exists>ht'. t = Table ht'" and "gives_back w w'"
proof -
  let ?pairs = "qsort compare_pairs (zip keys vals)"
  obtain r1 il w1 where 1: "lock_list WrLock (sort keys) no_locks w = Inr (r1, il, w1)"
    using assms(1) sorted_pairs [OF assms(2)]
    by (cases "lock_list WrLock (sort keys) no_locks w") (auto simp: kvs_write_def lock_write_list_def Let_def)
  have r1: "r1 = 0" by (rule command_gives_back(1) [OF _ 1 assms(3), of w1]) simp_all
  obtain ht' w2 where 2: "write_loop write_pair ?pairs (ht, w1) = Inr (ht', w2)"
    using assms(1) 1 r1 sorted_pairs [OF assms(2)]
    by (cases "write_loop write_pair ?pairs (ht, w1)") (auto simp: kvs_write_def lock_write_list_def Let_def)
  obtain il' w3 where 3: "unlock_list il w2 = (0, il', w3)" "gives_back w w3"
    using command_gives_back(2) [OF _ 1 assms(3) write_loop_locks [OF 2]] by blast
  have "r = 0 \<and> t = Table ht' \<and> w' = w3"
    using assms(1) 1 2 3(1) r1 sorted_pairs [OF assms(2)] by (simp add: kvs_write_def lock_write_list_def Let_def)
  then show "r = 0" and "\<exists>ht'. t = Table ht'" and "gives_back w w'" using 3(2) by auto
qed

lemma kvs_read_locks:
  assumes "kvs_read (Table ht) keys fdOut w = Inr (r, w')" and "w_lockres w = []"
  shows "r = 0" and "gives_back w w'"
proof -
  obtain r1 il w1 where 1: "lock_list RdLock (sort keys) no_locks w = Inr (r1, il, w1)"
    using assms(1)
    by (cases "lock_list RdLock (sort keys) no_locks w") (auto simp: kvs_read_def lock_read_list_def Let_def)
  have r1: "r1 = 0" by (rule command_gives_back(1) [OF _ 1 assms(2), of w1]) simp_all
  let ?w1 = "emit w1 fdOut ''[''"
  obtain w2 where 2: "read_loop read_pair ht fdOut (sort keys) ?w1 = Inr w2"
    using assms(1) 1 r1
    by (cases "read_loop read_pair ht fdOut (sort keys) ?w1") (auto simp: kvs_read_def lock_read_list_def Let_def)
  let ?w2 = "emit w2 fdOut ('']'' @ [newline])"
  have "same_locks w1 ?w1" by (rule same_locks_emit)
  also have "same_locks ?w1 w2" by (rule read_loop_locks [OF 2])
  also have "same_locks w2 ?w2" by (rule same_locks_emit)
  finally have same: "same_locks w1 ?w2" .
  obtain il' w3 where 3: "unlock_list il ?w2 = (0, il', w3)" "gives_back w w3"
    using command_gives_back(2) [OF _ 1 assms(2) same] by blast
  have "r = 0 \<and> w' = w3"
    using assms(1) 1 2 3(1) r1 by (simp add: kvs_read_def lock_read_list_def Let_def)
  then show "r = 0" and "gives_back w w'" using 3(2) by auto
qed

lemma kvs_delete_locks:
  assumes "kvs_delete (Table ht) keys fdOut w = Inr (r, t, w')" and "w_lockres w = []"
  shows "r = 0" and "\<exists>ht'. t = Table ht'" and "gives_back w w'"
proof -
  obtain r1 il w1 where 1: "lock_list WrLock (sort keys) no_locks w = Inr (r1, il, w1)"
    using assms(1)
    by (cases "lock_list WrLock (sort keys) no_locks w") (auto simp: kvs_delete_def lock_write_list_def Let_def)
  have r1: "r1 = 0" by (rule command_gives_back(1) [OF _ 1 assms(2), of w1]) simp_all
  obtain aux ht' w2 where 2: "delete_loop delete_pair fdOut (sort keys) (False, ht, w1) = Inr (aux, ht', w2)"
    using assms(1) 1 r1
    by (cases "delete_loop delete_pair fdOut (sort keys) (False, ht, w1)")
      (auto simp: kvs_delete_def lock_write_list_def Let_def)
  let ?w2 = "if aux then emit w2 fdOut ('']'' @ [newline]) else w2"
  have "same_locks w1 w2" by (rule delete_loop_locks [OF 2])
  also have "same_locks w2 ?w2" by (simp add: same_locks_emit)
  finally have same: "same_locks w1 ?w2" .
  obtain il' w3 where 3: "unlock_list il ?w2 = (0, il', w3)" "gives_back w w3"
    using command_gives_back(2) [OF _ 1 assms(2) same] by blast
  have "r = 0 \<and> t = Table ht' \<and> w' = w3"
    using assms(1) 1 2 3(1) r1 by (simp add: kvs_delete_def lock_write_list_def Let_def)
  then show "r = 0" and "\<exists>ht'. t = Table ht'" and "gives_back w w'" using 3(2) by auto
qed

lemma lock_calls_trace:
  "w_lockres w = [] \<Longrightarrow> lock_calls evs w = (0, w\<lparr>w_locks := w_locks w @ evs\<rparr>)"
  by (induction evs arbitrary: w) simp_all

lemma show_table_locks: "show_table ht fdOut w = Inr w' \<Longrightarrow> same_locks w w'"
  unfolding show_table_def
  by (erule for_each_locks [where g = "\<lambda>w. w"], erule for_each_locks [where g = "\<lambda>w. w"])
    (auto simp: bindE_def same_locks_emit split: sum.splits)

lemma kvs_show_locks:
  assumes "kvs_show (Table ht) fdOut w = Inr (r, w')" and "w_lockres w = []"
  shows "r = 0" and "gives_back w w'"
proof -
  let ?ins = "map (\<lambda>i. RdLock (Bucket i)) [0..<TABLE_SIZE]"
  let ?outs = "map (\<lambda>i. Unlock (Bucket i)) [0..<TABLE_SIZE]"
  let ?w1 = "w\<lparr>w_locks := w_locks w @ ?ins\<rparr>"
  obtain w2 where 2: "show_table ht fdOut ?w1 = Inr w2"
    using assms lock_calls_trace [OF assms(2), of ?ins]
    by (cases "show_table ht fdOut ?w1") (auto simp: kvs_show_def deref_def simp del: upt_Suc)
  then have w2: "w_lockres w2 = []" "w_locks w2 = w_locks w @ ?ins"
    using show_table_locks [OF 2] assms(2) by (simp_all add: same_locks_def)
  have "r = 0 \<and> w' = w2\<lparr>w_locks := w_locks w2 @ ?outs\<rparr>"
    using assms(1) 2 lock_calls_trace [OF assms(2), of ?ins] lock_calls_trace [OF w2(1), of ?outs]
    by (simp add: kvs_show_def deref_def)
  moreover have "lock_replay [GlobalHashLock] (?ins @ ?outs) = Some [GlobalHashLock]"
    by (rule replay_buckets) simp_all
  ultimately show "r = 0" and "gives_back w w'" using w2 by (auto simp: gives_back_def)
qed

end
