(* ===== verification/JobParser.thy ===== *)
theory JobParser
  imports CommonIO "HOL-Library.Sublist"
begin

section \<open>The parser of job files (server/parser.c)\<close>

text \<open>
  A job file is a regular file: the parser's state is the part of it that has not been read, and
  \<open>read\<close> of \<open>n\<close> bytes gives the next \<open>n\<close> of them, fewer only at the end. Buffers have the size the
  source gives them; a write beyond one is a fault, and so is the use of a buffer that was not
  terminated.
\<close>

datatype command =
  CMD_WRITE | CMD_READ | CMD_DELETE | CMD_SHOW | CMD_WAIT | CMD_BACKUP | CMD_HELP | CMD_EMPTY |
  CMD_INVALID | EOC

abbreviation file_read :: "nat \<Rightarrow> string \<Rightarrow> string \<times> string" where
  "file_read n inp \<equiv> (take n inp, drop n inp)"

subsection \<open>Words, numbers and lines\<close>

text \<open>
  \<open>read_string limit\<close>: the return value is 0, 1 or 2 for the terminators comma, closing parenthesis
  and closing bracket, -1 for the end of the file or a space. After \<open>limit\<close> characters without one,
  the terminating zero is stored behind the end of the buffer.
\<close>

fun read_string_from :: "nat \<Rightarrow> string \<Rightarrow> string \<Rightarrow> (int \<times> string \<times> string) res" where
  "read_string_from 0 buffer inp = Inl OutOfBounds"
| "read_string_from (Suc left) buffer [] = Inr (- 1, buffer, [])"
| "read_string_from (Suc left) buffer (ch # inp) =
     (if ch = CHR '' '' then Inr (- 1, buffer, inp)
      else if ch = CHR '','' then Inr (0, buffer, inp)
      else if ch = CHR '')'' then Inr (1, buffer, inp)
      else if ch = CHR '']'' then Inr (2, buffer, inp)
      else read_string_from left (buffer @ [ch]) inp)"

definition read_string :: "nat \<Rightarrow> string \<Rightarrow> (int \<times> string \<times> string) res" where
  "read_string limit inp = read_string_from limit [] inp"

definition is_digit :: "char \<Rightarrow> bool" where
  "is_digit c \<longleftrightarrow> CHR ''0'' \<le> c \<and> c \<le> CHR ''9''"

definition digit_value :: "char \<Rightarrow> nat" where
  "digit_value c = of_char c - of_char CHR ''0''"

definition decimal :: "string \<Rightarrow> nat" where
  "decimal ds = foldl (\<lambda>n c. 10 * n + digit_value c) 0 ds"

text \<open>
  \<open>read_uint\<close>: the digits go to a buffer of 16 bytes, the first other character ends it. At the end
  of the file the buffer is left without a terminator. The result is the return value, the number,
  the character after it and the rest.
\<close>

definition UINT_MAX :: nat where "UINT_MAX = 2 ^ 32 - 1"

fun read_uint_from ::
  "string \<Rightarrow> string \<Rightarrow> (int \<times> 32 word option \<times> char \<times> string) res" where
  "read_uint_from buf [] = (if length buf < 16 then Inl Uninitialised else Inl OutOfBounds)"
| "read_uint_from buf (ch # inp) =
     (if length buf \<ge> 16 then Inl OutOfBounds
      else if \<not> is_digit ch then
        (let ul = decimal buf in
         if ul > UINT_MAX then Inr (1, None, ch, inp)
         else Inr (0, Some (word_of_nat ul), ch, inp))
      else read_uint_from (buf @ [ch]) inp)"

definition read_uint :: "string \<Rightarrow> (int \<times> 32 word option \<times> char \<times> string) res" where
  "read_uint inp = read_uint_from [] inp"

fun cleanup :: "string \<Rightarrow> string" where
  "cleanup [] = []"
| "cleanup (ch # inp) = (if ch = newline then inp else cleanup inp)"

subsection \<open>The command word\<close>

text \<open>The tests of the source: all bytes of the word were read and are the expected ones.\<close>

definition get_next :: "string \<Rightarrow> command \<times> string" where
  "get_next inp =
     (case file_read 1 inp of
        (b0, inp1) \<Rightarrow>
          if length b0 \<noteq> 1 then (EOC, inp1)
          else
            (let word = (\<lambda>n kw. (case file_read n inp1 of (b, r) \<Rightarrow>
                   (length b \<noteq> n \<or> b0 @ b \<noteq> kw, b0 @ b, r)));
                 line_end = (\<lambda>cmd r. (case file_read 1 r of (b, r') \<Rightarrow>
                   if length b \<noteq> 0 \<and> b \<noteq> [newline] then (CMD_INVALID, cleanup r') else (cmd, r')))
             in
             if b0 = ''W'' then
               (case word 4 ''WAIT '' of (bad, buf, r) \<Rightarrow>
                  if bad then
                    (case file_read 1 r of (b, r') \<Rightarrow>
                       if length b \<noteq> 1 \<or> buf @ b \<noteq> ''WRITE '' then (CMD_INVALID, cleanup r')
                       else (CMD_WRITE, r'))
                  else (CMD_WAIT, r))
             else if b0 = ''R'' then
               (case word 4 ''READ '' of (bad, buf, r) \<Rightarrow>
                  if bad then (CMD_INVALID, cleanup r) else (CMD_READ, r))
             else if b0 = ''D'' then
               (case word 6 ''DELETE '' of (bad, buf, r) \<Rightarrow>
                  if bad then (CMD_INVALID, cleanup r) else (CMD_DELETE, r))
             else if b0 = ''S'' then
               (case word 3 ''SHOW'' of (bad, buf, r) \<Rightarrow>
                  if bad then (CMD_INVALID, cleanup r) else line_end CMD_SHOW r)
             else if b0 = ''B'' then
               (case word 5 ''BACKUP'' of (bad, buf, r) \<Rightarrow>
                  if bad then (CMD_INVALID, cleanup r) else line_end CMD_BACKUP r)
             else if b0 = ''H'' then
               (case word 3 ''HELP'' of (bad, buf, r) \<Rightarrow>
                  if bad then (CMD_INVALID, cleanup r) else line_end CMD_HELP r)
             else if b0 = ''#'' then (CMD_EMPTY, cleanup inp1)
             else if b0 = [newline] then (CMD_EMPTY, inp1)
             else (CMD_INVALID, cleanup inp1)))"

subsection \<open>The arguments of the commands\<close>

text \<open>
  \<open>parse_pair\<close> returns the two strings, or \<open>None\<close> for the return value 0. The buffers are copied by
  \<open>strcpy\<close>, so up to the first zero byte.
\<close>

definition parse_pair :: "string \<Rightarrow> ((string \<times> string) option \<times> string) res" where
  "parse_pair inp =
     bindE (read_string 40 inp) (\<lambda>(r, key, inp1).
       if r \<noteq> 0 then Inr (None, cleanup inp1)
       else bindE (read_string 40 inp1) (\<lambda>(r', val, inp2).
         if r' \<noteq> 1 then Inr (None, cleanup inp2) else Inr (Some (key, val), inp2)))"

text \<open>
  The loop of \<open>parse_write\<close>, with the pairs stored so far; \<open>None\<close> is the early return of 0.
\<close>

fun write_args_loop ::
  "nat \<Rightarrow> (string \<times> string) list \<Rightarrow> string \<Rightarrow> ((string \<times> string) list option \<times> string) res" where
  "write_args_loop 0 pairs inp = Inr (Some pairs, inp)"
| "write_args_loop (Suc left) pairs inp =
     bindE (parse_pair inp) (\<lambda>(p, inp1).
       (case p of
          None \<Rightarrow> Inr (None, cleanup inp1)
        | Some (key, val) \<Rightarrow>
            (case file_read 1 inp1 of (b, inp2) \<Rightarrow>
               if b \<noteq> ''('' \<and> b \<noteq> '']'' then Inr (None, cleanup inp2)
               else if b = '']'' then Inr (Some (pairs @ [(c_str key, c_str val)]), inp2)
               else write_args_loop left (pairs @ [(c_str key, c_str val)]) inp2)))"

text \<open>The tests that \<open>parse_write\<close>, \<open>parse_read_delete\<close> make after their loop.\<close>

definition args_end :: "nat \<Rightarrow> 'a list option \<times> string \<Rightarrow> 'a list \<times> string" where
  "args_end limit res =
     (case res of
        (None, inp) \<Rightarrow> ([], inp)
      | (Some xs, inp) \<Rightarrow>
          if length xs = limit then ([], cleanup inp)
          else (case file_read 1 inp of (b, inp1) \<Rightarrow>
            if b \<noteq> [newline] \<and> b \<noteq> [NUL] then ([], cleanup inp1) else (xs, inp1)))"

definition parse_write :: "nat \<Rightarrow> string \<Rightarrow> ((string \<times> string) list \<times> string) res" where
  "parse_write max_pairs inp =
     (case file_read 1 inp of (b, inp1) \<Rightarrow>
        if b \<noteq> ''['' then Inr ([], cleanup inp1)
        else (case file_read 1 inp1 of (b', inp2) \<Rightarrow>
          if b' \<noteq> ''('' then Inr ([], cleanup inp2)
          else bindE (write_args_loop max_pairs [] inp2) (\<lambda>r. Inr (args_end max_pairs r))))"

fun key_args_loop :: "nat \<Rightarrow> string list \<Rightarrow> string \<Rightarrow> (string list option \<times> string) res" where
  "key_args_loop 0 keys inp = Inr (Some keys, inp)"
| "key_args_loop (Suc left) keys inp =
     bindE (read_string 40 inp) (\<lambda>(output, key, inp1).
       if output < 0 \<or> output = 1 then Inr (None, cleanup inp1)
       else if output = 2 then Inr (Some (keys @ [c_str key]), inp1)
       else key_args_loop left (keys @ [c_str key]) inp1)"

definition parse_read_delete :: "nat \<Rightarrow> string \<Rightarrow> (string list \<times> string) res" where
  "parse_read_delete max_keys inp =
     (case file_read 1 inp of (b, inp1) \<Rightarrow>
        if b \<noteq> ''['' then Inr ([], cleanup inp1)
        else bindE (key_args_loop max_keys [] inp1) (\<lambda>r. Inr (args_end max_keys r)))"

text \<open>
  \<open>parse_wait\<close>: the return value, the delay and the thread number where they are stored, the rest.
  \<open>with_thread\<close> is whether the caller passes a place for the thread number (it never does).
\<close>

definition parse_wait ::
  "bool \<Rightarrow> string \<Rightarrow> (int \<times> 32 word option \<times> 32 word option \<times> string) res" where
  "parse_wait with_thread inp =
     bindE (read_uint inp) (\<lambda>(r, delay, ch, inp1).
       if r \<noteq> 0 then Inr (- 1, delay, None, cleanup inp1)
       else if ch = CHR '' '' then
         (if \<not> with_thread then Inr (0, delay, None, cleanup inp1)
          else bindE (read_uint inp1) (\<lambda>(r', thread_id, ch', inp2).
            if r' \<noteq> 0 \<or> ch' \<noteq> newline \<and> ch' \<noteq> NUL
            then Inr (- 1, delay, thread_id, cleanup inp2)
            else Inr (1, delay, thread_id, inp2)))
       else if ch = newline \<or> ch = NUL then Inr (0, delay, None, inp1)
       else Inr (- 1, delay, None, cleanup inp1))"


subsection \<open>What is read is a part of the input\<close>

lemma suffix_cleanup [intro]: "suffix rest inp \<Longrightarrow> suffix (cleanup rest) inp"
proof -
  have "suffix (cleanup s) s" for s by (induction s) (auto intro: suffix_ConsI)
  then show "suffix rest inp \<Longrightarrow> suffix (cleanup rest) inp" by (blast intro: suffix_order.trans)
qed

lemma suffix_drop' [intro]: "suffix rest inp \<Longrightarrow> suffix (drop n rest) inp"
  by (blast intro: suffix_drop suffix_order.trans)

lemma read_string_from_suffix:
  "read_string_from n buf inp = Inr (r, s, rest) \<Longrightarrow> suffix rest inp"
  by (induction n buf inp rule: read_string_from.induct)
    (auto split: if_splits intro: suffix_ConsI)

lemma read_string_suffix: "read_string n inp = Inr (r, s, rest) \<Longrightarrow> suffix rest inp"
  unfolding read_string_def by (rule read_string_from_suffix)

lemma read_uint_from_suffix:
  "read_uint_from buf inp = Inr (r, v, ch, rest) \<Longrightarrow> suffix rest inp"
  by (induction buf inp rule: read_uint_from.induct)
    (auto simp: Let_def split: if_splits intro: suffix_ConsI)

lemma parse_pair_suffix: "parse_pair inp = Inr (p, rest) \<Longrightarrow> suffix rest inp"
  by (auto simp: parse_pair_def split: if_splits prod.splits dest!: read_string_suffix)
    (blast intro: suffix_cleanup suffix_order.trans)+

lemma write_args_loop_suffix:
  "write_args_loop n ps inp = Inr (r, rest) \<Longrightarrow> suffix rest inp"
proof (induction n arbitrary: ps inp)
  case 0
  then show ?case by simp
next
  case (Suc n)
  then obtain p inp1 where p: "parse_pair inp = Inr (p, inp1)" by auto
  from parse_pair_suffix [OF p] have s: "suffix inp1 inp" .
  then have "suffix (drop 1 inp1) inp" by (rule suffix_drop')
  with Suc s p show ?case
    by (auto simp del: drop_Suc split: option.splits prod.splits if_splits
        intro: suffix_order.trans)
qed

lemma key_args_loop_suffix:
  "key_args_loop n ks inp = Inr (r, rest) \<Longrightarrow> suffix rest inp"
proof (induction n arbitrary: ks inp)
  case 0
  then show ?case by simp
next
  case (Suc n)
  then obtain out s inp1 where p: "read_string 40 inp = Inr (out, s, inp1)" by auto
  from read_string_suffix [OF p] have "suffix inp1 inp" .
  with Suc p show ?case by (auto split: if_splits intro: suffix_order.trans)
qed

lemma args_end_suffix: "args_end n (r, inp) = (xs, rest) \<Longrightarrow> suffix rest inp"
  by (auto simp: args_end_def split: option.splits if_splits)

subsection \<open>What is accepted fits its buffer\<close>

definition fits :: "string \<Rightarrow> bool" where
  "fits s \<longleftrightarrow> length s < 40 \<and> NUL \<notin> set s"

lemma read_string_from_length:
  "read_string_from n buf inp = Inr (r, s, rest) \<Longrightarrow> length s < length buf + n"
  by (induction n buf inp rule: read_string_from.induct) (auto split: if_splits)

lemma read_string_fits: "read_string 40 inp = Inr (r, s, rest) \<Longrightarrow> fits (c_str s)"
  using read_string_from_length [of 40 "[]" inp r s rest] length_c_str_le [of s] c_str_no_NUL
  by (simp add: read_string_def fits_def)

lemma write_args_loop_fits:
  assumes "write_args_loop n ps inp = Inr (Some qs, rest)" and "\<forall>(k, v) \<in> set ps. fits k \<and> fits v"
  shows "(\<forall>(k, v) \<in> set qs. fits k \<and> fits v) \<and> length qs \<le> length ps + n"
  using assms
proof (induction n arbitrary: ps inp)
  case 0
  then show ?case by simp
next
  case (Suc n)
  then obtain k v inp1 where p: "parse_pair inp = Inr (Some (k, v), inp1)"
    by (auto split: option.splits)
  then have "fits (c_str k)" "fits (c_str v)"
    by (auto simp: parse_pair_def split: if_splits dest!: read_string_fits)
  then have "\<forall>(k, v) \<in> set (ps @ [(c_str k, c_str v)]). fits k \<and> fits v" using Suc.prems(2) by auto
  with Suc.IH [of "ps @ [(c_str k, c_str v)]" "drop 1 inp1"] Suc.prems(1) p show ?case
    by (auto simp del: drop_Suc split: if_splits)
qed

lemma key_args_loop_fits:
  assumes "key_args_loop n ks inp = Inr (Some qs, rest)" and "\<forall>k \<in> set ks. fits k"
  shows "(\<forall>k \<in> set qs. fits k) \<and> length qs \<le> length ks + n"
  using assms
proof (induction n arbitrary: ks inp)
  case 0
  then show ?case by simp
next
  case (Suc n)
  then obtain out s inp1 where p: "read_string 40 inp = Inr (out, s, inp1)" by auto
  have "\<forall>k \<in> set (ks @ [c_str s]). fits k" using Suc.prems(2) read_string_fits [OF p] by auto
  with Suc.IH [of "ks @ [c_str s]" inp1] Suc.prems(1) p show ?case
    by (auto split: if_splits)
qed

subsection \<open>Printing and parsing\<close>

text \<open>A word that can be written in a command: it fits, and none of its characters ends a word.\<close>

definition separators :: "char set" where
  "separators = {CHR '' '', CHR '','', CHR '')'', CHR '']''}"

definition plain :: "string \<Rightarrow> bool" where
  "plain s \<longleftrightarrow> fits s \<and> set s \<inter> separators = {}"

definition terminator_code :: "char \<Rightarrow> int" where
  "terminator_code ch =
     (if ch = CHR '','' then 0 else if ch = CHR '')'' then 1 else if ch = CHR '']'' then 2 else - 1)"

definition pair_text :: "string \<times> string \<Rightarrow> string" where
  "pair_text p = ''('' @ fst p @ '','' @ snd p @ '')''"

definition write_text :: "(string \<times> string) list \<Rightarrow> string" where
  "write_text ps = ''['' @ concat (map pair_text ps) @ '']'' @ [newline]"

fun key_list_text :: "string list \<Rightarrow> string" where
  "key_list_text [] = []"
| "key_list_text [k] = k"
| "key_list_text (k # k' # ks) = k @ '','' @ key_list_text (k' # ks)"

definition keys_text :: "string list \<Rightarrow> string" where
  "keys_text ks = ''['' @ key_list_text ks @ '']'' @ [newline]"

lemma read_string_from_word:
  "set s \<inter> separators = {} \<Longrightarrow> length s < n \<Longrightarrow> ch \<in> separators \<Longrightarrow>
   read_string_from n buf (s @ ch # rest) = Inr (terminator_code ch, buf @ s, rest)"
proof (induction s arbitrary: n buf)
  case Nil
  then show ?case by (cases n) (auto simp: separators_def terminator_code_def)
next
  case (Cons c s)
  then show ?case by (cases n) (auto simp: separators_def)
qed

lemma read_string_word:
  "set s \<inter> separators = {} \<Longrightarrow> length s < 40 \<Longrightarrow> ch \<in> separators \<Longrightarrow>
   read_string 40 (s @ ch # rest) = Inr (terminator_code ch, s, rest)"
  unfolding read_string_def by (subst read_string_from_word) simp_all

lemma plain_read:
  assumes "plain s"
  shows "read_string 40 (s @ CHR '','' # rest) = Inr (0, s, rest)"
    and "read_string 40 (s @ CHR '')'' # rest) = Inr (1, s, rest)"
    and "read_string 40 (s @ CHR '']'' # rest) = Inr (2, s, rest)"
    and "read_string 40 (s @ CHR '' '' # rest) = Inr (- 1, s, rest)"
    and "c_str s = s"
  using assms
  by (simp_all add: plain_def fits_def read_string_word separators_def terminator_code_def)

lemma parse_pair_text:
  assumes "plain k" and "plain v"
  shows "parse_pair (k @ CHR '','' # v @ CHR '')'' # rest) = Inr (Some (k, v), rest)"
  using assms by (simp add: parse_pair_def plain_read)

lemma write_args_loop_text:
  assumes "ps \<noteq> []" and "length ps \<le> n" and "\<forall>(k, v) \<in> set ps. plain k \<and> plain v"
  shows "write_args_loop n acc (tl (concat (map pair_text ps)) @ CHR '']'' # rest) =
    Inr (Some (acc @ ps), rest)"
  using assms
proof (induction ps arbitrary: n acc)
  case Nil
  then show ?case by simp
next
  case (Cons p ps)
  obtain k v where p: "p = (k, v)" by fastforce
  obtain m where n: "n = Suc m" using Cons.prems(2) by (cases n) auto
  have pl: "plain k" "plain v" using Cons.prems(3) p by auto
  show ?case
  proof (cases "ps = []")
    case True
    then show ?thesis
      by (simp add: n p pair_text_def parse_pair_text pl plain_read(5))
  next
    case False
    then obtain q qs where ps: "ps = q # qs" by (auto simp: neq_Nil_conv)
    obtain tail where tail: "concat (map pair_text ps) = CHR ''('' # tail"
      by (simp add: ps pair_text_def)
    then have "write_args_loop n acc (tl (concat (map pair_text (p # ps))) @ CHR '']'' # rest) =
        write_args_loop m (acc @ [p]) (tl (concat (map pair_text ps)) @ CHR '']'' # rest)"
      by (simp add: n p pair_text_def [of "(k, v)"] parse_pair_text pl plain_read(5))
    also have "\<dots> = Inr (Some ((acc @ [p]) @ ps), rest)"
      by (rule Cons.IH) (use Cons.prems n False in auto)
    finally show ?thesis by simp
  qed
qed

lemma key_args_loop_text:
  assumes "ks \<noteq> []" and "length ks \<le> n" and "\<forall>k \<in> set ks. plain k"
  shows "key_args_loop n acc (key_list_text ks @ CHR '']'' # rest) = Inr (Some (acc @ ks), rest)"
  using assms
proof (induction ks arbitrary: n acc rule: key_list_text.induct)
  case 1
  then show ?case by simp
next
  case (2 k)
  then show ?case by (cases n) (simp_all add: plain_read)
next
  case (3 k k' ks)
  obtain m where n: "n = Suc m" using "3.prems"(2) by (cases n) auto
  then show ?case using "3.IH" [of m "acc @ [k]"] "3.prems" by (simp add: plain_read)
qed

lemma write_command_text:
  assumes "ps \<noteq> []" and "length ps < limit" and "\<forall>(k, v) \<in> set ps. plain k \<and> plain v"
  shows "get_next (''WRITE '' @ write_text ps @ rest) = (CMD_WRITE, write_text ps @ rest) \<and>
    parse_write limit (write_text ps @ rest) = Inr (ps, rest)"
proof
  show "get_next (''WRITE '' @ write_text ps @ rest) = (CMD_WRITE, write_text ps @ rest)"
    by (simp add: get_next_def)
  have "concat (map pair_text ps) = CHR ''('' # tl (concat (map pair_text ps))"
    using assms(1) by (cases ps) (simp_all add: pair_text_def)
  then have "write_text ps @ rest =
      CHR ''['' # CHR ''('' # tl (concat (map pair_text ps)) @ CHR '']'' # newline # rest"
    unfolding write_text_def by (metis append.assoc append_Cons append_Nil)
  then show "parse_write limit (write_text ps @ rest) = Inr (ps, rest)"
    using write_args_loop_text [of ps limit "[]" "newline # rest"] assms
    by (simp add: parse_write_def args_end_def)
qed

text \<open>
  C28: A printed WRITE command is read back as the same list of pairs, and the rest of the file is
  left for the next command.
\<close>

theorem write_command_roundtrip:
  assumes "ps \<noteq> []" and "length ps < limit" and "\<forall>(k, v) \<in> set ps. plain k \<and> plain v"
  shows "get_next (''WRITE '' @ write_text ps @ rest) = (CMD_WRITE, write_text ps @ rest) \<and>
    parse_write limit (write_text ps @ rest) = Inr (ps, rest)"
  using assms by (rule write_command_text)

lemma key_command_text:
  assumes "ks \<noteq> []" and "length ks < limit" and "\<forall>k \<in> set ks. plain k"
  shows "get_next (''READ '' @ keys_text ks @ rest) = (CMD_READ, keys_text ks @ rest) \<and>
    get_next (''DELETE '' @ keys_text ks @ rest) = (CMD_DELETE, keys_text ks @ rest) \<and>
    parse_read_delete limit (keys_text ks @ rest) = Inr (ks, rest)"
  using key_args_loop_text [of ks limit "[]" "newline # rest"] assms
  by (simp add: get_next_def parse_read_delete_def keys_text_def args_end_def)

text \<open>
  A printed READ or DELETE command is read back as the same list of keys, and the rest of the file
  is left for the next command.
\<close>

theorem key_command_roundtrip:
  assumes "ks \<noteq> []" and "length ks < limit" and "\<forall>k \<in> set ks. plain k"
  shows "get_next (''READ '' @ keys_text ks @ rest) = (CMD_READ, keys_text ks @ rest) \<and>
    get_next (''DELETE '' @ keys_text ks @ rest) = (CMD_DELETE, keys_text ks @ rest) \<and>
    parse_read_delete limit (keys_text ks @ rest) = Inr (ks, rest)"
  using assms by (rule key_command_text)

lemma read_uint_text:
  assumes "\<forall>c \<in> set ds. is_digit c" and "length ds \<le> 15"
  shows "read_uint (ds @ newline # rest) =
    (if decimal ds \<le> UINT_MAX then Inr (0, Some (word_of_nat (decimal ds)), newline, rest)
     else Inr (1, None, newline, rest))"
proof -
  have nl: "\<not> is_digit newline" by (simp add: is_digit_def)
  have run: "read_uint_from buf (ds @ newline # rest) =
      (let ul = decimal (buf @ ds) in
       if ul > UINT_MAX then Inr (1, None, newline, rest)
       else Inr (0, Some (word_of_nat ul), newline, rest))"
    if "\<forall>c \<in> set ds. is_digit c" "length buf + length ds \<le> 15" for buf ds
    using that
  proof (induction ds arbitrary: buf)
    case Nil
    then show ?case using nl by simp
  next
    case (Cons c ds)
    then show ?case by simp
  qed
  show ?thesis using run [of ds "[]"] assms by (simp add: read_uint_def Let_def)
qed

lemma wait_command_text:
  assumes "\<forall>c \<in> set ds. is_digit c" and "length ds \<le> 15"
  shows "get_next (''WAIT '' @ ds @ newline # rest) = (CMD_WAIT, ds @ newline # rest) \<and>
    parse_wait False (ds @ newline # rest) =
      (if decimal ds \<le> UINT_MAX then Inr (0, Some (word_of_nat (decimal ds)), None, rest)
       else Inr (- 1, None, None, cleanup rest))"
  using read_uint_text [OF assms] by (simp add: get_next_def parse_wait_def)

text \<open>
  A WAIT command with up to 15 digits is read back as its number when it fits an unsigned int, and
  is rejected otherwise, in which case the next line of the file is skipped as well.
\<close>

theorem wait_command_roundtrip:
  assumes "\<forall>c \<in> set ds. is_digit c" and "length ds \<le> 15"
  shows "get_next (''WAIT '' @ ds @ newline # rest) = (CMD_WAIT, ds @ newline # rest) \<and>
    parse_wait False (ds @ newline # rest) =
      (if decimal ds \<le> UINT_MAX then Inr (0, Some (word_of_nat (decimal ds)), None, rest)
       else Inr (- 1, None, None, cleanup rest))"
  using assms by (rule wait_command_text)

lemma args_end_bounds:
  assumes "args_end limit (r, inp) = (xs, rest)" and "0 < limit"
    and "\<forall>qs. r = Some qs \<longrightarrow> length qs \<le> limit"
  shows "length xs < limit" and "xs = [] \<or> r = Some xs"
  using assms by (auto simp: args_end_def split: option.splits if_splits)

text \<open>
  C29: Whatever the input, the pairs that parse_write accepts fit the arrays of the caller: fewer
  pairs than its limit, every key and value at most 39 characters without a zero; the rest is a
  suffix of the input.
\<close>

theorem parse_write_fits:
  assumes "parse_write limit inp = Inr (ps, rest)" and "0 < limit"
  shows "suffix rest inp \<and> length ps < limit \<and> (\<forall>(k, v) \<in> set ps. fits k \<and> fits v)"
proof (cases "take 1 inp = ''['' \<and> take 1 (drop 1 inp) = ''(''")
  case True
  then obtain r inp1 where
    loop: "write_args_loop limit [] (drop 1 (drop 1 inp)) = Inr (r, inp1)"
      "args_end limit (r, inp1) = (ps, rest)"
    using assms(1) by (auto simp: parse_write_def)
  have "suffix inp1 (drop 1 (drop 1 inp))" by (rule write_args_loop_suffix [OF loop(1)])
  then have "suffix rest inp"
    using args_end_suffix [OF loop(2)] suffix_drop suffix_order.trans by metis
  moreover have r: "\<forall>qs. r = Some qs \<longrightarrow> length qs \<le> limit"
    using write_args_loop_fits [of limit "[]"] loop(1) by fastforce
  moreover have "\<forall>(k, v) \<in> set ps. fits k \<and> fits v"
    using args_end_bounds(2) [OF loop(2) assms(2) r] write_args_loop_fits [of limit "[]"] loop(1)
    by fastforce
  ultimately show ?thesis using args_end_bounds(1) [OF loop(2) assms(2)] by blast
next
  case False
  then show ?thesis using assms by (auto simp: parse_write_def split: if_splits)
qed

text \<open>
  Whatever the input, the keys that parse_read_delete accepts fit the array of the caller: fewer
  keys than its limit, each at most 39 characters without a zero; the rest is a suffix of the
  input.
\<close>

theorem parse_read_delete_fits:
  assumes "parse_read_delete limit inp = Inr (ks, rest)" and "0 < limit"
  shows "suffix rest inp \<and> length ks < limit \<and> (\<forall>k \<in> set ks. fits k)"
proof (cases "take 1 inp = ''[''")
  case True
  then obtain r inp1 where
    loop: "key_args_loop limit [] (drop 1 inp) = Inr (r, inp1)" "args_end limit (r, inp1) = (ks, rest)"
    using assms(1) by (auto simp: parse_read_delete_def)
  have "suffix inp1 (drop 1 inp)" by (rule key_args_loop_suffix [OF loop(1)])
  then have "suffix rest inp"
    using args_end_suffix [OF loop(2)] suffix_drop suffix_order.trans by metis
  moreover have r: "\<forall>qs. r = Some qs \<longrightarrow> length qs \<le> limit"
    using key_args_loop_fits [of limit "[]"] loop(1) by fastforce
  moreover have "\<forall>k \<in> set ks. fits k"
    using args_end_bounds(2) [OF loop(2) assms(2) r] key_args_loop_fits [of limit "[]"] loop(1)
    by fastforce
  ultimately show ?thesis using args_end_bounds(1) [OF loop(2) assms(2)] by blast
next
  case False
  then show ?thesis using assms by (auto simp: parse_read_delete_def split: if_splits)
qed

subsection \<open>Every command consumes input\<close>

lemma length_cleanup: "length (cleanup inp) \<le> length inp"
  by (induction inp) auto

lemma get_next_rest:
  assumes "get_next (c # inp1) = (cmd, rest)"
  shows "suffix rest inp1 \<and> cmd \<noteq> EOC"
proof -
  have "suffix (drop n inp1) inp1" "suffix (cleanup (drop n inp1)) inp1"
    "suffix (cleanup inp1) inp1" for n
    by (auto intro: suffix_drop)
  then show ?thesis
    using assms unfolding get_next_def
    by (auto simp: Let_def simp del: drop_Suc take_Suc split: if_splits)
qed

text \<open>
  get_next reports the end of the commands exactly at the end of the file, and otherwise consumes
  at least one byte, so a loop over the commands of a file ends.
\<close>

theorem get_next_progress:
  "get_next inp = (cmd, rest) \<Longrightarrow>
     (cmd = EOC \<longleftrightarrow> inp = []) \<and> suffix rest inp \<and> (inp \<noteq> [] \<longrightarrow> length rest < length inp)"
proof (cases inp)
  case Nil
  then show "get_next inp = (cmd, rest) \<Longrightarrow> ?thesis" by (simp add: get_next_def)
next
  case (Cons c inp1)
  assume "get_next inp = (cmd, rest)"
  then have "suffix rest inp1 \<and> cmd \<noteq> EOC" unfolding Cons by (rule get_next_rest)
  then show ?thesis using Cons by (auto simp: suffix_ConsI suffix_def)
qed

subsection \<open>Malformed input\<close>

lemma cleanup_line: "newline \<notin> set s \<Longrightarrow> cleanup (s @ newline # rest) = rest"
  by (induction s) auto

text \<open>
  A malformed pair in a WRITE command makes the parser skip the rest of the line and the whole
  next line; a malformed key in READ or DELETE skips only its own line.
\<close>

theorem write_error_skips_next_line:
  assumes "plain k" and "newline \<notin> set bad" and "newline \<notin> set l"
  shows "parse_write (Suc n) (''[('' @ k @ '' '' @ bad @ newline # l @ newline # rest) = Inr ([], rest) \<and>
    parse_read_delete (Suc n) (''['' @ k @ '' '' @ bad @ newline # l @ newline # rest) =
      Inr ([], l @ newline # rest)"
  using assms
  by (simp add: parse_write_def parse_read_delete_def parse_pair_def plain_read args_end_def cleanup_line)

lemma read_string_from_overflow:
  "set s \<inter> separators = {} \<Longrightarrow> n \<le> length s \<Longrightarrow> read_string_from n buf (s @ rest) = Inl OutOfBounds"
proof (induction s arbitrary: n buf)
  case Nil
  then show ?case by simp
next
  case (Cons c s)
  then show ?case by (cases n) (auto simp: separators_def)
qed

text \<open>
  A word of 40 or more characters in a command stores the terminator behind the end of its buffer.
\<close>

theorem long_word_overflows:
  assumes "set s \<inter> separators = {}" and "40 \<le> length s"
  shows "parse_read_delete (Suc n) (CHR ''['' # s @ rest) = Inl OutOfBounds \<and>
    parse_write (Suc n) (CHR ''['' # CHR ''('' # s @ rest) = Inl OutOfBounds"
  using read_string_from_overflow [OF assms]
  by (simp add: parse_read_delete_def parse_write_def parse_pair_def read_string_def)

text \<open>
  A WAIT command whose number is the last thing in the file uses a buffer that was never
  terminated, or overruns it.
\<close>

theorem wait_at_end_of_file:
  assumes "\<forall>c \<in> set ds. is_digit c"
  shows "parse_wait with_thread ds = Inl (if length ds < 16 then Uninitialised else OutOfBounds)"
proof -
  have "read_uint_from buf ds = Inl (if length buf + length ds < 16 then Uninitialised else OutOfBounds)"
    if "\<forall>c \<in> set ds. is_digit c" for buf
    using that by (induction ds arbitrary: buf) auto
  from this [of "[]"] show ?thesis using assms by (simp add: parse_wait_def read_uint_def)
qed
subsection \<open>Instances\<close>

theorem write_command_roundtrip_witness:
  "parse_write 256 (''[(a,1)(b,2)]'' @ [newline] @ ''SHOW'') = Inr ([(''a'', ''1''), (''b'', ''2'')], ''SHOW'')"
  using write_command_roundtrip [of "[(''a'', ''1''), (''b'', ''2'')]" 256 "''SHOW''"]
  by (simp add: plain_def fits_def separators_def write_text_def pair_text_def)

theorem key_command_roundtrip_witness:
  "parse_read_delete 256 (''[a,b]'' @ [newline] @ ''SHOW'') = Inr ([''a'', ''b''], ''SHOW'')"
  using key_command_roundtrip [of "[''a'', ''b'']" 256 "''SHOW''"]
  by (simp add: plain_def fits_def separators_def keys_text_def)

theorem wait_command_roundtrip_witness:
  "parse_wait False (''100'' @ [newline] @ ''SHOW'') = Inr (0, Some 100, None, ''SHOW'')"
proof -
  have "decimal ''100'' = 100" by code_simp
  then show ?thesis
    using wait_command_roundtrip [of "''100''" "''SHOW''"] by (simp add: is_digit_def UINT_MAX_def)
qed

theorem parse_write_fits_witness:
  "suffix ''SHOW'' (''[(a,1)]'' @ [newline] @ ''SHOW'') \<and> fits ''a'' \<and> fits ''1''"
proof -
  have "parse_write 256 (''[(a,1)]'' @ [newline] @ ''SHOW'') = Inr ([(''a'', ''1'')], ''SHOW'')"
    by code_simp
  from parse_write_fits [OF this] show ?thesis by simp
qed

theorem parse_read_delete_fits_witness:
  "suffix ''SHOW'' (''[a,b]'' @ [newline] @ ''SHOW'') \<and> fits ''a'' \<and> fits ''b''"
proof -
  have "parse_read_delete 256 (''[a,b]'' @ [newline] @ ''SHOW'') = Inr ([''a'', ''b''], ''SHOW'')"
    by code_simp
  from parse_read_delete_fits [OF this] show ?thesis by simp
qed

theorem get_next_progress_witness:
  "get_next ''WRITE [(a,1)]'' = (CMD_WRITE, ''[(a,1)]'') \<and>
   suffix ''[(a,1)]'' ''WRITE [(a,1)]'' \<and> length ''[(a,1)]'' < length ''WRITE [(a,1)]''"
proof -
  have "get_next ''WRITE [(a,1)]'' = (CMD_WRITE, ''[(a,1)]'')" by code_simp
  from get_next_progress [OF this] this show ?thesis by blast
qed

theorem write_error_skips_next_line_witness:
  "parse_write 256 (''[(a b,1)]'' @ [newline] @ ''WAIT 5'' @ [newline] @ ''SHOW'') = Inr ([], ''SHOW'') \<and>
   parse_read_delete 256 (''[a b,1)]'' @ [newline] @ ''WAIT 5'' @ [newline] @ ''SHOW'') =
     Inr ([], ''WAIT 5'' @ [newline] @ ''SHOW'')"
  using write_error_skips_next_line [of "''a''" "''b,1)]''" "''WAIT 5''" 255 "''SHOW''"]
  by (simp add: plain_def fits_def separators_def)

theorem long_word_overflows_witness:
  "parse_read_delete 256 (CHR ''['' # replicate 40 CHR ''a'' @ '']'') = Inl OutOfBounds"
  using long_word_overflows [of "replicate 40 CHR ''a''" 255 "'']''"]
  by (simp add: separators_def)

theorem wait_at_end_of_file_witness:
  "parse_wait False ''100'' = Inl Uninitialised"
  using wait_at_end_of_file [of "''100''" False] by (simp add: is_digit_def)

end
