(* ===== verification/Jobs.thy ===== *)
theory Jobs
  imports LockTrace JobParser
begin

section \<open>The job threads (server/main.c, process\_thread)\<close>

text \<open>
  One thread that works through job files: the loop over the commands of a file and the loop over
  the directory entries the thread gets. The state has the shared table, the kernel, the part of
  the file still to be read, the counter of backups that may still be started, the number of child
  processes not yet waited for, the number of the next backup of this file, the outcome of the next
  calls of \<open>fork\<close>, and the backups made (path, and what the child wrote). The mutexes of the
  directory and of the counter make their sections atomic and are left implicit. Text on the
  standard streams is left out.
\<close>

record job =
  j_table :: table_ptr
  j_world :: world
  j_input :: string
  backupCounter :: "32 word"
  j_children :: nat
  fileBackups :: nat
  j_forks :: "bool list"
  j_backups :: "(string \<times> string res) list"

definition MAX_JOB_FILE_NAME_SIZE :: nat where "MAX_JOB_FILE_NAME_SIZE = 256"

subsection \<open>Commands on the table\<close>

text \<open>
  \<open>globally f\<close>: the chain of a read lock on the global lock, the operation and the unlock. It stops
  at the first one that fails, so a failing operation keeps the lock.
\<close>

definition globally ::
  "(table_ptr \<Rightarrow> world \<Rightarrow> (int \<times> table_ptr \<times> world) res) \<Rightarrow> job \<Rightarrow> job res" where
  "globally f st =
     (case lock_call (j_world st) (RdLock GlobalHashLock) of
        (r, w1) \<Rightarrow>
          if r \<noteq> 0 then Inr (st\<lparr>j_world := w1\<rparr>)
          else bindE (f (j_table st) w1) (\<lambda>(r', t, w2).
            if r' \<noteq> 0 then Inr (st\<lparr>j_table := t, j_world := w2\<rparr>)
            else (case lock_call w2 (Unlock GlobalHashLock) of
              (_, w3) \<Rightarrow> Inr (st\<lparr>j_table := t, j_world := w3\<rparr>))))"

definition job_write :: "job \<Rightarrow> job res" where
  "job_write st =
     bindE (parse_write MAX_WRITE_SIZE (j_input st)) (\<lambda>(pairs, rest).
       let st1 = st\<lparr>j_input := rest\<rparr> in
       if length pairs = 0 then Inr st1
       else globally (\<lambda>t w. kvs_write t (map fst pairs) (map snd pairs) w) st1)"

definition job_read :: "int \<Rightarrow> job \<Rightarrow> job res" where
  "job_read fdOut st =
     bindE (parse_read_delete MAX_WRITE_SIZE (j_input st)) (\<lambda>(keys, rest).
       let st1 = st\<lparr>j_input := rest\<rparr> in
       if length keys = 0 then Inr st1
       else globally (\<lambda>t w. bindE (kvs_read t keys fdOut w) (\<lambda>(r, w'). Inr (r, t, w'))) st1)"

definition job_delete :: "int \<Rightarrow> job \<Rightarrow> job res" where
  "job_delete fdOut st =
     bindE (parse_read_delete MAX_WRITE_SIZE (j_input st)) (\<lambda>(keys, rest).
       let st1 = st\<lparr>j_input := rest\<rparr> in
       if length keys = 0 then Inr st1
       else globally (\<lambda>t w. kvs_delete t keys fdOut w) st1)"

definition job_show :: "int \<Rightarrow> job \<Rightarrow> job res" where
  "job_show fdOut st =
     globally (\<lambda>t w. bindE (kvs_show t fdOut w) (\<lambda>(r, w'). Inr (r, t, w'))) st"

definition waiting_line :: string where "waiting_line = ''Waiting...'' @ [newline]"

definition job_wait :: "int \<Rightarrow> job \<Rightarrow> job res" where
  "job_wait fdOut st =
     bindE (parse_wait False (j_input st)) (\<lambda>(r, delay, _, rest).
       let st1 = st\<lparr>j_input := rest\<rparr> in
       if r = - 1 then Inr st1
       else (case delay of
         None \<Rightarrow> Inl Uninitialised
       | Some d \<Rightarrow> Inr (if d > 0 then st1\<lparr>j_world := emit (j_world st1) fdOut waiting_line\<rparr> else st1)))"

subsection \<open>Backups\<close>

fun decimal_text :: "nat \<Rightarrow> string" where
  "decimal_text n =
     (if n < 10 then [char_of (48 + n)] else decimal_text (n div 10) @ [char_of (48 + n mod 10)])"

declare decimal_text.simps [simp del]

definition bck_path :: "string \<Rightarrow> nat \<Rightarrow> string" where
  "bck_path filePath n =
     snprintf MAX_JOB_FILE_NAME_SIZE
       (take (length filePath - 4) filePath @ ''-'' @ decimal_text n @ ''.bck'')"

text \<open>
  The child process: it works on a copy of the state, so only the bytes it writes to the new file
  are kept. A file that cannot be opened gives the descriptor -1, and every write fails.
\<close>

definition backup_child :: "table_ptr \<Rightarrow> string \<Rightarrow> world \<Rightarrow> string res" where
  "backup_child t bckPath w =
     (case sys_open w bckPath of
        (fdBck, w1) \<Rightarrow>
          bindE (kvs_backup t fdBck w1) (\<lambda>(_, w2). Inr (drop (length (w_out w1 fdBck)) (w_out w2 fdBck))))"

text \<open>
  \<open>BACKUP\<close>. Without a free place in the counter the thread waits for a child; with no child
  \<open>wait\<close> fails every time and the loop never ends: \<open>None\<close>. When the unlock of the global lock
  fails, the branch of the child is not taken and no backup is made; the model follows the parent,
  while in the code the child would go on with the rest of the file as a process of its own.
\<close>

definition wait_for_place :: "job \<Rightarrow> job option" where
  "wait_for_place st =
     (if backupCounter st > 0 then Some (st\<lparr>backupCounter := backupCounter st - 1\<rparr>)
      else if j_children st = 0 then None
      else Some (st\<lparr>j_children := j_children st - 1\<rparr>))"

definition fork_backup :: "string \<Rightarrow> job \<Rightarrow> job" where
  "fork_backup filePath st =
     (let (_, w1) = lock_call (j_world st) (WrLock GlobalHashLock);
          bckPath = bck_path filePath (fileBackups st);
          (forked, forks) = (case j_forks st of [] \<Rightarrow> (True, []) | b # bs \<Rightarrow> (b, bs));
          (r, w2) = lock_call w1 (Unlock GlobalHashLock);
          st1 = st\<lparr>j_world := w2, j_forks := forks,
            j_children := (if forked then Suc (j_children st) else j_children st)\<rparr>
      in if r \<noteq> 0 then st1
         else st1\<lparr>fileBackups := Suc (fileBackups st),
           j_backups := j_backups st @
             (if forked then [(bckPath, backup_child (j_table st) bckPath w2)] else [])\<rparr>)"

definition job_backup :: "string \<Rightarrow> job \<Rightarrow> job option" where
  "job_backup filePath st = map_option (fork_backup filePath) (wait_for_place st)"

subsection \<open>The loop over the commands of a file\<close>

definition run_command :: "string \<Rightarrow> int \<Rightarrow> command \<Rightarrow> job \<Rightarrow> job res option" where
  "run_command filePath fdOut cmd st =
     (case cmd of
        CMD_WRITE \<Rightarrow> Some (job_write st)
      | CMD_READ \<Rightarrow> Some (job_read fdOut st)
      | CMD_DELETE \<Rightarrow> Some (job_delete fdOut st)
      | CMD_SHOW \<Rightarrow> Some (job_show fdOut st)
      | CMD_WAIT \<Rightarrow> Some (job_wait fdOut st)
      | CMD_BACKUP \<Rightarrow> map_option Inr (job_backup filePath st)
      | CMD_INVALID \<Rightarrow> Some (Inr st)
      | CMD_HELP \<Rightarrow> Some (Inr st)
      | CMD_EMPTY \<Rightarrow> Some (Inr st)
      | EOC \<Rightarrow> Some (Inr st))"

lemma parse_write_suffix: "parse_write n inp = Inr (ps, rest) \<Longrightarrow> suffix rest inp"
proof -
  assume run: "parse_write n inp = Inr (ps, rest)"
  show "suffix rest inp"
  proof (cases "take 1 inp = ''['' \<and> take 1 (drop 1 inp) = ''(''")
    case True
    then obtain r inp1 where
      loop: "write_args_loop n [] (drop 1 (drop 1 inp)) = Inr (r, inp1)" "args_end n (r, inp1) = (ps, rest)"
      using run by (auto simp: parse_write_def)
    then show ?thesis
      using write_args_loop_suffix args_end_suffix suffix_drop suffix_order.trans by metis
  next
    case False
    have "suffix (drop m inp) inp" "suffix (cleanup (drop m inp)) inp" for m
      by (auto intro: suffix_drop)
    then show ?thesis using run False by (auto simp: parse_write_def split: if_splits)
  qed
qed

lemma parse_read_delete_suffix: "parse_read_delete n inp = Inr (ks, rest) \<Longrightarrow> suffix rest inp"
proof -
  assume run: "parse_read_delete n inp = Inr (ks, rest)"
  show "suffix rest inp"
  proof (cases "take 1 inp = ''[''")
    case True
    then obtain r inp1 where
      loop: "key_args_loop n [] (drop 1 inp) = Inr (r, inp1)" "args_end n (r, inp1) = (ks, rest)"
      using run by (auto simp: parse_read_delete_def)
    then show ?thesis
      using key_args_loop_suffix args_end_suffix suffix_drop suffix_order.trans by metis
  next
    case False
    have "suffix (cleanup (drop m inp)) inp" for m by (auto intro: suffix_drop)
    then show ?thesis using run False by (auto simp: parse_read_delete_def split: if_splits)
  qed
qed

lemma parse_wait_suffix: "parse_wait False inp = Inr (r, d, t, rest) \<Longrightarrow> suffix rest inp"
  by (auto simp: parse_wait_def read_uint_def split: if_splits
      dest!: read_uint_from_suffix intro: suffix_cleanup)

lemma globally_input: "globally f st = Inr st' \<Longrightarrow> j_input st' = j_input st"
  by (auto simp: globally_def split: prod.splits if_splits)

lemma run_command_suffix:
  "run_command filePath fdOut cmd st = Some (Inr st') \<Longrightarrow> suffix (j_input st') (j_input st)"
  by (auto simp: run_command_def job_write_def job_read_def job_delete_def job_show_def job_wait_def
      job_backup_def wait_for_place_def fork_backup_def Let_def
      split: command.splits if_splits prod.splits option.splits
      dest!: globally_input parse_write_suffix parse_read_delete_suffix parse_wait_suffix)

function job_loop :: "string \<Rightarrow> int \<Rightarrow> job \<Rightarrow> job res option" where
  "job_loop filePath fdOut st =
     (case get_next (j_input st) of
        (cmd, rest) \<Rightarrow>
          (if cmd = EOC then Some (Inr (st\<lparr>j_input := rest\<rparr>))
           else (case run_command filePath fdOut cmd (st\<lparr>j_input := rest\<rparr>) of
             None \<Rightarrow> None
           | Some r \<Rightarrow> (case r of Inl e \<Rightarrow> Some (Inl e) | Inr st' \<Rightarrow> job_loop filePath fdOut st'))))"
  by pat_completeness auto
termination
proof (relation "measure (\<lambda>(filePath, fdOut, st). length (j_input st))", goal_cases)
  case 1
  show ?case by simp
next
  case (2 filePath fdOut st cmd rest r st')
  then have "run_command filePath fdOut cmd (st\<lparr>j_input := rest\<rparr>) = Some (Inr st')" by simp
  then have "suffix (j_input st') rest" using run_command_suffix by fastforce
  moreover obtain c inp where "j_input st = c # inp"
    using 2 by (cases "j_input st") (auto simp: get_next_def)
  moreover have "suffix rest inp" using 2 calculation(2) get_next_rest by metis
  ultimately show ?case
    by (auto dest!: suffix_length_le)
qed

declare job_loop.simps [simp del]
subsection \<open>What a command leaves alone\<close>

lemma globally_frame:
  "globally f st = Inr st' \<Longrightarrow>
     j_children st' = j_children st \<and> backupCounter st' = backupCounter st \<and>
     j_forks st' = j_forks st \<and> j_backups st' = j_backups st"
  by (auto simp: globally_def split: prod.splits if_splits)

text \<open>What the backups see of the other commands.\<close>

definition backup_state :: "job \<Rightarrow> nat \<times> 32 word \<times> bool list" where
  "backup_state st = (j_children st, backupCounter st, j_forks st)"

lemma run_command_frame:
  assumes "run_command filePath fdOut cmd st = Some (Inr st')" and "cmd \<noteq> CMD_BACKUP"
  shows "backup_state st' = backup_state st" "j_backups st' = j_backups st"
proof -
  have "backup_state st' = backup_state st \<and> j_backups st' = j_backups st"
    using assms
    by (auto simp: run_command_def job_write_def job_read_def job_delete_def job_show_def job_wait_def
        backup_state_def Let_def split: command.splits if_splits prod.splits option.splits
        dest!: globally_frame)
  then show "backup_state st' = backup_state st" "j_backups st' = j_backups st" by simp_all
qed

lemma job_backup_state:
  assumes "job_backup filePath st = Some st'"
  shows "j_children st' + unat (backupCounter st') \<le> j_children st + unat (backupCounter st)"
    and "j_forks st = [] \<Longrightarrow> j_forks st' = [] \<and> 0 < j_children st'"
proof -
  obtain st1 where st1: "wait_for_place st = Some st1" "st' = fork_backup filePath st1"
    using assms by (auto simp: job_backup_def)
  have place: "Suc (j_children st1 + unat (backupCounter st1)) = j_children st + unat (backupCounter st)"
    "j_forks st1 = j_forks st"
  proof -
    have "unat (n - 1) = unat n - 1" "0 < unat n" if "n > 0" for n :: "32 word"
      using that by (simp_all add: word_less_nat_alt unat_sub word_le_nat_alt)
    then show "Suc (j_children st1 + unat (backupCounter st1)) = j_children st + unat (backupCounter st)"
      using st1(1) by (auto simp: wait_for_place_def word_gt_0 split: if_splits)
    show "j_forks st1 = j_forks st"
      using st1(1) by (auto simp: wait_for_place_def split: if_splits)
  qed
  have fork: "j_children st' \<le> Suc (j_children st1)" "backupCounter st' = backupCounter st1"
    "j_forks st1 = [] \<Longrightarrow> j_forks st' = [] \<and> j_children st' = Suc (j_children st1)"
    unfolding st1(2) by (auto simp: fork_backup_def Let_def split: prod.splits list.splits)
  show "j_children st' + unat (backupCounter st') \<le> j_children st + unat (backupCounter st)"
    using place(1) fork(1,2) by simp
  show "j_forks st = [] \<Longrightarrow> j_forks st' = [] \<and> 0 < j_children st'" using place(2) fork(3) by simp
qed

text \<open>The rule for a property that every command of a file keeps.\<close>

lemma job_loop_invariant:
  assumes "job_loop filePath fdOut st = Some (Inr st')" and "I st"
    and "\<And>st inp. I st \<Longrightarrow> I (st\<lparr>j_input := inp\<rparr>)"
    and "\<And>cmd st st'. I st \<Longrightarrow> run_command filePath fdOut cmd st = Some (Inr st') \<Longrightarrow> I st'"
  shows "I st'"
  using assms
proof (induction filePath fdOut st rule: job_loop.induct)
  case (1 filePath fdOut st)
  obtain cmd rest where cmd: "get_next (j_input st) = (cmd, rest)" by fastforce
  note in_ok = "1.prems"(3) and step = "1.prems"(4)
  show ?case
  proof (cases "cmd = EOC")
    case True
    then have "st' = st\<lparr>j_input := rest\<rparr>"
      using "1.prems"(1) cmd by (simp add: job_loop.simps [of _ _ st])
    then show ?thesis using in_ok [OF "1.prems"(2)] by simp
  next
    case False
    then obtain st1 where st1: "run_command filePath fdOut cmd (st\<lparr>j_input := rest\<rparr>) = Some (Inr st1)"
      "job_loop filePath fdOut st1 = Some (Inr st')"
      using "1.prems"(1) cmd by (auto simp: job_loop.simps [of _ _ st] split: option.splits sum.splits)
    have "I st1" by (rule step [OF in_ok [OF "1.prems"(2)] st1(1)])
    from "1.IH" [OF cmd [symmetric] False st1(1) refl st1(2) this in_ok step] show ?thesis .
  qed
qed
subsection \<open>The number of backups\<close>

text \<open>
  The states a thread goes through in a file. A state that is marked has its place for a backup and is
  about to fork.
\<close>

inductive file_step :: "string \<Rightarrow> int \<Rightarrow> job \<times> bool \<Rightarrow> job \<times> bool \<Rightarrow> bool" for filePath fdOut where
  command: "get_next (j_input st) = (cmd, rest) \<Longrightarrow> cmd \<noteq> EOC \<Longrightarrow> cmd \<noteq> CMD_BACKUP \<Longrightarrow>
    run_command filePath fdOut cmd (st\<lparr>j_input := rest\<rparr>) = Some (Inr st') \<Longrightarrow>
    file_step filePath fdOut (st, False) (st', False)"
| place: "get_next (j_input st) = (CMD_BACKUP, rest) \<Longrightarrow> wait_for_place (st\<lparr>j_input := rest\<rparr>) = Some st' \<Longrightarrow>
    file_step filePath fdOut (st, False) (st', True)"
| fork: "file_step filePath fdOut (st, True) (fork_backup filePath st, False)"

definition backups_load :: "job \<times> bool \<Rightarrow> nat" where
  "backups_load s = j_children (fst s) + unat (backupCounter (fst s)) + (if snd s then 1 else 0)"

lemma place_load:
  assumes "wait_for_place st = Some st1"
  shows "Suc (j_children st1 + unat (backupCounter st1)) = j_children st + unat (backupCounter st)"
proof -
  have "unat (n - 1) = unat n - 1" "0 < unat n" if "n > 0" for n :: "32 word"
    using that by (simp_all add: word_less_nat_alt unat_sub word_le_nat_alt)
  then show ?thesis
    using assms by (auto simp: wait_for_place_def word_gt_0 split: if_splits)
qed

lemma fork_load:
  "j_children (fork_backup filePath st) \<le> Suc (j_children st)"
  "backupCounter (fork_backup filePath st) = backupCounter st"
  by (auto simp: fork_backup_def Let_def split: prod.splits list.splits)

lemma file_step_load:
  assumes "file_step filePath fdOut s s'"
  shows "backups_load s' \<le> backups_load s"
  using assms
proof (cases rule: file_step.cases)
  case (command st cmd rest st')
  then show ?thesis using run_command_frame(1) [OF command(6,5)] by (simp add: backups_load_def backup_state_def)
next
  case (place st rest st')
  then show ?thesis using place_load [OF place(4)] by (simp add: backups_load_def)
next
  case (fork st)
  then show ?thesis using fork_load [of filePath st] by (simp add: backups_load_def)
qed

lemma job_loop_steps:
  assumes "job_loop filePath fdOut st = Some (Inr st')"
  shows "\<exists>u rest. (file_step filePath fdOut)\<^sup>*\<^sup>* (st, False) (u, False) \<and> st' = u\<lparr>j_input := rest\<rparr>"
  using assms
proof (induction filePath fdOut st rule: job_loop.induct)
  case (1 filePath fdOut st)
  obtain cmd rest where cmd: "get_next (j_input st) = (cmd, rest)" by fastforce
  show ?case
  proof (cases "cmd = EOC")
    case True
    then have "st' = st\<lparr>j_input := rest\<rparr>"
      using "1.prems"(1) cmd by (simp add: job_loop.simps [of _ _ st])
    then show ?thesis by blast
  next
    case False
    then obtain st1 where st1: "run_command filePath fdOut cmd (st\<lparr>j_input := rest\<rparr>) = Some (Inr st1)"
      "job_loop filePath fdOut st1 = Some (Inr st')"
      using "1.prems"(1) cmd by (auto simp: job_loop.simps [of _ _ st] split: option.splits sum.splits)
    have "(file_step filePath fdOut)\<^sup>*\<^sup>* (st, False) (st1, False)"
    proof (cases "cmd = CMD_BACKUP")
      case True
      then obtain u where u: "wait_for_place (st\<lparr>j_input := rest\<rparr>) = Some u" "st1 = fork_backup filePath u"
        using st1(1) by (auto simp: run_command_def job_backup_def)
      then have "file_step filePath fdOut (st, False) (u, True)"
        using cmd True by (auto intro: file_step.place)
      moreover have "file_step filePath fdOut (u, True) (st1, False)" unfolding u(2) by (rule file_step.fork)
      ultimately show ?thesis by (meson r_into_rtranclp rtranclp.rtrancl_into_rtrancl)
    next
      case other: False
      from file_step.command [OF cmd False other st1(1)] show ?thesis by blast
    qed
    moreover obtain u inp where "(file_step filePath fdOut)\<^sup>*\<^sup>* (st1, False) (u, False)" "st' = u\<lparr>j_input := inp\<rparr>"
      using "1.IH" [OF cmd [symmetric] False st1(1) refl st1(2)] by blast
    ultimately show ?thesis using rtranclp_trans by fast
  qed
qed

text \<open>
  C31: At every point of a job file, also between the moment when a BACKUP has got its place and
  the fork that follows, the children that run, the backups that may still be started and the
  place that was got never exceed the limit given at the start; and the loop over the commands
  goes through these points only.
\<close>

theorem backups_bounded:
  "(job_loop filePath fdOut st = Some (Inr st') \<longrightarrow>
     (\<exists>u rest. (file_step filePath fdOut)\<^sup>*\<^sup>* (st, False) (u, False) \<and> st' = u\<lparr>j_input := rest\<rparr>)) \<and>
   ((file_step filePath fdOut)\<^sup>*\<^sup>* (st, False) (u, about_to_fork) \<longrightarrow>
     j_children u + unat (backupCounter u) + (if about_to_fork then 1 else 0) \<le>
       j_children st + unat (backupCounter st))"
proof (intro conjI impI)
  assume "(file_step filePath fdOut)\<^sup>*\<^sup>* (st, False) (u, about_to_fork)"
  then have "backups_load (u, about_to_fork) \<le> backups_load (st, False)"
    by (induction rule: rtranclp_induct) (auto dest: file_step_load)
  then show "j_children u + unat (backupCounter u) + (if about_to_fork then 1 else 0) \<le>
       j_children st + unat (backupCounter st)" by (simp add: backups_load_def)
qed (rule job_loop_steps)

lemma run_command_returns:
  assumes "0 < j_children st + unat (backupCounter st)"
  obtains r where "run_command filePath fdOut cmd st = Some r"
proof -
  have "\<exists>st'. wait_for_place st = Some st'"
    using assms by (auto simp: wait_for_place_def word_gt_0 unat_gt_0)
  then have "\<exists>r. run_command filePath fdOut cmd st = Some r"
    by (cases cmd) (auto simp: run_command_def job_backup_def)
  then show thesis using that by blast
qed

lemma run_command_place:
  assumes "run_command filePath fdOut cmd st = Some (Inr st')"
    and "0 < j_children st + unat (backupCounter st)" and "j_forks st = []"
  shows "0 < j_children st' + unat (backupCounter st') \<and> j_forks st' = []"
proof (cases "cmd = CMD_BACKUP")
  case True
  then have "job_backup filePath st = Some st'" using assms(1) by (simp add: run_command_def)
  from job_backup_state(2) [OF this assms(3)] show ?thesis by simp
next
  case False
  from run_command_frame(1) [OF assms(1) this] assms(2,3) show ?thesis by (simp add: backup_state_def)
qed

lemma job_file_ends:
  assumes "0 < j_children st + unat (backupCounter st)" and "j_forks st = []"
  shows "\<exists>r. job_loop filePath fdOut st = Some r"
  using assms
proof (induction filePath fdOut st rule: job_loop.induct)
  case (1 filePath fdOut st)
  obtain cmd rest where cmd: "get_next (j_input st) = (cmd, rest)" by fastforce
  show ?case
  proof (cases "cmd = EOC")
    case True
    then show ?thesis using cmd by (simp add: job_loop.simps [of _ _ st])
  next
    case False
    let ?st = "st\<lparr>j_input := rest\<rparr>"
    obtain r where r: "run_command filePath fdOut cmd ?st = Some r"
      using run_command_returns [of ?st filePath fdOut cmd] "1.prems"(1) by auto
    show ?thesis
    proof (cases r)
      case (Inl e)
      then show ?thesis using r cmd False by (simp add: job_loop.simps [of _ _ st])
    next
      case (Inr st1)
      from run_command_place [OF r [unfolded Inr]] "1.prems"
      have "0 < j_children st1 + unat (backupCounter st1)" "j_forks st1 = []" by simp_all
      from "1.IH" [OF cmd [symmetric] False r Inr this]
      show ?thesis using r Inr cmd False by (simp add: job_loop.simps [of _ _ st])
    qed
  qed
qed

subsection \<open>The locks of a file\<close>

text \<open>
  The state of a thread between two commands, when no lock call fails: it holds no lock, and has never
  asked for one that it held.
\<close>

definition lock_free :: "job \<Rightarrow> bool" where
  "lock_free st \<longleftrightarrow> (\<exists>ht. j_table st = Table ht) \<and> w_lockres (j_world st) = [] \<and>
     lock_replay [] (w_locks (j_world st)) = Some []"

lemma lock_free_input [simp]: "lock_free (st\<lparr>j_input := inp\<rparr>) = lock_free st"
  by (simp add: lock_free_def)

lemma globally_lock_free:
  assumes "globally f st = Inr st'" and "lock_free st"
    and "\<And>ht w r t w'. f (Table ht) w = Inr (r, t, w') \<Longrightarrow> w_lockres w = [] \<Longrightarrow>
      r = 0 \<and> (\<exists>ht'. t = Table ht') \<and> gives_back w w'"
  shows "lock_free st'"
proof -
  obtain ht where st: "j_table st = Table ht" "w_lockres (j_world st) = []"
    "lock_replay [] (w_locks (j_world st)) = Some []"
    using assms(2) by (auto simp: lock_free_def)
  let ?w1 = "(j_world st)\<lparr>w_locks := w_locks (j_world st) @ [RdLock GlobalHashLock]\<rparr>"
  obtain r t w2 where 1: "f (Table ht) ?w1 = Inr (r, t, w2)"
    using assms(1) st by (cases "f (Table ht) ?w1") (auto simp: globally_def)
  obtain ht' evs where 2: "r = 0" "t = Table ht'" "w_lockres w2 = []"
    "w_locks w2 = w_locks (j_world st) @ [RdLock GlobalHashLock] @ evs"
    "lock_replay [GlobalHashLock] evs = Some [GlobalHashLock]"
    using assms(3) [OF 1] st(2) by (auto simp: gives_back_def)
  have "st' = st\<lparr>j_table := Table ht', j_world := w2\<lparr>w_locks := w_locks w2 @ [Unlock GlobalHashLock]\<rparr>\<rparr>"
    using assms(1) st(1,2) 1 2(1-3) by (simp add: globally_def)
  moreover have "lock_replay [] (w_locks w2 @ [Unlock GlobalHashLock]) = Some []"
    unfolding 2(4) using st(3) 2(5) by (simp add: lock_replay_append)
  ultimately show ?thesis using 2(3) by (simp add: lock_free_def)
qed

lemma backup_lock_free:
  assumes "job_backup filePath st = Some st'" and "lock_free st"
  shows "lock_free st'"
proof -
  obtain st1 where 1: "wait_for_place st = Some st1" "st' = fork_backup filePath st1"
    using assms(1) by (auto simp: job_backup_def)
  then have "lock_free st1"
    using assms(2) by (auto simp: wait_for_place_def lock_free_def split: if_splits)
  then show ?thesis
    unfolding 1(2) by (auto simp: fork_backup_def lock_free_def lock_replay_append Let_def split: prod.splits)
qed

lemma job_write_lock_free:
  assumes "job_write st = Inr st'" and "lock_free st"
  shows "lock_free st'"
proof -
  obtain pairs rest where p: "parse_write MAX_WRITE_SIZE (j_input st) = Inr (pairs, rest)"
    using assms(1) by (cases "parse_write MAX_WRITE_SIZE (j_input st)") (auto simp: job_write_def)
  show ?thesis
  proof (cases "pairs = []")
    case True
    then show ?thesis using assms p lock_free_input [of rest st] by (simp add: job_write_def Let_def)
  next
    case False
    then have "globally (\<lambda>t w. kvs_write t (map fst pairs) (map snd pairs) w) (st\<lparr>j_input := rest\<rparr>) = Inr st'"
      using assms(1) p by (simp add: job_write_def Let_def)
    then show ?thesis
      by (rule globally_lock_free) (use assms(2) kvs_write_locks [of _ "map fst pairs" "map snd pairs"] in auto)
  qed
qed

lemma job_read_lock_free:
  assumes "job_read fdOut st = Inr st'" and "lock_free st"
  shows "lock_free st'"
proof -
  obtain keys rest where p: "parse_read_delete MAX_WRITE_SIZE (j_input st) = Inr (keys, rest)"
    using assms(1) by (cases "parse_read_delete MAX_WRITE_SIZE (j_input st)") (auto simp: job_read_def)
  show ?thesis
  proof (cases "keys = []")
    case True
    then show ?thesis using assms p lock_free_input [of rest st] by (simp add: job_read_def Let_def)
  next
    case False
    then have "globally (\<lambda>t w. bindE (kvs_read t keys fdOut w) (\<lambda>(r, w'). Inr (r, t, w'))) (st\<lparr>j_input := rest\<rparr>) = Inr st'"
      using assms(1) p by (simp add: job_read_def Let_def)
    then show ?thesis
      by (rule globally_lock_free)
        (use assms(2) kvs_read_locks [of _ keys fdOut] in \<open>auto simp: bindE_def split: sum.splits\<close>)
  qed
qed

lemma job_delete_lock_free:
  assumes "job_delete fdOut st = Inr st'" and "lock_free st"
  shows "lock_free st'"
proof -
  obtain keys rest where p: "parse_read_delete MAX_WRITE_SIZE (j_input st) = Inr (keys, rest)"
    using assms(1) by (cases "parse_read_delete MAX_WRITE_SIZE (j_input st)") (auto simp: job_delete_def)
  show ?thesis
  proof (cases "keys = []")
    case True
    then show ?thesis using assms p lock_free_input [of rest st] by (simp add: job_delete_def Let_def)
  next
    case False
    then have "globally (\<lambda>t w. kvs_delete t keys fdOut w) (st\<lparr>j_input := rest\<rparr>) = Inr st'"
      using assms(1) p by (simp add: job_delete_def Let_def)
    then show ?thesis
      by (rule globally_lock_free) (use assms(2) kvs_delete_locks [of _ keys fdOut] in auto)
  qed
qed

lemma job_show_lock_free:
  assumes "job_show fdOut st = Inr st'" and "lock_free st"
  shows "lock_free st'"
  using assms unfolding job_show_def
  by (rule globally_lock_free)
    (use kvs_show_locks [of _ fdOut] in \<open>auto simp: bindE_def split: sum.splits\<close>)

lemma job_wait_lock_free:
  assumes "job_wait fdOut st = Inr st'" and "lock_free st"
  shows "lock_free st'"
  using assms same_locks_emit [of "j_world st" fdOut waiting_line]
  by (auto simp: job_wait_def Let_def lock_free_def same_locks_def bindE_def
      split: sum.splits if_splits option.splits)

lemma run_command_lock_free:
  assumes "run_command filePath fdOut cmd st = Some (Inr st')" and "lock_free st"
  shows "lock_free st'"
  using assms
  by (cases cmd) (auto simp: run_command_def intro: job_write_lock_free job_read_lock_free job_delete_lock_free
      job_show_lock_free job_wait_lock_free backup_lock_free)

text \<open>
  C30: When no lock call fails, fork does not fail, and a backup may still be started or a child
  is running, a thread that is alone on the table reaches the end of every job file, whatever its
  text, or a fault; and in a file that it finishes it has never asked for a lock while holding it,
  so none of its lock calls waits for the thread itself.
\<close>

theorem job_file_terminates:
  assumes "0 < j_children st + unat (backupCounter st)" and "j_forks st = []"
    and "j_table st = Table ht" and "w_lockres (j_world st) = []" and "lock_replay [] (w_locks (j_world st)) = Some []"
  shows "\<exists>r. job_loop filePath fdOut st = Some r \<and>
    (\<forall>st'. r = Inr st' \<longrightarrow> lock_replay [] (w_locks (j_world st')) = Some [])"
proof -
  obtain r where r: "job_loop filePath fdOut st = Some r" using job_file_ends [OF assms(1,2)] by blast
  have "lock_free st'" if "r = Inr st'" for st'
    by (rule job_loop_invariant [OF r [unfolded that], where I = lock_free])
      (use assms(3-5) run_command_lock_free in \<open>auto simp: lock_free_def\<close>)
  then show ?thesis using r by (auto simp: lock_free_def)
qed

text \<open>
  With a limit of 0 backups and no child, a BACKUP command never returns, since the loop around
  wait repeats while wait fails.
\<close>

theorem backup_without_place_hangs:
  assumes "backupCounter st = 0" and "j_children st = 0"
  shows "job_loop filePath fdOut (st\<lparr>j_input := ''BACKUP'' @ [newline] @ rest\<rparr>) = None"
proof -
  have "get_next (''BACKUP'' @ [newline] @ rest) = (CMD_BACKUP, rest)" by (simp add: get_next_def)
  then show ?thesis
    using assms
    by (simp add: job_loop.simps [of _ _ "st\<lparr>j_input := _\<rparr>"] run_command_def job_backup_def
        wait_for_place_def)
qed
subsection \<open>What a job file means\<close>

text \<open>
  A file as a list of commands, its text, and its meaning: what the commands do to the abstract map
  and what they print.
\<close>

datatype script_cmd =
  DoWrite "(string \<times> string) list" | DoRead "string list" | DoDelete "string list" | DoWait string

fun cmd_text :: "script_cmd \<Rightarrow> string" where
  "cmd_text (DoWrite ps) = ''WRITE '' @ write_text ps"
| "cmd_text (DoRead ks) = ''READ '' @ keys_text ks"
| "cmd_text (DoDelete ks) = ''DELETE '' @ keys_text ks"
| "cmd_text (DoWait ds) = ''WAIT '' @ ds @ [newline]"

fun cmd_map :: "(string \<Rightarrow> string option) \<Rightarrow> script_cmd \<Rightarrow> (string \<Rightarrow> string option)" where
  "cmd_map m (DoWrite ps) = m ++ map_of ps"
| "cmd_map m (DoRead ks) = m"
| "cmd_map m (DoDelete ks) = (\<lambda>k. if k \<in> set ks then None else m k)"
| "cmd_map m (DoWait ds) = m"

fun cmd_out :: "(string \<Rightarrow> string option) \<Rightarrow> script_cmd \<Rightarrow> string" where
  "cmd_out m (DoWrite ps) = []"
| "cmd_out m (DoRead ks) = ''['' @ concat (map (\<lambda>k. read_line k (m k)) (sort ks)) @ '']'' @ [newline]"
| "cmd_out m (DoDelete ks) =
     (let missing = missing_keys m (sort ks) in
      if missing = [] then [] else ''['' @ concat (map missing_line missing) @ '']'' @ [newline])"
| "cmd_out m (DoWait ds) = (if decimal ds = 0 then [] else waiting_line)"

fun cmd_ok :: "script_cmd \<Rightarrow> bool" where
  "cmd_ok (DoWrite ps) \<longleftrightarrow> ps \<noteq> [] \<and> length ps < MAX_WRITE_SIZE \<and> distinct (map fst ps) \<and>
     (\<forall>(k, v) \<in> set ps. plain k \<and> plain v \<and> valid_key k)"
| "cmd_ok (DoRead ks) \<longleftrightarrow> ks \<noteq> [] \<and> length ks < MAX_WRITE_SIZE \<and> (\<forall>k \<in> set ks. plain k \<and> valid_key k)"
| "cmd_ok (DoDelete ks) \<longleftrightarrow> ks \<noteq> [] \<and> length ks < MAX_WRITE_SIZE \<and> (\<forall>k \<in> set ks. plain k \<and> valid_key k)"
| "cmd_ok (DoWait ds) \<longleftrightarrow> (\<forall>c \<in> set ds. is_digit c) \<and> length ds \<le> 15 \<and> decimal ds \<le> UINT_MAX"

fun script_map :: "(string \<Rightarrow> string option) \<Rightarrow> script_cmd list \<Rightarrow> (string \<Rightarrow> string option)" where
  "script_map m [] = m"
| "script_map m (c # cs) = script_map (cmd_map m c) cs"

fun script_out :: "(string \<Rightarrow> string option) \<Rightarrow> script_cmd list \<Rightarrow> string" where
  "script_out m [] = []"
| "script_out m (c # cs) = cmd_out m c @ script_out (cmd_map m c) cs"

definition job_ready :: "job \<Rightarrow> hash_table \<Rightarrow> int \<Rightarrow> bool" where
  "job_ready st ht fdOut \<longleftrightarrow> j_table st = Table ht \<and> sound_table ht \<and> calm (j_world st) \<and>
     healthy (j_world st) fdOut \<and> fdOut \<notin> targets ht"

text \<open>What a file leaves to the next one: the same descriptors, and no new irregular outcome.\<close>

definition same_files :: "world \<Rightarrow> world \<Rightarrow> bool" where
  "same_files w w' \<longleftrightarrow> w_open w' = w_open w \<and> w_canopen w' = w_canopen w \<and>
     w_in w' = w_in w \<and> w_rsched w' = w_rsched w \<and>
     (\<forall>g. w_wsched w g = [] \<longrightarrow> w_wsched w' g = [])"

lemma same_files_trans [trans]: "same_files w w1 \<Longrightarrow> same_files w1 w2 \<Longrightarrow> same_files w w2"
  by (simp add: same_files_def)

lemma same_files_simps [simp]:
  "same_files w w" "same_files w (w'\<lparr>w_locks := ls\<rparr>) \<longleftrightarrow> same_files w w'"
  "same_files w (w'\<lparr>w_out := out\<rparr>) \<longleftrightarrow> same_files w w'"
  by (simp_all add: same_files_def)

text \<open>A step from one command to the next.\<close>

definition job_stepped ::
  "job \<Rightarrow> hash_table \<Rightarrow> int \<Rightarrow> (string \<Rightarrow> string option) \<Rightarrow> string \<Rightarrow> string \<Rightarrow> job \<Rightarrow> bool" where
  "job_stepped st ht fdOut m out rest st' \<longleftrightarrow>
     (\<exists>ht'. job_ready st' ht' fdOut \<and> kvs_map ht' = m \<and> targets ht' \<subseteq> targets ht) \<and>
     j_input st' = rest \<and> same_files (j_world st) (j_world st') \<and>
     w_out (j_world st') fdOut = w_out (j_world st) fdOut @ out"

lemma globally_calm:
  assumes "calm w" and "j_world st = w" and "j_table st = Table ht"
    and "f (Table ht) (w\<lparr>w_locks := w_locks w @ [RdLock GlobalHashLock]\<rparr>) = Inr (0, t, w2)" and "calm w2"
  shows "globally f st = Inr (st\<lparr>j_table := t,
    j_world := w2\<lparr>w_locks := w_locks w2 @ [Unlock GlobalHashLock]\<rparr>\<rparr>)"
  using assms by (simp add: globally_def calm_def)

lemma only_writes_ready:
  assumes "only_writes S (w\<lparr>w_locks := ls\<rparr>) w'" and "calm w" and "healthy w fd"
  shows "calm w'" and "healthy w' fd" and "same_files w w'"
  using assms by (simp_all add: only_writes_def calm_def healthy_def same_files_def)

lemma job_write_step:
  assumes "job_ready st ht fdOut" and "cmd_ok (DoWrite ps)" and "j_input st = write_text ps @ rest"
  shows "\<exists>st'. job_write st = Inr st' \<and>
    job_stepped st ht fdOut (cmd_map (kvs_map ht) (DoWrite ps)) (cmd_out (kvs_map ht) (DoWrite ps)) rest st'"
proof -
  let ?w = "(j_world st)\<lparr>w_locks := w_locks (j_world st) @ [RdLock GlobalHashLock]\<rparr>"
  have ready: "j_table st = Table ht" "sound_table ht" "calm (j_world st)" "calm ?w"
    "healthy (j_world st) fdOut" "fdOut \<notin> targets ht"
    using assms(1) by (simp_all add: job_ready_def calm_def)
  have ps: "ps \<noteq> []" "length ps < MAX_WRITE_SIZE" "distinct (map fst ps)"
    "\<forall>(k, v) \<in> set ps. plain k \<and> plain v" "\<forall>k \<in> set (map fst ps). valid_key k"
    using assms(2) by auto
  obtain ht' w' where run: "kvs_write (Table ht) (map fst ps) (map snd ps) ?w = Inr (0, Table ht', w')"
    "sound_table ht'" "kvs_map ht' = kvs_map ht ++ map_of (zip (map fst ps) (map snd ps))"
    "targets ht' = targets ht" "only_writes (targets ht) (?w\<lparr>w_locks := w_locks w'\<rparr>) w'"
    using kvs_write_distinct [OF ready(2) _ ps(3,5) ready(4), of "map snd ps"] by auto
  have ow: "only_writes (targets ht) ((j_world st)\<lparr>w_locks := w_locks w'\<rparr>) w'" using run(5) by simp
  note w' = only_writes_ready [OF ow ready(3,5)]
  have "w_out w' fdOut = w_out (j_world st) fdOut"
    using only_writes_output [OF ow ready(6)] by simp
  moreover have "parse_write MAX_WRITE_SIZE (j_input st) = Inr (ps, rest)"
    using write_command_text [OF ps(1,2,4)] assms(3) by simp
  moreover have "globally (\<lambda>t w. kvs_write t (map fst ps) (map snd ps) w) (st\<lparr>j_input := rest\<rparr>) =
      Inr (st\<lparr>j_input := rest, j_table := Table ht',
        j_world := w'\<lparr>w_locks := w_locks w' @ [Unlock GlobalHashLock]\<rparr>\<rparr>)"
    using ready run w' by (subst globally_calm) simp_all
  ultimately show ?thesis
    using ps(1) run(2-4) w' ready(6)
    by (simp add: job_write_def job_stepped_def job_ready_def zip_map_fst_snd calm_def healthy_def)
qed

lemma job_read_step:
  assumes "job_ready st ht fdOut" and "cmd_ok (DoRead ks)" and "j_input st = keys_text ks @ rest"
  shows "\<exists>st'. job_read fdOut st = Inr st' \<and>
    job_stepped st ht fdOut (cmd_map (kvs_map ht) (DoRead ks)) (cmd_out (kvs_map ht) (DoRead ks)) rest st'"
proof -
  let ?w = "(j_world st)\<lparr>w_locks := w_locks (j_world st) @ [RdLock GlobalHashLock]\<rparr>"
  have ready: "j_table st = Table ht" "sound_table ht" "calm (j_world st)" "calm ?w"
    "healthy ?w fdOut" "fdOut \<notin> targets ht"
    using assms(1) by (simp_all add: job_ready_def calm_def healthy_def)
  have ks: "ks \<noteq> []" "length ks < MAX_WRITE_SIZE" "\<forall>k \<in> set ks. plain k" "\<And>k. k \<in> set ks \<Longrightarrow> valid_key k"
    using assms(2) by auto
  let ?w2 = "?w\<lparr>w_out := (w_out ?w)(fdOut := w_out ?w fdOut @ ''['' @
      concat (map (\<lambda>k. read_line k (kvs_map ht k)) (sort ks)) @ '']'' @ [newline]),
      w_locks := w_locks ?w @ acquired RdLock ks @ released ks\<rparr>"
  have run: "kvs_read (Table ht) ks fdOut ?w = Inr (0, ?w2)"
    by (rule kvs_read_run [OF ready(2) ks(4) ready(4,5)])
  have c2: "calm ?w2" "healthy ?w2 fdOut" using ready(4,5) by (simp_all add: calm_def healthy_def)
  have "parse_read_delete MAX_WRITE_SIZE (j_input st) = Inr (ks, rest)"
    using key_command_text [OF ks(1-3)] assms(3) by simp
  moreover have "globally (\<lambda>t w. bindE (kvs_read t ks fdOut w) (\<lambda>(r, w'). Inr (r, t, w')))
      (st\<lparr>j_input := rest\<rparr>) =
      Inr (st\<lparr>j_input := rest, j_table := Table ht,
        j_world := ?w2\<lparr>w_locks := w_locks ?w2 @ [Unlock GlobalHashLock]\<rparr>\<rparr>)"
    by (rule globally_calm [OF ready(3), where ht = ht]) (use ready run c2 in simp_all)
  ultimately show ?thesis
    using ks(1) ready
    by (simp add: job_read_def job_stepped_def job_ready_def calm_def healthy_def)
qed

lemma job_delete_step:
  assumes "job_ready st ht fdOut" and "cmd_ok (DoDelete ks)" and "j_input st = keys_text ks @ rest"
  shows "\<exists>st'. job_delete fdOut st = Inr st' \<and>
    job_stepped st ht fdOut (cmd_map (kvs_map ht) (DoDelete ks)) (cmd_out (kvs_map ht) (DoDelete ks)) rest st'"
proof -
  let ?w = "(j_world st)\<lparr>w_locks := w_locks (j_world st) @ [RdLock GlobalHashLock]\<rparr>"
  have ready: "j_table st = Table ht" "sound_table ht" "calm (j_world st)" "calm ?w"
    "healthy ?w fdOut" "fdOut \<notin> targets ht" "healthy (j_world st) fdOut"
    using assms(1) by (simp_all add: job_ready_def calm_def healthy_def)
  have ks: "ks \<noteq> []" "length ks < MAX_WRITE_SIZE" "\<forall>k \<in> set ks. plain k" "\<And>k. k \<in> set ks \<Longrightarrow> valid_key k"
    using assms(2) by auto
  let ?out = "cmd_out (kvs_map ht) (DoDelete ks)"
  obtain ht' w' where run: "kvs_delete (Table ht) ks fdOut ?w = Inr (0, Table ht', w')"
    "sound_table ht'" "kvs_map ht' = (\<lambda>k. if k \<in> set ks then None else kvs_map ht k)"
    "targets ht' \<subseteq> targets ht" "w_out w' fdOut = w_out ?w fdOut @ ?out"
    "only_writes (insert fdOut (targets ht)) (?w\<lparr>w_locks := w_locks w'\<rparr>) w'"
    using kvs_delete_run [of ht ks ?w fdOut, OF ready(2) ks(4) ready(4-6)] by auto
  have "only_writes (insert fdOut (targets ht)) ((j_world st)\<lparr>w_locks := w_locks w'\<rparr>) w'"
    using run(6) by simp
  note w' = only_writes_ready [OF this ready(3,7)]
  have "parse_read_delete MAX_WRITE_SIZE (j_input st) = Inr (ks, rest)"
    using key_command_text [OF ks(1-3)] assms(3) by simp
  moreover have "globally (\<lambda>t w. kvs_delete t ks fdOut w) (st\<lparr>j_input := rest\<rparr>) =
      Inr (st\<lparr>j_input := rest, j_table := Table ht',
        j_world := w'\<lparr>w_locks := w_locks w' @ [Unlock GlobalHashLock]\<rparr>\<rparr>)"
    using ready run w' by (subst globally_calm) simp_all
  ultimately show ?thesis
    using ks(1) run(2-5) w' ready(6)
    by (auto simp: job_delete_def job_stepped_def job_ready_def calm_def healthy_def)
qed
lemma job_wait_step:
  assumes "job_ready st ht fdOut" and "cmd_ok (DoWait ds)" and "j_input st = ds @ newline # rest"
  shows "\<exists>st'. job_wait fdOut st = Inr st' \<and>
    job_stepped st ht fdOut (cmd_map (kvs_map ht) (DoWait ds)) (cmd_out (kvs_map ht) (DoWait ds)) rest st'"
proof -
  have ds: "\<forall>c \<in> set ds. is_digit c" "length ds \<le> 15" "decimal ds \<le> UINT_MAX" using assms(2) by auto
  have "parse_wait False (j_input st) = Inr (0, Some (word_of_nat (decimal ds)), None, rest)"
    using wait_command_text [OF ds(1,2)] ds(3) assms(3) by simp
  moreover have "(word_of_nat (decimal ds) :: 32 word) > 0 \<longleftrightarrow> decimal ds \<noteq> 0"
  proof -
    have "unat (word_of_nat (decimal ds) :: 32 word) = decimal ds"
      using ds(3) by (simp add: unat_of_nat UINT_MAX_def)
    then show ?thesis by (metis unat_0 unat_gt_0 word_gt_0 bot_nat_0.not_eq_extremum)
  qed
  ultimately show ?thesis
    using assms(1)
    by (auto simp: job_wait_def job_stepped_def job_ready_def emit_healthy calm_def healthy_def)
qed

text \<open>The word of a command of a script.\<close>

fun cmd_word :: "script_cmd \<Rightarrow> command" where
  "cmd_word (DoWrite ps) = CMD_WRITE"
| "cmd_word (DoRead ks) = CMD_READ"
| "cmd_word (DoDelete ks) = CMD_DELETE"
| "cmd_word (DoWait ds) = CMD_WAIT"

lemma cmd_word_not_EOC [simp]: "cmd_word c \<noteq> EOC"
  by (cases c) simp_all

lemma job_cmd_run:
  assumes "job_ready st ht fdOut" and "cmd_ok c" and "j_input st = cmd_text c @ rest"
  obtains args st' where "get_next (j_input st) = (cmd_word c, args)"
    and "run_command filePath fdOut (cmd_word c) (st\<lparr>j_input := args\<rparr>) = Some (Inr st')"
    and "job_stepped st ht fdOut (cmd_map (kvs_map ht) c) (cmd_out (kvs_map ht) c) rest st'"
proof -
  obtain args where g: "get_next (j_input st) = (cmd_word c, args)" and
    step: "\<exists>st'. run_command filePath fdOut (cmd_word c) (st\<lparr>j_input := args\<rparr>) = Some (Inr st') \<and>
      job_stepped (st\<lparr>j_input := args\<rparr>) ht fdOut (cmd_map (kvs_map ht) c) (cmd_out (kvs_map ht) c) rest st'"
  proof (cases c)
    case (DoWrite ps)
    let ?st = "st\<lparr>j_input := write_text ps @ rest\<rparr>"
    have "get_next (j_input st) = (CMD_WRITE, write_text ps @ rest)"
      using assms(3) DoWrite by (simp add: get_next_def)
    moreover have "job_ready ?st ht fdOut" using assms(1) by (simp add: job_ready_def)
    ultimately show ?thesis
      using job_write_step [of ?st ht fdOut ps rest] assms(2) DoWrite that by (simp add: run_command_def)
  next
    case (DoRead ks)
    let ?st = "st\<lparr>j_input := keys_text ks @ rest\<rparr>"
    have "get_next (j_input st) = (CMD_READ, keys_text ks @ rest)"
      using assms(3) DoRead by (simp add: get_next_def)
    moreover have "job_ready ?st ht fdOut" using assms(1) by (simp add: job_ready_def)
    ultimately show ?thesis
      using job_read_step [of ?st ht fdOut ks rest] assms(2) DoRead that by (simp add: run_command_def)
  next
    case (DoDelete ks)
    let ?st = "st\<lparr>j_input := keys_text ks @ rest\<rparr>"
    have "get_next (j_input st) = (CMD_DELETE, keys_text ks @ rest)"
      using assms(3) DoDelete by (simp add: get_next_def)
    moreover have "job_ready ?st ht fdOut" using assms(1) by (simp add: job_ready_def)
    ultimately show ?thesis
      using job_delete_step [of ?st ht fdOut ks rest] assms(2) DoDelete that by (simp add: run_command_def)
  next
    case (DoWait ds)
    let ?st = "st\<lparr>j_input := ds @ newline # rest\<rparr>"
    have "get_next (j_input st) = (CMD_WAIT, ds @ newline # rest)"
      using assms(3) DoWait by (simp add: get_next_def)
    moreover have "job_ready ?st ht fdOut" using assms(1) by (simp add: job_ready_def)
    ultimately show ?thesis
      using job_wait_step [of ?st ht fdOut ds rest] assms(2) DoWait that by (simp add: run_command_def)
  qed
  then obtain st' where st': "run_command filePath fdOut (cmd_word c) (st\<lparr>j_input := args\<rparr>) = Some (Inr st')"
    "job_stepped (st\<lparr>j_input := args\<rparr>) ht fdOut (cmd_map (kvs_map ht) c) (cmd_out (kvs_map ht) c) rest st'"
    by blast
  show thesis using that [OF g st'(1)] st'(2) by (simp add: job_stepped_def)
qed

lemma job_cmd_step:
  assumes "job_ready st ht fdOut" and "cmd_ok c" and "j_input st = cmd_text c @ rest"
  shows "\<exists>st'. job_loop filePath fdOut st = job_loop filePath fdOut st' \<and>
    job_stepped st ht fdOut (cmd_map (kvs_map ht) c) (cmd_out (kvs_map ht) c) rest st'"
proof -
  obtain args st' where "get_next (j_input st) = (cmd_word c, args)"
    "run_command filePath fdOut (cmd_word c) (st\<lparr>j_input := args\<rparr>) = Some (Inr st')"
    "job_stepped st ht fdOut (cmd_map (kvs_map ht) c) (cmd_out (kvs_map ht) c) rest st'"
    by (rule job_cmd_run [OF assms])
  then show ?thesis by (auto simp: job_loop.simps [of _ _ st])
qed

lemma job_file_run:
  assumes "job_ready st ht fdOut" and "\<forall>c \<in> set cs. cmd_ok c" and "j_input st = concat (map cmd_text cs)"
  shows "\<exists>st' ht'. job_loop filePath fdOut st = Some (Inr st') \<and> job_ready st' ht' fdOut \<and>
    kvs_map ht' = script_map (kvs_map ht) cs \<and> targets ht' \<subseteq> targets ht \<and>
    same_files (j_world st) (j_world st') \<and>
    w_out (j_world st') fdOut = w_out (j_world st) fdOut @ script_out (kvs_map ht) cs"
  using assms
proof (induction cs arbitrary: st ht)
  case Nil
  then have "get_next (j_input st) = (EOC, [])" by (simp add: get_next_def)
  then have "job_loop filePath fdOut st = Some (Inr (st\<lparr>j_input := []\<rparr>))"
    by (simp add: job_loop.simps [of _ _ st])
  then show ?case using Nil by (auto simp: job_ready_def)
next
  case (Cons c cs)
  have input: "j_input st = cmd_text c @ concat (map cmd_text cs)" using Cons.prems(3) by simp
  have ok: "cmd_ok c" "\<forall>c \<in> set cs. cmd_ok c" using Cons.prems(2) by simp_all
  obtain st1 where st1: "job_loop filePath fdOut st = job_loop filePath fdOut st1"
    "job_stepped st ht fdOut (cmd_map (kvs_map ht) c) (cmd_out (kvs_map ht) c)
       (concat (map cmd_text cs)) st1"
    using job_cmd_step [OF Cons.prems(1) ok(1) input] by blast
  then obtain ht1 where ht1: "job_ready st1 ht1 fdOut" "kvs_map ht1 = cmd_map (kvs_map ht) c"
    "targets ht1 \<subseteq> targets ht" "same_files (j_world st) (j_world st1)"
    "j_input st1 = concat (map cmd_text cs)"
    "w_out (j_world st1) fdOut = w_out (j_world st) fdOut @ cmd_out (kvs_map ht) c"
    unfolding job_stepped_def by blast
  from Cons.IH [OF ht1(1) ok(2) ht1(5)] show ?case
    using st1(1) ht1(2,6) same_files_trans [OF ht1(4)] order_trans [OF _ ht1(3)] by fastforce
qed

text \<open>
  C9: For every list of WRITE, READ, DELETE and WAIT commands with fitting, valid arguments (the
  keys of one WRITE being distinct), the thread that is given the printed text of the list ends at
  the end of the file, and has done what the list means: the abstract map is the meaning of the
  commands in their order, the output file gets exactly the text they print, and the table is
  sound again. The text is the one the code prints, not the one of the example in the README.
\<close>

theorem job_file_meaning:
  assumes "job_ready st ht fdOut" and "\<forall>c \<in> set cs. cmd_ok c" and "j_input st = concat (map cmd_text cs)"
  shows "\<exists>st' ht'. job_loop filePath fdOut st = Some (Inr st') \<and> job_ready st' ht' fdOut \<and>
    kvs_map ht' = script_map (kvs_map ht) cs \<and>
    w_out (j_world st') fdOut = w_out (j_world st) fdOut @ script_out (kvs_map ht) cs"
  using job_file_run [OF assms] by blast
subsection \<open>The properties on a concrete file\<close>

definition sample_job :: "bool list \<Rightarrow> string \<Rightarrow> job" where
  "sample_job forks inp =
     \<lparr>j_table = Table sample_table, j_world = quiet_world, j_input = inp, backupCounter = 1,
      j_children = 0, fileBackups = 1, j_forks = forks, j_backups = []\<rparr>"

lemma sample_job_facts [simp]:
  "j_table (sample_job fs inp) = Table sample_table" "j_world (sample_job fs inp) = quiet_world"
  "j_input (sample_job fs inp) = inp" "backupCounter (sample_job fs inp) = 1"
  "j_children (sample_job fs inp) = 0" "j_forks (sample_job fs inp) = fs"
  by (simp_all add: sample_job_def)

lemma sample_job_ready: "job_ready (sample_job fs inp) sample_table 1"
  by (simp add: job_ready_def)

definition sample_script :: "script_cmd list" where
  "sample_script = [DoWrite [(''b'', ''2'')], DoRead [''b'', ''a''], DoDelete [''a'', ''c'']]"

theorem job_file_meaning_witness:
  "\<exists>st' ht'. job_loop ''jobs/x.job'' 1 (sample_job []
      (concat [''WRITE [(b,2)]'', [newline], ''READ [b,a]'', [newline], ''DELETE [a,c]'', [newline]])) =
      Some (Inr st') \<and>
    job_ready st' ht' 1 \<and> kvs_map ht' ''b'' = Some ''2'' \<and> kvs_map ht' ''a'' = None \<and>
    w_out (j_world st') 1 = ''[(a,1)(b,2)]'' @ [newline] @ ''[(c,KVSMISSING)]'' @ [newline]"
proof -
  let ?text = "concat [''WRITE [(b,2)]'', [newline], ''READ [b,a]'', [newline], ''DELETE [a,c]'', [newline]]"
  have input: "j_input (sample_job [] ?text) = concat (map cmd_text sample_script)"
    by (simp add: sample_script_def write_text_def keys_text_def pair_text_def)
  have ok: "\<forall>c \<in> set sample_script. cmd_ok c"
    by (auto simp: sample_script_def MAX_WRITE_SIZE_def plain_def fits_def separators_def
        MAX_STRING_SIZE_def valid_key_ConsI)
  have sorted: "sort [''b'', ''a''] = [''a'', ''b'']" "sort [''a'', ''c''] = [''a'', ''c'']" by code_simp+
  have c: "kvs_map sample_table ''c'' = None"
    by (simp add: kvs_map_def node_of_def sample_table_def hash_def char_at_def tolower_def)
  from job_file_meaning [OF sample_job_ready ok input, of "''jobs/x.job''"] obtain st' ht' where
    run: "job_loop ''jobs/x.job'' 1 (sample_job [] ?text) = Some (Inr st')" "job_ready st' ht' 1"
      "kvs_map ht' = script_map (kvs_map sample_table) sample_script"
      "w_out (j_world st') 1 = w_out quiet_world 1 @ script_out (kvs_map sample_table) sample_script"
    by auto
  have "w_out (j_world st') 1 = ''[(a,1)(b,2)]'' @ [newline] @ ''[(c,KVSMISSING)]'' @ [newline]"
    unfolding run(4)
    by (simp add: sample_script_def sorted read_line_def missing_line_def snprintf_def c Let_def)
  moreover have "kvs_map ht' ''b'' = Some ''2'' \<and> kvs_map ht' ''a'' = None"
    unfolding run(3) by (simp add: sample_script_def)
  ultimately show ?thesis using run(1,2) by blast
qed

lemma fork_backup_calm:
  assumes "j_forks st = []" and "w_lockres (j_world st) = []"
  shows "\<exists>w backups. fork_backup filePath st = st\<lparr>j_world := w, j_children := Suc (j_children st),
      fileBackups := Suc (fileBackups st), j_backups := backups\<rparr> \<and>
    w_lockres w = [] \<and> length backups = Suc (length (j_backups st))"
  using assms by (cases st) (auto simp: fork_backup_def Let_def)

lemma job_loop_backup:
  assumes "get_next (j_input st) = (CMD_BACKUP, rest)" and "wait_for_place (st\<lparr>j_input := rest\<rparr>) = Some u"
  shows "job_loop filePath fdOut st = job_loop filePath fdOut (fork_backup filePath u)"
  using assms by (simp add: job_loop.simps [of _ _ st] run_command_def job_backup_def)

lemma job_loop_end: "j_input st = [] \<Longrightarrow> job_loop filePath fdOut st = Some (Inr (st\<lparr>j_input := []\<rparr>))"
  by (simp add: job_loop.simps [of _ _ st] get_next_def)

text \<open>Two backups with a limit of one: the second waits for the child of the first.\<close>

theorem backups_bounded_witness:
  "\<exists>st' u. job_loop ''jobs/x.job'' 1 (sample_job [] (concat [''BACKUP'', [newline], ''BACKUP''])) = Some (Inr st') \<and>
    length (j_backups st') = 2 \<and> j_children st' = 1 \<and>
    (file_step ''jobs/x.job'' 1)\<^sup>*\<^sup>* (sample_job [] (concat [''BACKUP'', [newline], ''BACKUP'']), False) (u, True) \<and>
    j_children u + unat (backupCounter u) + 1 \<le> 1"
proof -
  let ?st = "sample_job [] (concat [''BACKUP'', [newline], ''BACKUP''])"
  let ?u1 = "?st\<lparr>j_input := ''BACKUP'', backupCounter := 0\<rparr>"
  obtain w1 bs1 where f1: "fork_backup ''jobs/x.job'' ?u1 = ?u1\<lparr>j_world := w1, j_children := Suc (j_children ?u1),
      fileBackups := Suc (fileBackups ?u1), j_backups := bs1\<rparr>" "w_lockres w1 = []"
    "length bs1 = Suc (length (j_backups ?u1))"
    using fork_backup_calm [of ?u1 "''jobs/x.job''"] by auto
  let ?st1 = "?u1\<lparr>j_world := w1, j_children := Suc (j_children ?u1), fileBackups := Suc (fileBackups ?u1), j_backups := bs1\<rparr>"
  let ?u2 = "?st1\<lparr>j_input := [], j_children := 0\<rparr>"
  obtain w2 bs2 where f2: "fork_backup ''jobs/x.job'' ?u2 = ?u2\<lparr>j_world := w2, j_children := Suc (j_children ?u2),
      fileBackups := Suc (fileBackups ?u2), j_backups := bs2\<rparr>"
    "length bs2 = Suc (length (j_backups ?u2))"
    using fork_backup_calm [of ?u2 "''jobs/x.job''"] f1(2) by auto
  let ?st2 = "?u2\<lparr>j_world := w2, j_children := Suc (j_children ?u2), fileBackups := Suc (fileBackups ?u2), j_backups := bs2\<rparr>"
  have next1: "get_next (j_input ?st) = (CMD_BACKUP, ''BACKUP'')" by (simp add: get_next_def)
  have next2: "get_next (j_input ?st1) = (CMD_BACKUP, [])" by (simp add: get_next_def)
  have place1: "wait_for_place (?st\<lparr>j_input := ''BACKUP''\<rparr>) = Some ?u1" by (simp add: wait_for_place_def)
  have place2: "wait_for_place (?st1\<lparr>j_input := []\<rparr>) = Some ?u2" by (simp add: wait_for_place_def)
  have last: "job_loop ''jobs/x.job'' 1 ?st2 = Some (Inr (?st2\<lparr>j_input := []\<rparr>))"
    by (rule job_loop_end) simp
  have run: "job_loop ''jobs/x.job'' 1 ?st = Some (Inr (?st2\<lparr>j_input := []\<rparr>))"
    unfolding job_loop_backup [OF next1 place1] f1(1) job_loop_backup [OF next2 place2] f2(1) last ..
  have step: "(file_step ''jobs/x.job'' 1)\<^sup>*\<^sup>* (?st, False) (?u1, True)"
    using file_step.place [OF next1 place1] by blast
  have "j_children ?u1 + unat (backupCounter ?u1) + (if True then 1 else 0) \<le> j_children ?st + unat (backupCounter ?st)"
    using backups_bounded [THEN conjunct2, rule_format, OF step] .
  moreover have "length (j_backups (?st2\<lparr>j_input := []\<rparr>)) = 2 \<and> j_children (?st2\<lparr>j_input := []\<rparr>) = 1"
    using f2(2) f1(3) by (simp add: sample_job_def)
  ultimately show ?thesis
    using run step by (intro exI [of _ "?st2\<lparr>j_input := []\<rparr>"] exI [of _ ?u1]) simp
qed

theorem job_file_terminates_witness:
  "\<exists>r. job_loop ''jobs/x.job'' 1
     (sample_job [] (concat [''BACKUP'', [newline], ''READ [a]'', [newline], ''BACKUP'', [newline]])) = Some r \<and>
     (\<forall>st'. r = Inr st' \<longrightarrow> lock_replay [] (w_locks (j_world st')) = Some [])"
  by (rule job_file_terminates [where ht = sample_table]) (simp_all add: quiet_world_def)

theorem backup_without_place_hangs_witness:
  "job_loop ''jobs/x.job'' 1
     ((sample_job [] [])\<lparr>backupCounter := 0, j_input := ''BACKUP'' @ [newline] @ ''SHOW''\<rparr>) = None"
  by (rule backup_without_place_hangs) simp_all

end
