(* ===== verification/Clients.thy ===== *)
theory Clients
  imports Operations
begin

section \<open>Sessions and subscriptions (server/operations.c, server/client.h)\<close>

text \<open>
  The clients of the server. A \<open>struct Client\<close> is an object of the heap; \<open>connectedClients\<close> is an
  array of pointers to such objects, and every session thread keeps one pointer of its own, so the
  model has the heap and addresses: an object that was freed is \<open>None\<close> and its use is a fault.
  The mutex around the array makes each of its operations atomic and is left implicit.
\<close>

record client =
  fdReq :: int
  fdResp :: int
  fdNotif :: int
  subscriptions :: "string list"

type_synonym client_ptr = "nat option"

record server =
  kvs_table :: table_ptr
  clients :: "client option list" \<comment> \<open>the objects allocated so far\<close>
  connectedClients :: "client_ptr list"

subsection \<open>The heap of client objects\<close>

definition client_at :: "server \<Rightarrow> nat \<Rightarrow> client option" where
  "client_at s p = (if p < length (clients s) then clients s ! p else None)"

definition deref_client :: "server \<Rightarrow> client_ptr \<Rightarrow> client res" where
  "deref_client s ptr =
     (case ptr of
        None \<Rightarrow> Inl NullDeref
      | Some p \<Rightarrow> (case client_at s p of None \<Rightarrow> Inl UseAfterFree | Some c \<Rightarrow> Inr c))"

definition store_client :: "server \<Rightarrow> client_ptr \<Rightarrow> client option \<Rightarrow> server" where
  "store_client s ptr c =
     (case ptr of None \<Rightarrow> s | Some p \<Rightarrow> s\<lparr>clients := (clients s)[p := c]\<rparr>)"

subsection \<open>Subscribing\<close>

text \<open>The search loop: the status of \<open>add_subscriber\<close>, the result character, the bucket.\<close>

fun subscribe_search ::
  "key_node list \<Rightarrow> string \<Rightarrow> int \<Rightarrow> world \<Rightarrow> int \<times> char \<times> key_node list \<times> world" where
  "subscribe_search [] key fd w = (0, RESULT_KEY_DOESNT_EXIST, [], w)"
| "subscribe_search (keyNode # next) key fd w =
     (if strcmp (nkey keyNode) key = 0 then
        (case add_subscriber (Some keyNode) fd w of
           (status, kn, w1) \<Rightarrow> (status, RESULT_KEY_EXISTS, the kn # next, w1))
      else (case subscribe_search next key fd w of
              (status, res, next', w1) \<Rightarrow> (status, res, keyNode # next', w1)))"

definition kvs_subscribe ::
  "string \<Rightarrow> client_ptr \<Rightarrow> server \<Rightarrow> world \<Rightarrow> (int \<times> server \<times> world) res" where
  "kvs_subscribe key ptr s w =
     bindE (deref_client s ptr) (\<lambda>client.
       if length key = 0 \<or> length key > MAX_STRING_SIZE then
         Inr (0, s, snd (write_to_resp_pipe w (fdResp client) OP_CODE_SUBSCRIBE RESULT_KEY_DOESNT_EXIST))
       else bindE (deref (kvs_table s)) (\<lambda>ht.
         let index = hash key in
         if index < 0 then Inl OutOfBounds
         else (case lock_call w (WrLock (Bucket (nat index))) of
           (r, w1) \<Rightarrow>
             if r \<noteq> 0 then Inr (- 1, s, w1)
             else (case subscribe_search (buckets ht ! nat index) key (fdNotif client) w1 of
               (subscriptionStatus, result, bucket, w2) \<Rightarrow>
                 (let s1 = s\<lparr>kvs_table := Table (ht\<lparr>buckets := (buckets ht)[nat index := bucket]\<rparr>)\<rparr>;
                      (_, w3) = lock_call w2 (Unlock (Bucket (nat index)));
                      respond = (\<lambda>s' w'.
                        (case write_to_resp_pipe w' (fdResp client) OP_CODE_SUBSCRIBE result of
                           (r', w'') \<Rightarrow> Inr (if r' = 1 then - 1 else 0, s', w'')))
                  in if subscriptionStatus = 0 then
                       (case alloc w3 of (sub_ok, w4) \<Rightarrow>
                          if \<not> sub_ok then Inr (- 1, s1, w4)
                          else (case alloc w4 of (key_ok, w5) \<Rightarrow>
                            if \<not> key_ok then Inr (- 1, s1, w5)
                            else respond
                              (store_client s1 ptr (Some (client\<lparr>subscriptions := key # subscriptions client\<rparr>)))
                              w5))
                     else respond s1 w3)))))"

text \<open>The search loop of \<open>kvs_aux_unsubscribe\<close>; a node without subscribers gives 1 as well.\<close>

fun unsubscribe_search :: "key_node list \<Rightarrow> string \<Rightarrow> int \<Rightarrow> int \<times> key_node list" where
  "unsubscribe_search [] key fd = (1, [])"
| "unsubscribe_search (keyNode # next) key fd =
     (if strcmp (nkey keyNode) key = 0 then
        (if nsubs keyNode = [] then (1, keyNode # next)
         else (case remove_subscriber keyNode fd of (r, keyNode') \<Rightarrow> (r, keyNode' # next)))
      else (case unsubscribe_search next key fd of (r, next') \<Rightarrow> (r, keyNode # next')))"

definition kvs_aux_unsubscribe ::
  "string \<Rightarrow> client_ptr \<Rightarrow> server \<Rightarrow> world \<Rightarrow> (int \<times> server \<times> world) res" where
  "kvs_aux_unsubscribe key ptr s w =
     bindE (deref (kvs_table s)) (\<lambda>ht.
       let index = hash key in
       if index < 0 then Inl OutOfBounds
       else bindE (deref_client s ptr) (\<lambda>client.
         let (_, w1) = lock_call w (WrLock (Bucket (nat index)));
             (result, bucket) = unsubscribe_search (buckets ht ! nat index) key (fdNotif client);
             (_, w2) = lock_call w1 (Unlock (Bucket (nat index)))
         in Inr (result, s\<lparr>kvs_table := Table (ht\<lparr>buckets := (buckets ht)[nat index := bucket]\<rparr>)\<rparr>, w2)))"

fun remove_subscription :: "string \<Rightarrow> string list \<Rightarrow> string list" where
  "remove_subscription key [] = []"
| "remove_subscription key (current # rest) =
     (if strcmp current key = 0 then remove_subscription key rest
      else current # remove_subscription key rest)"

definition client_remove_subscription :: "string \<Rightarrow> client_ptr \<Rightarrow> server \<Rightarrow> server res" where
  "client_remove_subscription key ptr s =
     bindE (deref_client s ptr) (\<lambda>client.
       Inr (store_client s ptr
         (Some (client\<lparr>subscriptions := remove_subscription key (subscriptions client)\<rparr>))))"

definition kvs_unsubscribe ::
  "string \<Rightarrow> client_ptr \<Rightarrow> server \<Rightarrow> world \<Rightarrow> (int \<times> server \<times> world) res" where
  "kvs_unsubscribe key ptr s w =
     bindE (deref_client s ptr) (\<lambda>client.
       if length key = 0 \<or> length key > MAX_STRING_SIZE then
         Inr (0, s, snd (write_to_resp_pipe w (fdResp client) OP_CODE_UNSUBSCRIBE (CHR 0x01)))
       else bindE (client_remove_subscription key ptr s) (\<lambda>s1.
         bindE (kvs_aux_unsubscribe key ptr s1 w) (\<lambda>(r, s2, w2).
           (let result_char = (if r \<noteq> 0 then CHR ''1'' else CHR ''0'') in
            case write_to_resp_pipe w2 (fdResp client) OP_CODE_UNSUBSCRIBE result_char of
              (r', w3) \<Rightarrow> Inr (if r' = 1 then 1 else 0, s2, w3)))))"

subsection \<open>The list of connected clients\<close>

fun add_client_from :: "nat \<Rightarrow> client_ptr list \<Rightarrow> (nat \<times> client_ptr list) option" where
  "add_client_from p [] = None"
| "add_client_from p (slot # slots) =
     (if slot = None then Some (0, Some p # slots)
      else (case add_client_from p slots of
              None \<Rightarrow> None | Some (i, slots') \<Rightarrow> Some (Suc i, slot # slots')))"

definition add_client :: "nat \<Rightarrow> server \<Rightarrow> int \<times> server" where
  "add_client p s =
     (case add_client_from p (connectedClients s) of
        None \<Rightarrow> (1, s)
      | Some (_, slots) \<Rightarrow> (0, s\<lparr>connectedClients := slots\<rparr>))"

text \<open>\<open>remove_client\<close>: the first slot whose client has these descriptors is freed and emptied.\<close>

fun remove_client_from ::
  "int \<Rightarrow> int \<Rightarrow> int \<Rightarrow> nat list \<Rightarrow> server \<Rightarrow> (int \<times> server) res" where
  "remove_client_from req resp notif [] s = Inr (1, s)"
| "remove_client_from req resp notif (i # is) s =
     (case connectedClients s ! i of
        None \<Rightarrow> remove_client_from req resp notif is s
      | Some p \<Rightarrow> bindE (deref_client s (Some p)) (\<lambda>client.
          if fdReq client = req \<and> fdResp client = resp \<and> fdNotif client = notif
          then Inr (0, (store_client s (Some p) None)
                 \<lparr>connectedClients := (connectedClients s)[i := None]\<rparr>)
          else remove_client_from req resp notif is s))"

definition remove_client :: "int \<Rightarrow> int \<Rightarrow> int \<Rightarrow> server \<Rightarrow> (int \<times> server) res" where
  "remove_client req resp notif s = remove_client_from req resp notif [0..<MAX_SESSION_COUNT] s"

subsection \<open>Connecting and disconnecting\<close>

text \<open>
  \<open>kvs_connect\<close> returns its result and the new value of \<open>*client\<close>, which is left alone by the
  early return. \<open>close\<close> of the three descriptors after a failed \<open>malloc\<close> stops at the first error.
\<close>

definition kvs_connect ::
  "string \<Rightarrow> string \<Rightarrow> string \<Rightarrow> client_ptr \<Rightarrow> server \<Rightarrow> world \<Rightarrow>
   (int \<times> client_ptr \<times> server \<times> world) res" where
  "kvs_connect req_pipe resp_pipe notif_pipe ptr s w =
     (let (fdNotifPipe, w1) = sys_open w notif_pipe;
          result1 = (if fdNotifPipe < 0 then 1 else 0 :: int);
          (fdReqPipe, w2) = sys_open w1 req_pipe;
          result2 = (if fdReqPipe < 0 then 1 else result1);
          (fdRespPipe, w3) = sys_open w2 resp_pipe
      in if fdRespPipe < 0 then Inr (1, ptr, s, w3)
         else (case alloc w3 of (ok, w4) \<Rightarrow>
           if \<not> ok then Inl NullDeref
           else
             (let p = length (clients s);
                  client = \<lparr>fdReq = fdReqPipe, fdResp = fdRespPipe, fdNotif = fdNotifPipe,
                            subscriptions = []\<rparr>;
                  (full, s1) = add_client p (s\<lparr>clients := clients s @ [Some client]\<rparr>);
                  result3 = (if full \<noteq> 0 then 1 else result2);
                  result_char = (if result3 \<noteq> 0 then CHR ''1'' else CHR ''0'');
                  (_, w5) = write_to_resp_pipe w4 fdRespPipe OP_CODE_CONNECT result_char
              in Inr (result3, Some p, s1, w5))))"

text \<open>The loop over the subscriptions that \<open>kvs_disconnect\<close> and \<open>clean_all_clients\<close> share.\<close>

definition unsubscribe_all ::
  "client_ptr \<Rightarrow> string list \<Rightarrow> server \<times> world \<Rightarrow> (server \<times> world) res" where
  "unsubscribe_all ptr =
     for_each (\<lambda>key (s, w). bindE (kvs_aux_unsubscribe key ptr s w) (\<lambda>(r, s', w'). Inr (s', w')))"

definition kvs_disconnect :: "client_ptr \<Rightarrow> server \<Rightarrow> world \<Rightarrow> (server \<times> world) res" where
  "kvs_disconnect ptr s w =
     bindE (deref_client s ptr) (\<lambda>client.
       bindE (unsubscribe_all ptr (subscriptions client) (s, w)) (\<lambda>(s1, w1).
         let s2 = store_client s1 ptr (Some (client\<lparr>subscriptions := []\<rparr>));
             (r1, w2) = sys_close w1 (fdReq client);
             (r2, w3) = sys_close w2 (fdNotif client);
             result = (if r1 < 0 \<or> r2 < 0 then CHR ''1'' else CHR ''0'');
             (_, w4) = write_to_resp_pipe w3 (fdResp client) OP_CODE_DISCONNECT result;
             (_, w5) = sys_close w4 (fdResp client)
         in bindE (remove_client (fdReq client) (fdResp client) (fdNotif client) s2)
              (\<lambda>(_, s3). Inr (s3, w5))))"

definition clean_client :: "nat \<Rightarrow> server \<times> world \<Rightarrow> (server \<times> world) res" where
  "clean_client i = (\<lambda>(s, w).
     (case connectedClients s ! i of
        None \<Rightarrow> Inr (s, w)
      | Some p \<Rightarrow> bindE (deref_client s (Some p)) (\<lambda>client.
          bindE (unsubscribe_all (Some p) (subscriptions client) (s, w)) (\<lambda>(s1, w1).
            let (_, w2) = sys_close w1 (fdReq client);
                (_, w3) = sys_close w2 (fdNotif client);
                (_, w4) = sys_close w3 (fdResp client)
            in Inr ((store_client s1 (Some p) None)
                 \<lparr>connectedClients := (connectedClients s1)[i := None]\<rparr>, w4)))))"

definition clean_all_clients :: "server \<Rightarrow> world \<Rightarrow> (server \<times> world) res" where
  "clean_all_clients s w = for_each clean_client [0..<MAX_SESSION_COUNT] (s, w)"
subsection \<open>The heap\<close>

definition live :: "server \<Rightarrow> nat \<Rightarrow> client \<Rightarrow> bool" where
  "live s p c \<longleftrightarrow> Some p \<in> set (connectedClients s) \<and> client_at s p = Some c"

lemma deref_client_Some [simp]: "client_at s p = Some c \<Longrightarrow> deref_client s (Some p) = Inr c"
  by (simp add: deref_client_def)

lemma client_at_table [simp]: "client_at (s\<lparr>kvs_table := t\<rparr>) p = client_at s p"
  by (simp add: client_at_def)

lemma live_table [simp]: "live (s\<lparr>kvs_table := t\<rparr>) p c = live s p c"
  by (simp add: live_def)

lemma client_at_store:
  "client_at (store_client s (Some p) c) q = (if q = p \<and> p < length (clients s) then c else client_at s q)"
  by (auto simp: client_at_def store_client_def)

lemma store_client_frame [simp]:
  "kvs_table (store_client s ptr c) = kvs_table s"
  "connectedClients (store_client s ptr c) = connectedClients s"
  by (simp_all add: store_client_def split: option.splits)

lemma client_at_length: "client_at s p = Some c \<Longrightarrow> p < length (clients s)"
  by (simp add: client_at_def split: if_splits)

lemma live_store:
  assumes "live s p c"
  shows "live (store_client s (Some p) (Some c')) q d \<longleftrightarrow> (if q = p then d = c' else live s q d)"
  using assms client_at_length [of s p c] by (auto simp: live_def client_at_store)

lemma live_unique: "live s p c \<Longrightarrow> live s p d \<Longrightarrow> c = d"
  by (simp add: live_def)

subsection \<open>The registration invariant\<close>

text \<open>
  The two sides of a subscription agree: a descriptor subscribed at the node of a key is the
  notification descriptor of a connected client that has the key in its own list, and no two
  connected clients share it. A list may have keys whose node is gone. The slots point to distinct
  live objects.
\<close>

definition slot_clients :: "server \<Rightarrow> (nat \<times> client) list" where
  "slot_clients s =
     concat (map (\<lambda>slot. case slot of None \<Rightarrow> []
       | Some p \<Rightarrow> (case client_at s p of None \<Rightarrow> [] | Some c \<Rightarrow> [(p, c)])) (connectedClients s))"

definition slots_ok :: "server \<Rightarrow> bool" where
  "slots_ok s \<longleftrightarrow> length (connectedClients s) = MAX_SESSION_COUNT \<and>
     distinct (filter (\<lambda>slot. slot \<noteq> None) (connectedClients s)) \<and>
     (\<forall>slot \<in> set (connectedClients s). slot \<noteq> None \<longrightarrow> client_at s (the slot) \<noteq> None) \<and>
     (\<forall>(p, c) \<in> set (slot_clients s). \<forall>(q, d) \<in> set (slot_clients s).
        fdNotif c = fdNotif d \<longrightarrow> p = q) \<and>
     (\<forall>(p, c) \<in> set (slot_clients s). \<forall>k \<in> set (subscriptions c). valid_key k)"

definition registered :: "server \<Rightarrow> hash_table \<Rightarrow> bool" where
  "registered s ht \<longleftrightarrow>
     (\<forall>n \<in> set (all_nodes ht). \<forall>fd \<in> set (nsubs n).
        \<exists>(p, c) \<in> set (slot_clients s). fdNotif c = fd \<and> nkey n \<in> set (subscriptions c))"

definition sessions_ok :: "server \<Rightarrow> bool" where
  "sessions_ok s \<longleftrightarrow>
     (case kvs_table s of Table ht \<Rightarrow> sound_table ht \<and> slots_ok s \<and> registered s ht | _ \<Rightarrow> False)"

lemma slot_clients_live [simp]: "(p, c) \<in> set (slot_clients s) \<longleftrightarrow> live s p c"
  by (fastforce simp: slot_clients_def live_def split: option.splits)

lemma slots_ok_iff:
  "slots_ok s \<longleftrightarrow> length (connectedClients s) = MAX_SESSION_COUNT \<and>
     distinct (filter (\<lambda>slot. slot \<noteq> None) (connectedClients s)) \<and>
     (\<forall>p. Some p \<in> set (connectedClients s) \<longrightarrow> (\<exists>c. live s p c)) \<and>
     (\<forall>p c q d. live s p c \<longrightarrow> live s q d \<longrightarrow> fdNotif c = fdNotif d \<longrightarrow> p = q) \<and>
     (\<forall>p c k. live s p c \<longrightarrow> k \<in> set (subscriptions c) \<longrightarrow> valid_key k)"
proof -
  have "(\<forall>slot \<in> set (connectedClients s). slot \<noteq> None \<longrightarrow> client_at s (the slot) \<noteq> None) \<longleftrightarrow>
      (\<forall>p. Some p \<in> set (connectedClients s) \<longrightarrow> (\<exists>c. live s p c))"
    by (auto simp: live_def)
  moreover have "(\<forall>(p, c) \<in> set (slot_clients s). \<forall>(q, d) \<in> set (slot_clients s).
        fdNotif c = fdNotif d \<longrightarrow> p = q) \<longleftrightarrow>
      (\<forall>p c q d. live s p c \<longrightarrow> live s q d \<longrightarrow> fdNotif c = fdNotif d \<longrightarrow> p = q)"
    by (simp only: Ball_def split_paired_All slot_clients_live case_prod_conv) blast
  moreover have "(\<forall>(p, c) \<in> set (slot_clients s). \<forall>k \<in> set (subscriptions c). valid_key k) \<longleftrightarrow>
      (\<forall>p c k. live s p c \<longrightarrow> k \<in> set (subscriptions c) \<longrightarrow> valid_key k)"
    by (simp only: Ball_def split_paired_All slot_clients_live case_prod_conv) blast
  ultimately show ?thesis unfolding slots_ok_def by blast
qed

lemma registered_iff:
  assumes "wf_table ht"
  shows "registered s ht \<longleftrightarrow>
     (\<forall>k. \<forall>fd \<in> set (subscribers ht k). \<exists>p c. live s p c \<and> fdNotif c = fd \<and> k \<in> set (subscriptions c))"
    (is "_ = ?R")
proof
  assume reg: "registered s ht"
  show ?R
  proof (intro allI ballI)
    fix k fd
    assume "fd \<in> set (subscribers ht k)"
    then obtain n where n: "node_of ht k = Some n" "fd \<in> set (nsubs n)"
      unfolding subscribers_def by (metis empty_iff list.set(1) option.case(1,2) option.exhaust)
    then have "n \<in> set (all_nodes ht)" by (simp add: all_nodes_iff [OF assms] node_of_Some)
    with n reg node_of_Some [OF n(1)]
    show "\<exists>p c. live s p c \<and> fdNotif c = fd \<and> k \<in> set (subscriptions c)"
      unfolding registered_def by fastforce
  qed
next
  assume R: ?R
  show "registered s ht"
    unfolding registered_def
  proof (intro ballI)
    fix n fd
    assume n: "n \<in> set (all_nodes ht)" "fd \<in> set (nsubs n)"
    then have "node_of ht (nkey n) = Some n" by (simp add: all_nodes_iff [OF assms])
    then have "fd \<in> set (subscribers ht (nkey n))" using n(2) by (simp add: subscribers_def)
    with R show "\<exists>(p, c) \<in> set (slot_clients s). fdNotif c = fd \<and> nkey n \<in> set (subscriptions c)"
      by fastforce
  qed
qed

lemma sessions_ok_iff:
  "kvs_table s = Table ht \<Longrightarrow> sessions_ok s \<longleftrightarrow> sound_table ht \<and> slots_ok s \<and>
     (\<forall>k. \<forall>fd \<in> set (subscribers ht k). \<exists>p c. live s p c \<and> fdNotif c = fd \<and> k \<in> set (subscriptions c))"
  by (auto simp: sessions_ok_def sound_table_def registered_iff)

lemma sessions_okE:
  assumes "sessions_ok s"
  obtains ht where "kvs_table s = Table ht" "sound_table ht" "slots_ok s"
    "\<And>k fd. fd \<in> set (subscribers ht k) \<Longrightarrow>
       \<exists>p c. live s p c \<and> fdNotif c = fd \<and> k \<in> set (subscriptions c)"
  using assms by (cases "kvs_table s") (auto simp: sessions_ok_def sound_table_def registered_iff)

lemma sessions_okI:
  assumes "kvs_table s = Table ht" and "sound_table ht" and "slots_ok s"
    and "\<And>k fd. fd \<in> set (subscribers ht k) \<Longrightarrow>
       \<exists>p c. live s p c \<and> fdNotif c = fd \<and> k \<in> set (subscriptions c)"
  shows "sessions_ok s"
  using assms by (subst sessions_ok_iff) auto

lemma slots_ok_table [simp]: "slots_ok (s\<lparr>kvs_table := t\<rparr>) \<longleftrightarrow> slots_ok s"
  by (simp add: slots_ok_iff)

lemma slots_ok_store:
  assumes "slots_ok s" and "live s p c" and "fdNotif c' = fdNotif c"
    and "\<And>k. k \<in> set (subscriptions c') \<Longrightarrow> valid_key k"
  shows "slots_ok (store_client (s\<lparr>kvs_table := t\<rparr>) (Some p) (Some c'))"
proof -
  have l: "live (store_client (s\<lparr>kvs_table := t\<rparr>) (Some p) (Some c')) q d \<longleftrightarrow>
      (if q = p then d = c' else live s q d)" for q d
    using live_store [of "s\<lparr>kvs_table := t\<rparr>" p c] assms(2) by simp
  have old: "length (connectedClients s) = MAX_SESSION_COUNT"
    "distinct (filter (\<lambda>slot. slot \<noteq> None) (connectedClients s))"
    "\<And>q. Some q \<in> set (connectedClients s) \<Longrightarrow> \<exists>d. live s q d"
    "\<And>q d r e. live s q d \<Longrightarrow> live s r e \<Longrightarrow> fdNotif d = fdNotif e \<Longrightarrow> q = r"
    "\<And>q d k. live s q d \<Longrightarrow> k \<in> set (subscriptions d) \<Longrightarrow> valid_key k"
    using assms(1) unfolding slots_ok_iff by blast+
  have distinct_notif: "q = r"
    if "if q = p then d = c' else live s q d" "if r = p then e = c' else live s r e"
      "fdNotif d = fdNotif e" for q d r e
  proof -
    have "live s q (if q = p then c else d)" "live s r (if r = p then c else e)"
      using that(1,2) assms(2) by presburger+
    moreover have "fdNotif (if q = p then c else d) = fdNotif (if r = p then c else e)"
      using that assms(3) by presburger
    ultimately show "q = r" by (rule old(4))
  qed
  have valid: "valid_key k"
    if "if q = p then d = c' else live s q d" "k \<in> set (subscriptions d)" for q d k
    using old(5) [of q d k] assms(4) [of k] that by presburger
  show ?thesis
    unfolding slots_ok_iff l store_client_frame
    by (intro conjI allI impI;
        (erule (2) distinct_notif | erule (1) valid | use old(1-3) in auto))
qed
subsection \<open>Subscribing and unsubscribing\<close>

lemma valid_key_nonempty: "valid_key k \<Longrightarrow> k \<noteq> []"
  by (auto simp: valid_key_def hash_def tolower_def char_at_def)

lemma subscribe_search_eq:
  assumes "distinct (map nkey b)" and "w_allocs w = []"
  shows "subscribe_search b k fd w =
    (case bucket_map b k of
       None \<Rightarrow> (0, RESULT_KEY_DOESNT_EXIST, b, w)
     | Some n \<Rightarrow> (if fd \<in> set (nsubs n) then 1 else 0, RESULT_KEY_EXISTS,
         set_node k (\<lambda>n. if fd \<in> set (nsubs n) then n else n\<lparr>nsubs := nsubs n @ [fd]\<rparr>) b, w))"
  using assms(1)
proof (induction b)
  case Nil
  then show ?case by simp
next
  case (Cons m b)
  have al: "alloc w = (True, w)" using assms(2) by (simp add: alloc_def)
  show ?case
  proof (cases "nkey m = k")
    case True
    then have "k \<notin> nkey ` set b" using Cons.prems by auto
    then show ?thesis
      using True al set_node_absent by (simp add: add_subscriber_def set_node_def)
  next
    case False
    then show ?thesis using Cons by (auto simp: set_node_def split: option.splits)
  qed
qed

lemma unsubscribe_search_eq:
  assumes "distinct (map nkey b)"
  shows "unsubscribe_search b k fd =
    (case bucket_map b k of
       None \<Rightarrow> (1, b)
     | Some n \<Rightarrow> (if fd \<in> set (nsubs n) then 0 else 1,
         set_node k (\<lambda>n. n\<lparr>nsubs := remove1 fd (nsubs n)\<rparr>) b))"
  using assms
proof (induction b)
  case Nil
  then show ?case by simp
next
  case (Cons m b)
  show ?case
  proof (cases "nkey m = k")
    case True
    then have "k \<notin> nkey ` set b" using Cons.prems by auto
    then show ?thesis
      using True set_node_absent
      by (simp add: remove_subscriber_def remove_first_eq set_node_def remove1_idem)
  next
    case False
    then show ?thesis using Cons by (auto simp: set_node_def split: option.splits)
  qed
qed

lemma keeps_pair_subs [simp]:
  "keeps_pair (\<lambda>n. if fd \<in> set (nsubs n) then n else n\<lparr>nsubs := nsubs n @ [fd]\<rparr>)"
  "keeps_pair (\<lambda>n. n\<lparr>nsubs := remove1 fd (nsubs n)\<rparr>)"
  by (auto simp: keeps_pair_def)

definition lock_pair :: "string \<Rightarrow> lock_event list" where
  "lock_pair key = [WrLock (Bucket (bucket_of key)), Unlock (Bucket (bucket_of key))]"

definition unsubscribed :: "int \<Rightarrow> string \<Rightarrow> hash_table \<Rightarrow> hash_table" where
  "unsubscribed fd key ht = modify_node ht key (\<lambda>n. n\<lparr>nsubs := remove1 fd (nsubs n)\<rparr>)"

lemma unsubscribed:
  assumes "valid_key key" and "sound_table ht"
  shows "sound_table (unsubscribed fd key ht)"
    and "kvs_map (unsubscribed fd key ht) = kvs_map ht"
    and "subscribers (unsubscribed fd key ht) =
      (subscribers ht)(key := removeAll fd (subscribers ht key))"
proof -
  have wf: "wf_table ht" using assms(2) by (simp add: sound_table_def)
  note m = modify_node [OF keeps_pair_subs(2) assms(1) wf, of fd]
  show "sound_table (unsubscribed fd key ht)"
    unfolding unsubscribed_def by (rule modify_node_sound [OF keeps_pair_subs(2) assms])
  show "kvs_map (unsubscribed fd key ht) = kvs_map ht" unfolding unsubscribed_def by (rule m(3))
  show "subscribers (unsubscribed fd key ht) =
      (subscribers ht)(key := removeAll fd (subscribers ht key))"
    unfolding unsubscribed_def m(4)
    using wf_node [OF wf, of key]
    by (auto simp: subscribers_def fun_eq_iff distinct_remove1_removeAll split: option.splits)
qed

lemma kvs_aux_unsubscribe_eq:
  assumes "kvs_table s = Table ht" and "sound_table ht" and "valid_key key"
    and "client_at s p = Some c" and "calm w"
  shows "kvs_aux_unsubscribe key (Some p) s w =
    Inr (if fdNotif c \<in> set (subscribers ht key) then 0 else 1,
      s\<lparr>kvs_table := Table (unsubscribed (fdNotif c) key ht)\<rparr>,
      w\<lparr>w_locks := w_locks w @ lock_pair key\<rparr>)"
proof -
  have wf: "wf_table ht" using assms(2) by (simp add: sound_table_def)
  have d: "distinct (map nkey (buckets ht ! nat (hash key)))"
    using wf_table_bucket [OF wf assms(3)] by (simp add: wf_bucket_def)
  have same: "set_node key f (buckets ht ! nat (hash key)) = buckets ht ! nat (hash key)"
    if "node_of ht key = None" for f
    using that by (intro set_node_absent) (simp add: node_of_bucket [OF assms(3)] bucket_map_None)
  have res: "w_lockres w = []" using assms(5) by (simp add: calm_def)
  show ?thesis
    unfolding kvs_aux_unsubscribe_def
    using assms res same
    by (auto simp: deref_def Let_def unsubscribe_search_eq [OF d] node_of_bucket [OF assms(3)]
        subscribers_def unsubscribed_def modify_node_def lock_pair_def bucket_of_def
        split: option.splits)
qed

lemma remove_subscription_eq: "remove_subscription key ks = filter (\<lambda>k. k \<noteq> key) ks"
  by (induction ks) auto
definition subscribed :: "int \<Rightarrow> string \<Rightarrow> hash_table \<Rightarrow> hash_table" where
  "subscribed fd key ht =
     modify_node ht key (\<lambda>n. if fd \<in> set (nsubs n) then n else n\<lparr>nsubs := nsubs n @ [fd]\<rparr>)"

lemma subscribed:
  assumes "valid_key key" and "sound_table ht"
  shows "sound_table (subscribed fd key ht)"
    and "kvs_map (subscribed fd key ht) = kvs_map ht"
    and "subscribers (subscribed fd key ht) =
      (if node_of ht key = None \<or> fd \<in> set (subscribers ht key) then subscribers ht
       else (subscribers ht)(key := subscribers ht key @ [fd]))"
proof -
  have wf: "wf_table ht" using assms(2) by (simp add: sound_table_def)
  note m = modify_node [OF keeps_pair_subs(1) assms(1) wf, of fd]
  show "sound_table (subscribed fd key ht)"
    unfolding subscribed_def by (rule modify_node_sound [OF keeps_pair_subs(1) assms])
  show "kvs_map (subscribed fd key ht) = kvs_map ht" unfolding subscribed_def by (rule m(3))
  show "subscribers (subscribed fd key ht) =
      (if node_of ht key = None \<or> fd \<in> set (subscribers ht key) then subscribers ht
       else (subscribers ht)(key := subscribers ht key @ [fd]))"
    unfolding subscribed_def m(4) by (auto simp: subscribers_def fun_eq_iff split: option.splits)
qed

lemma kvs_subscribe_eq:
  assumes "kvs_table s = Table ht" and "sound_table ht" and "valid_key key"
    and "length key \<le> MAX_STRING_SIZE" and "client_at s p = Some c" and "calm w"
    and "healthy w (fdResp c)"
  shows "kvs_subscribe key (Some p) s w =
    (let known = node_of ht key \<noteq> None;
         s1 = s\<lparr>kvs_table := Table (subscribed (fdNotif c) key ht)\<rparr>
     in Inr (0,
       if fdNotif c \<in> set (subscribers ht key) then s1
       else store_client s1 (Some p) (Some (c\<lparr>subscriptions := key # subscriptions c\<rparr>)),
       w\<lparr>w_locks := w_locks w @ lock_pair key,
         w_out := (w_out w)(fdResp c := w_out w (fdResp c) @
           [OP_CODE_SUBSCRIBE, if known then RESULT_KEY_EXISTS else RESULT_KEY_DOESNT_EXIST])\<rparr>))"
proof -
  have wf: "wf_table ht" using assms(2) by (simp add: sound_table_def)
  have d: "distinct (map nkey (buckets ht ! nat (hash key)))"
    using wf_table_bucket [OF wf assms(3)] by (simp add: wf_bucket_def)
  have same: "set_node key f (buckets ht ! nat (hash key)) = buckets ht ! nat (hash key)"
    if "node_of ht key = None" for f
    using that by (intro set_node_absent) (simp add: node_of_bucket [OF assms(3)] bucket_map_None)
  have res: "w_lockres w = []" and al: "w_allocs w = []" using assms(6) by (simp_all add: calm_def)
  let ?w1 = "w\<lparr>w_locks := w_locks w @ [WrLock (Bucket (nat (hash key)))]\<rparr>"
  let ?w2 = "w\<lparr>w_locks := w_locks w @ lock_pair key\<rparr>"
  have search: "subscribe_search (buckets ht ! nat (hash key)) key (fdNotif c) ?w1 =
    (case node_of ht key of
       None \<Rightarrow> (0, RESULT_KEY_DOESNT_EXIST, buckets ht ! nat (hash key), ?w1)
     | Some n \<Rightarrow> (if fdNotif c \<in> set (nsubs n) then 1 else 0, RESULT_KEY_EXISTS,
         set_node key (\<lambda>n. if fdNotif c \<in> set (nsubs n) then n
           else n\<lparr>nsubs := nsubs n @ [fdNotif c]\<rparr>) (buckets ht ! nat (hash key)), ?w1))"
    unfolding node_of_bucket [OF assms(3)] by (rule subscribe_search_eq [OF d]) (simp add: al)
  have h: "healthy ?w2 (fdResp c)" using assms(7) by (simp add: healthy_def)
  have al2: "alloc ?w2 = (True, ?w2)" using al by (simp add: alloc_def)
  have w2: "?w1\<lparr>w_locks := w_locks ?w1 @ [Unlock (Bucket (nat (hash key)))]\<rparr> = ?w2"
    by (simp add: lock_pair_def bucket_of_def)
  have ne: "key \<noteq> []" using assms(3) by (rule valid_key_nonempty)
  have sub: "subscribed (fdNotif c) key ht = ht\<lparr>buckets := (buckets ht)[nat (hash key) :=
      set_node key (\<lambda>n. if fdNotif c \<in> set (nsubs n) then n
        else n\<lparr>nsubs := nsubs n @ [fdNotif c]\<rparr>) (buckets ht ! nat (hash key))]\<rparr>"
    by (simp only: subscribed_def modify_node_def)
  show ?thesis
    unfolding kvs_subscribe_def
    using assms(1,3-5) res same ne
    by (auto simp: deref_def Let_def search sub subscribers_def lock_pair_def bucket_of_def
        al2 [unfolded lock_pair_def bucket_of_def]
        write_to_resp_pipe_healthy [OF h [unfolded lock_pair_def bucket_of_def]]
        split: option.splits)
qed
lemma kvs_subscribe_run:
  assumes "sessions_ok s" and "kvs_table s = Table ht" and "live s p c" and "valid_key key"
    and "length key \<le> MAX_STRING_SIZE" and "calm w" and "healthy w (fdResp c)"
  shows "\<exists>s' ht' ks. kvs_subscribe key (Some p) s w = Inr (0, s',
      w\<lparr>w_locks := w_locks w @ lock_pair key,
        w_out := (w_out w)(fdResp c := w_out w (fdResp c) @
          [OP_CODE_SUBSCRIBE, if node_of ht key = None then RESULT_KEY_DOESNT_EXIST
                              else RESULT_KEY_EXISTS])\<rparr>) \<and>
    sessions_ok s' \<and> kvs_table s' = Table ht' \<and> kvs_map ht' = kvs_map ht \<and>
    subscribers ht' =
      (if node_of ht key = None \<or> fdNotif c \<in> set (subscribers ht key) then subscribers ht
       else (subscribers ht)(key := subscribers ht key @ [fdNotif c])) \<and>
    live s' p (c\<lparr>subscriptions := ks\<rparr>) \<and> key \<in> set ks"
proof -
  obtain sound: "sound_table ht" and slots: "slots_ok s" and
    reg: "\<And>k fd. fd \<in> set (subscribers ht k) \<Longrightarrow>
      \<exists>p c. live s p c \<and> fdNotif c = fd \<and> k \<in> set (subscriptions c)"
    using assms(1,2) by (auto elim!: sessions_okE)
  have at: "client_at s p = Some c" using assms(3) by (simp add: live_def)
  have slots': "\<And>k q d. live s q d \<Longrightarrow> k \<in> set (subscriptions d) \<Longrightarrow> valid_key k"
    "\<And>q d. live s q d \<Longrightarrow> fdNotif d = fdNotif c \<Longrightarrow> q = p"
    using slots assms(3) unfolding slots_ok_iff by blast+
  note run = kvs_subscribe_eq [OF assms(2) sound assms(4,5) at assms(6,7)]
  note sub = subscribed [OF assms(4) sound, of "fdNotif c"]
  let ?ht = "subscribed (fdNotif c) key ht"
  let ?s1 = "s\<lparr>kvs_table := Table ?ht\<rparr>"
  show ?thesis
  proof (cases "fdNotif c \<in> set (subscribers ht key)")
    case True
    have "subscribers ?ht = subscribers ht" using sub(3) True by simp
    then have "sessions_ok ?s1"
      using reg by (intro sessions_okI [of _ ?ht]) (simp_all add: sub(1) slots)
    moreover have "key \<in> set (subscriptions c)"
      using reg [OF True] slots'(2) live_unique assms(3) by blast
    ultimately show ?thesis
      using run True sub(2,3) assms(3)
      by (intro exI [of _ ?s1] exI [of _ ?ht] exI [of _ "subscriptions c"]) (simp add: Let_def)
  next
    case False
    let ?c = "c\<lparr>subscriptions := key # subscriptions c\<rparr>"
    let ?s2 = "store_client ?s1 (Some p) (Some ?c)"
    have l: "live ?s2 q d \<longleftrightarrow> (if q = p then d = ?c else live s q d)" for q d
      using live_store [of ?s1 p c] assms(3) by simp
    have "slots_ok ?s2"
      by (rule slots_ok_store [OF slots assms(3)]) (use slots'(1) assms(3,4) in auto)
    moreover have "\<exists>q d. live ?s2 q d \<and> fdNotif d = fd \<and> k \<in> set (subscriptions d)"
      if "fd \<in> set (subscribers ?ht k)" for k fd
    proof (cases "fd \<in> set (subscribers ht k)")
      case True
      then obtain q d where qd: "live s q d" "fdNotif d = fd" "k \<in> set (subscriptions d)"
        using reg by blast
      show ?thesis
      proof (cases "q = p")
        case True
        then have "d = c" using qd(1) assms(3) live_unique by blast
        moreover have "live ?s2 p ?c" by (simp add: l)
        ultimately show ?thesis using qd by (intro exI [of _ p] exI [of _ ?c]) simp
      next
        case False
        then have "live ?s2 q d" using qd(1) by (simp add: l)
        with qd show ?thesis by (intro exI [of _ q] exI [of _ d]) simp
      qed
    next
      case new: False
      then have "k = key \<and> fd = fdNotif c" using that by (auto simp: sub(3) split: if_splits)
      moreover have "live ?s2 p ?c" by (simp add: l)
      ultimately show ?thesis by (intro exI [of _ p] exI [of _ ?c]) simp
    qed
    ultimately have "sessions_ok ?s2" by (intro sessions_okI [of _ ?ht]) (simp_all add: sub(1))
    then show ?thesis
      using run False sub(2,3)
      by (intro exI [of _ ?s2] exI [of _ ?ht] exI [of _ "key # subscriptions c"])
        (simp add: Let_def l)
  qed
qed

text \<open>
  C16: A subscription to a valid key by a connected client answers whether the key exists, adds
  the notification descriptor of the client at the end of the subscribers of the key exactly when
  the key exists and the client was not among them, records the key in the list of the client,
  leaves the pairs alone and keeps the registration invariant.
\<close>

theorem kvs_subscribe_correct:
  assumes "sessions_ok s" and "kvs_table s = Table ht" and "live s p c" and "valid_key key"
    and "length key \<le> MAX_STRING_SIZE" and "calm w" and "healthy w (fdResp c)"
  shows "\<exists>s' ht' ks. kvs_subscribe key (Some p) s w = Inr (0, s',
      w\<lparr>w_locks := w_locks w @ lock_pair key,
        w_out := (w_out w)(fdResp c := w_out w (fdResp c) @
          [OP_CODE_SUBSCRIBE, if node_of ht key = None then RESULT_KEY_DOESNT_EXIST
                              else RESULT_KEY_EXISTS])\<rparr>) \<and>
    sessions_ok s' \<and> kvs_table s' = Table ht' \<and> kvs_map ht' = kvs_map ht \<and>
    subscribers ht' =
      (if node_of ht key = None \<or> fdNotif c \<in> set (subscribers ht key) then subscribers ht
       else (subscribers ht)(key := subscribers ht key @ [fdNotif c])) \<and>
    live s' p (c\<lparr>subscriptions := ks\<rparr>) \<and> key \<in> set ks"
  using assms by (rule kvs_subscribe_run)

lemma store_client_commute:
  "(store_client s (Some p) c)\<lparr>kvs_table := t\<rparr> = store_client (s\<lparr>kvs_table := t\<rparr>) (Some p) c"
  by (simp add: store_client_def)

lemma kvs_unsubscribe_eq:
  assumes "kvs_table s = Table ht" and "sound_table ht" and "valid_key key"
    and "length key \<le> MAX_STRING_SIZE" and "client_at s p = Some c" and "calm w"
    and "healthy w (fdResp c)"
  shows "kvs_unsubscribe key (Some p) s w = Inr (0,
      store_client (s\<lparr>kvs_table := Table (unsubscribed (fdNotif c) key ht)\<rparr>) (Some p)
        (Some (c\<lparr>subscriptions := remove_subscription key (subscriptions c)\<rparr>)),
      w\<lparr>w_locks := w_locks w @ lock_pair key,
        w_out := (w_out w)(fdResp c := w_out w (fdResp c) @
          [OP_CODE_UNSUBSCRIBE, if fdNotif c \<in> set (subscribers ht key) then CHR ''0'' else CHR ''1''])\<rparr>)"
proof -
  let ?c = "c\<lparr>subscriptions := remove_subscription key (subscriptions c)\<rparr>"
  let ?s1 = "store_client s (Some p) (Some ?c)"
  have at: "client_at ?s1 p = Some ?c" using client_at_length [OF assms(5)] by (simp add: client_at_store)
  have table: "kvs_table ?s1 = Table ht" using assms(1) by simp
  have h: "healthy (w\<lparr>w_locks := w_locks w @ lock_pair key\<rparr>) (fdResp c)" using assms(7) by (simp add: healthy_def)
  show ?thesis
    using kvs_aux_unsubscribe_eq [OF table assms(2,3) at assms(6)] assms(4,5) valid_key_nonempty [OF assms(3)]
    by (simp add: kvs_unsubscribe_def client_remove_subscription_def store_client_commute
        write_to_resp_pipe_healthy [OF h])
qed

lemma kvs_unsubscribe_run:
  assumes "sessions_ok s" and "kvs_table s = Table ht" and "live s p c" and "valid_key key"
    and "length key \<le> MAX_STRING_SIZE" and "calm w" and "healthy w (fdResp c)"
  shows "\<exists>s' ht' ks. kvs_unsubscribe key (Some p) s w = Inr (0, s',
      w\<lparr>w_locks := w_locks w @ lock_pair key,
        w_out := (w_out w)(fdResp c := w_out w (fdResp c) @
          [OP_CODE_UNSUBSCRIBE, if fdNotif c \<in> set (subscribers ht key) then CHR ''0'' else CHR ''1''])\<rparr>) \<and>
    sessions_ok s' \<and> kvs_table s' = Table ht' \<and> kvs_map ht' = kvs_map ht \<and>
    subscribers ht' = (subscribers ht)(key := removeAll (fdNotif c) (subscribers ht key)) \<and>
    live s' p (c\<lparr>subscriptions := ks\<rparr>) \<and> key \<notin> set ks"
proof -
  obtain sound: "sound_table ht" and slots: "slots_ok s" and
    reg: "\<And>k fd. fd \<in> set (subscribers ht k) \<Longrightarrow>
      \<exists>p c. live s p c \<and> fdNotif c = fd \<and> k \<in> set (subscriptions c)"
    using assms(1,2) by (auto elim!: sessions_okE)
  have at: "client_at s p = Some c" using assms(3) by (simp add: live_def)
  let ?c = "c\<lparr>subscriptions := remove_subscription key (subscriptions c)\<rparr>"
  let ?ht = "unsubscribed (fdNotif c) key ht"
  let ?s2 = "store_client (s\<lparr>kvs_table := Table ?ht\<rparr>) (Some p) (Some ?c)"
  note un = unsubscribed [OF assms(4) sound, of "fdNotif c"]
  note run = kvs_unsubscribe_eq [OF assms(2) sound assms(4,5) at assms(6,7)]
  have l: "live ?s2 q d \<longleftrightarrow> (if q = p then d = ?c else live s q d)" for q d
    using live_store [of "s\<lparr>kvs_table := Table ?ht\<rparr>" p c] assms(3) by simp
  have valid: "\<And>k. k \<in> set (subscriptions c) \<Longrightarrow> valid_key k"
    using slots assms(3) unfolding slots_ok_iff by blast
  have "slots_ok ?s2"
    by (rule slots_ok_store [OF slots assms(3)]) (auto simp: remove_subscription_eq valid)
  moreover have "\<exists>q d. live ?s2 q d \<and> fdNotif d = fd \<and> k \<in> set (subscriptions d)"
    if "fd \<in> set (subscribers ?ht k)" for k fd
  proof -
    have fd: "fd \<in> set (subscribers ht k)" "k = key \<Longrightarrow> fd \<noteq> fdNotif c"
      using that by (auto simp: un(3) split: if_splits)
    then obtain q d where qd: "live s q d" "fdNotif d = fd" "k \<in> set (subscriptions d)"
      using reg by blast
    show ?thesis
    proof (cases "q = p")
      case True
      then have d: "d = c" using qd(1) assms(3) live_unique by blast
      then have "k \<in> set (subscriptions ?c)" using qd fd(2) by (auto simp: remove_subscription_eq)
      moreover have "live ?s2 p ?c" by (simp add: l)
      ultimately show ?thesis using qd(2) d by (intro exI [of _ p] exI [of _ ?c]) simp
    next
      case False
      then have "live ?s2 q d" using qd(1) by (simp add: l)
      with qd show ?thesis by blast
    qed
  qed
  ultimately have "sessions_ok ?s2" by (intro sessions_okI [of _ ?ht]) (simp_all add: un(1))
  moreover have "live ?s2 p ?c" by (simp add: l)
  moreover have "key \<notin> set (subscriptions ?c)" by (simp add: remove_subscription_eq)
  ultimately show ?thesis
    using run un(2,3) by (intro exI [of _ ?s2] exI [of _ ?ht] exI [of _ "subscriptions ?c"]) simp
qed


subsection \<open>Leaving\<close>

lemma unsubscribe_all_eq:
  assumes "kvs_table s = Table ht" and "sound_table ht" and "\<And>k. k \<in> set keys \<Longrightarrow> valid_key k"
    and "client_at s p = Some c" and "calm w"
  shows "\<exists>ht'. unsubscribe_all (Some p) keys (s, w) =
      Inr (s\<lparr>kvs_table := Table ht'\<rparr>, w\<lparr>w_locks := w_locks w @ concat (map lock_pair keys)\<rparr>) \<and>
    sound_table ht' \<and> kvs_map ht' = kvs_map ht \<and>
    subscribers ht' = (\<lambda>k. if k \<in> set keys then removeAll (fdNotif c) (subscribers ht k)
                           else subscribers ht k)"
  using assms
proof (induction keys arbitrary: s ht w)
  case Nil
  then show ?case by (intro exI [of _ ht]) (simp add: unsubscribe_all_def)
next
  case (Cons k keys)
  let ?ht1 = "unsubscribed (fdNotif c) k ht"
  let ?s1 = "s\<lparr>kvs_table := Table ?ht1\<rparr>"
  let ?w1 = "w\<lparr>w_locks := w_locks w @ lock_pair k\<rparr>"
  have k: "valid_key k" using Cons.prems(3) by simp
  note un = unsubscribed [OF k Cons.prems(2), of "fdNotif c"]
  have "\<exists>ht'. unsubscribe_all (Some p) keys (?s1, ?w1) =
      Inr (?s1\<lparr>kvs_table := Table ht'\<rparr>, ?w1\<lparr>w_locks := w_locks ?w1 @ concat (map lock_pair keys)\<rparr>) \<and>
    sound_table ht' \<and> kvs_map ht' = kvs_map ?ht1 \<and>
    subscribers ht' = (\<lambda>k. if k \<in> set keys then removeAll (fdNotif c) (subscribers ?ht1 k)
                           else subscribers ?ht1 k)"
    using Cons.prems un(1) by (intro Cons.IH) (auto simp: calm_def)
  then obtain ht' where ht': "unsubscribe_all (Some p) keys (?s1, ?w1) =
      Inr (?s1\<lparr>kvs_table := Table ht'\<rparr>, ?w1\<lparr>w_locks := w_locks ?w1 @ concat (map lock_pair keys)\<rparr>)"
    "sound_table ht'" "kvs_map ht' = kvs_map ?ht1"
    "subscribers ht' = (\<lambda>k. if k \<in> set keys then removeAll (fdNotif c) (subscribers ?ht1 k)
                           else subscribers ?ht1 k)" by blast
  moreover have "unsubscribe_all (Some p) (k # keys) (s, w) = unsubscribe_all (Some p) keys (?s1, ?w1)"
    using kvs_aux_unsubscribe_eq [OF Cons.prems(1,2) k Cons.prems(4,5)]
    by (simp add: unsubscribe_all_def)
  ultimately show ?case
    by (intro exI [of _ ht']) (auto simp: un(2,3) fun_eq_iff)
qed
definition dropped :: "nat \<Rightarrow> nat \<Rightarrow> server \<Rightarrow> server" where
  "dropped i p s =
     (store_client s (Some p) None)\<lparr>connectedClients := (connectedClients s)[i := None]\<rparr>"

lemma drop_slot:
  assumes "distinct (filter (\<lambda>slot. slot \<noteq> None) xs)" and "i < length xs" and "xs ! i = Some p"
  shows "distinct (filter (\<lambda>slot. slot \<noteq> None) (xs[i := None]))"
    and "Some q \<in> set (xs[i := None]) \<longleftrightarrow> q \<noteq> p \<and> Some q \<in> set xs"
proof -
  have "distinct (filter (\<lambda>slot. slot \<noteq> None) (xs[i := None])) \<and>
      (Some q \<in> set (xs[i := None]) \<longleftrightarrow> q \<noteq> p \<and> Some q \<in> set xs)"
    using assms
  proof (induction xs arbitrary: i)
    case Nil
    then show ?case by simp
  next
    case (Cons x xs)
    show ?case
    proof (cases i)
      case 0
      with Cons.prems show ?thesis by (cases x) auto
    next
      case (Suc j)
      then have j: "j < length xs" "xs ! j = Some p" using Cons.prems by simp_all
      have "distinct (filter (\<lambda>slot. slot \<noteq> None) xs)" using Cons.prems(1) by (auto split: if_splits)
      note IH = Cons.IH [OF this j]
      have p: "Some p \<in> set xs" using j by (metis nth_mem)
      have "x \<noteq> Some p" using Cons.prems(1) p by auto
      moreover have "x \<notin> set (filter (\<lambda>slot. slot \<noteq> None) (xs[j := None]))"
      proof
        assume "x \<in> set (filter (\<lambda>slot. slot \<noteq> None) (xs[j := None]))"
        then have "x \<noteq> None" "x \<in> set xs"
          using set_update_subset_insert [of xs j None] by auto
        then show False using Cons.prems(1) by auto
      qed
      ultimately show ?thesis using IH Suc by auto
    qed
  qed
  then show "distinct (filter (\<lambda>slot. slot \<noteq> None) (xs[i := None]))"
    "Some q \<in> set (xs[i := None]) \<longleftrightarrow> q \<noteq> p \<and> Some q \<in> set xs" by simp_all
qed

lemma dropped:
  assumes "slots_ok s" and "i < MAX_SESSION_COUNT" and "connectedClients s ! i = Some p"
  shows "live (dropped i p s) q d \<longleftrightarrow> q \<noteq> p \<and> live s q d"
    and "slots_ok (dropped i p s)"
    and "kvs_table (dropped i p s) = kvs_table s"
    and "client_at (dropped i p s) p = None"
    and "connectedClients (dropped i p s) = (connectedClients s)[i := None]"
proof -
  have len: "length (connectedClients s) = MAX_SESSION_COUNT"
    and dist: "distinct (filter (\<lambda>slot. slot \<noteq> None) (connectedClients s))"
    and val: "\<And>q. Some q \<in> set (connectedClients s) \<Longrightarrow> \<exists>d. live s q d"
    and notif: "\<And>q d r e. live s q d \<Longrightarrow> live s r e \<Longrightarrow> fdNotif d = fdNotif e \<Longrightarrow> q = r"
    and keys: "\<And>q d k. live s q d \<Longrightarrow> k \<in> set (subscriptions d) \<Longrightarrow> valid_key k"
    using assms(1) unfolding slots_ok_iff by blast+
  note ds = drop_slot [OF dist _ assms(3)]
  show cc: "connectedClients (dropped i p s) = (connectedClients s)[i := None]"
    by (simp add: dropped_def)
  have at: "client_at (dropped i p s) q = (if q = p then None else client_at s q)" for q
    by (auto simp: dropped_def client_at_def store_client_def)
  then show "client_at (dropped i p s) p = None" by simp
  have l: "live (dropped i p s) q d \<longleftrightarrow> q \<noteq> p \<and> live s q d" for q d
    unfolding live_def at cc using ds(2) assms(2) len by auto
  then show "live (dropped i p s) q d \<longleftrightarrow> q \<noteq> p \<and> live s q d" .
  show "kvs_table (dropped i p s) = kvs_table s" by (simp add: dropped_def)
  have i: "i < length (connectedClients s)" using assms(2) len by simp
  show "slots_ok (dropped i p s)"
    unfolding slots_ok_iff l cc
  proof (intro conjI allI impI)
    show "length ((connectedClients s)[i := None]) = MAX_SESSION_COUNT" using len by simp
    show "distinct (filter (\<lambda>slot. slot \<noteq> None) ((connectedClients s)[i := None]))" by (rule ds(1) [OF i])
    show "\<exists>c. q \<noteq> p \<and> live s q c" if "Some q \<in> set ((connectedClients s)[i := None])" for q
      using that val unfolding ds(2) [OF i] by blast
    show "q = r" if "q \<noteq> p \<and> live s q d" "r \<noteq> p \<and> live s r e" "fdNotif d = fdNotif e" for q d r e
      using that notif by blast
    show "valid_key k" if "q \<noteq> p \<and> live s q d" "k \<in> set (subscriptions d)" for q d k
      using that keys by blast
  qed
qed

lemma remove_client_from:
  assumes "\<And>i q. i \<in> set is \<Longrightarrow> connectedClients s ! i = Some q \<Longrightarrow>
      \<exists>d. client_at s q = Some d \<and> (fdNotif d = fdNotif c \<longrightarrow> q = p)"
    and "j \<in> set is" and "connectedClients s ! j = Some p" and "client_at s p = Some c'"
    and "fdReq c' = fdReq c" and "fdResp c' = fdResp c" and "fdNotif c' = fdNotif c"
  shows "\<exists>i \<in> set is. connectedClients s ! i = Some p \<and>
    remove_client_from (fdReq c) (fdResp c) (fdNotif c) is s = Inr (0, dropped i p s)"
  using assms(1,2)
proof (induction "is")
  case Nil
  then show ?case by simp
next
  case (Cons i rest)
  have IH: "\<exists>i \<in> set rest. connectedClients s ! i = Some p \<and>
      remove_client_from (fdReq c) (fdResp c) (fdNotif c) rest s = Inr (0, dropped i p s)"
    if "j \<in> set rest"
    by (rule Cons.IH [OF Cons.prems(1) that]) simp_all
  show ?case
  proof (cases "connectedClients s ! i")
    case None
    then have "j \<in> set rest" using Cons.prems(2) assms(3) by auto
    from IH [OF this] None show ?thesis by auto
  next
    case (Some q)
    then obtain d where d: "client_at s q = Some d" "fdNotif d = fdNotif c \<longrightarrow> q = p"
      using Cons.prems(1) [of i q] by auto
    show ?thesis
    proof (cases "q = p")
      case True
      with Some d assms(4-7) show ?thesis by (intro bexI [of _ i]) (simp_all add: dropped_def)
    next
      case False
      then have "j \<in> set rest" using Cons.prems(2) assms(3) Some by auto
      from IH [OF this] obtain i' where "i' \<in> set rest" "connectedClients s ! i' = Some p"
        "remove_client_from (fdReq c) (fdResp c) (fdNotif c) rest s = Inr (0, dropped i' p s)" by blast
      with Some d False show ?thesis by (intro bexI [of _ i']) auto
    qed
  qed
qed
text \<open>What is left of a client that has gone: no slot, no object, no subscription anywhere.\<close>

definition gone :: "nat \<Rightarrow> client \<Rightarrow> server \<Rightarrow> server \<Rightarrow> bool" where
  "gone p c s s' \<longleftrightarrow> client_at s' p = None \<and> Some p \<notin> set (connectedClients s') \<and>
     (case (kvs_table s, kvs_table s') of
        (Table ht, Table ht') \<Rightarrow>
          kvs_map ht' = kvs_map ht \<and>
          subscribers ht' = (\<lambda>k. removeAll (fdNotif c) (subscribers ht k))
      | _ \<Rightarrow> False)"

lemma leave:
  assumes "sessions_ok s" and "live s p c" and "calm w"
  obtains ht ht' where "kvs_table s = Table ht"
    "unsubscribe_all (Some p) (subscriptions c) (s, w) = Inr (s\<lparr>kvs_table := Table ht'\<rparr>,
       w\<lparr>w_locks := w_locks w @ concat (map lock_pair (subscriptions c))\<rparr>)"
    "\<And>i s'. i < MAX_SESSION_COUNT \<Longrightarrow> connectedClients s ! i = Some p \<Longrightarrow>
       s' = dropped i p (s\<lparr>kvs_table := Table ht'\<rparr>) \<Longrightarrow>
       sessions_ok s' \<and> gone p c s s' \<and> (\<forall>q d. live s' q d \<longleftrightarrow> q \<noteq> p \<and> live s q d)"
proof -
  obtain ht where ht: "kvs_table s = Table ht" "sound_table ht" "slots_ok s" and
    reg: "\<And>k fd. fd \<in> set (subscribers ht k) \<Longrightarrow>
      \<exists>p c. live s p c \<and> fdNotif c = fd \<and> k \<in> set (subscriptions c)"
    using assms(1) by (auto elim!: sessions_okE)
  have at: "client_at s p = Some c" using assms(2) by (simp add: live_def)
  have valid: "\<And>k. k \<in> set (subscriptions c) \<Longrightarrow> valid_key k"
    and unique: "\<And>q d. live s q d \<Longrightarrow> fdNotif d = fdNotif c \<Longrightarrow> q = p"
    using ht(3) assms(2) unfolding slots_ok_iff by blast+
  obtain ht' where run: "unsubscribe_all (Some p) (subscriptions c) (s, w) =
      Inr (s\<lparr>kvs_table := Table ht'\<rparr>,
        w\<lparr>w_locks := w_locks w @ concat (map lock_pair (subscriptions c))\<rparr>)"
    and ht': "sound_table ht'" "kvs_map ht' = kvs_map ht"
      "subscribers ht' = (\<lambda>k. if k \<in> set (subscriptions c)
         then removeAll (fdNotif c) (subscribers ht k) else subscribers ht k)"
    using unsubscribe_all_eq [OF ht(1,2) valid at assms(3)] by blast
  have "fdNotif c \<notin> set (subscribers ht k)" if "k \<notin> set (subscriptions c)" for k
    using reg [of "fdNotif c" k] unique that live_unique assms(2) by blast
  then have subs: "subscribers ht' = (\<lambda>k. removeAll (fdNotif c) (subscribers ht k))"
    by (auto simp: ht'(3) fun_eq_iff)
  show thesis
  proof (rule that [OF ht(1) run])
    fix i s'
    assume i: "i < MAX_SESSION_COUNT" "connectedClients s ! i = Some p"
      and s': "s' = dropped i p (s\<lparr>kvs_table := Table ht'\<rparr>)"
    have "slots_ok (s\<lparr>kvs_table := Table ht'\<rparr>)" using ht(3) by simp
    note dr = dropped [OF this i(1), of p, folded s']
    have l: "live s' q d \<longleftrightarrow> q \<noteq> p \<and> live s q d" for q d using dr(1) i(2) by simp
    have t': "kvs_table s' = Table ht'" using dr(3) i(2) by simp
    have "\<exists>q d. live s' q d \<and> fdNotif d = fd \<and> k \<in> set (subscriptions d)"
      if "fd \<in> set (subscribers ht' k)" for k fd
    proof -
      have "fd \<in> set (subscribers ht k)" "fd \<noteq> fdNotif c" using that by (auto simp: subs)
      then obtain q d where qd: "live s q d" "fdNotif d = fd" "k \<in> set (subscriptions d)"
        using reg by blast
      then have "q \<noteq> p" using \<open>fd \<noteq> fdNotif c\<close> live_unique assms(2) by blast
      with qd l show ?thesis by blast
    qed
    then have "sessions_ok s'"
      using dr(2) i(2) by (intro sessions_okI [OF t' ht'(1)]) simp_all
    moreover have "gone p c s s'"
    proof -
      have "Some p \<notin> set (connectedClients s')"
      proof
        assume "Some p \<in> set (connectedClients s')"
        moreover have "slots_ok s'" using \<open>sessions_ok s'\<close> by (rule sessions_okE)
        ultimately obtain d where "live s' p d" unfolding slots_ok_iff by blast
        then show False by (simp add: l)
      qed
      then show ?thesis using dr(4) i(2) t' ht(1) ht'(2) subs by (simp add: gone_def)
    qed
    ultimately show "sessions_ok s' \<and> gone p c s s' \<and> (\<forall>q d. live s' q d \<longleftrightarrow> q \<noteq> p \<and> live s q d)"
      using l by blast
  qed
qed

lemma live_slot:
  assumes "slots_ok s" and "live s p c"
  obtains j where "j < MAX_SESSION_COUNT" and "connectedClients s ! j = Some p"
  using assms by (auto simp: live_def slots_ok_iff in_set_conv_nth)

lemma kvs_disconnect_from:
  assumes "slots_ok s" and "live s p c"
    and "unsubscribe_all (Some p) (subscriptions c) (s, w) = Inr (s\<lparr>kvs_table := Table ht'\<rparr>, w\<lparr>w_locks := ls\<rparr>)"
    and "distinct [fdReq c, fdNotif c, fdResp c]" and "fdReq c \<in> set (w_open w)"
    and "fdNotif c \<in> set (w_open w)" and "healthy w (fdResp c)"
  obtains i where "i < MAX_SESSION_COUNT" and "connectedClients s ! i = Some p"
    and "kvs_disconnect (Some p) s w = Inr (dropped i p (s\<lparr>kvs_table := Table ht'\<rparr>),
      w\<lparr>w_locks := ls,
        w_open := removeAll (fdResp c) (removeAll (fdNotif c) (removeAll (fdReq c) (w_open w))),
        w_out := (w_out w)(fdResp c := w_out w (fdResp c) @ [OP_CODE_DISCONNECT, CHR ''0''])\<rparr>)"
proof -
  have at: "client_at s p = Some c" using assms(2) by (simp add: live_def)
  let ?s1 = "s\<lparr>kvs_table := Table ht'\<rparr>"
  let ?c = "c\<lparr>subscriptions := []\<rparr>"
  let ?s2 = "store_client ?s1 (Some p) (Some ?c)"
  have at2: "client_at ?s2 q = (if q = p then Some ?c else client_at s q)" for q
    using client_at_length [OF at] by (auto simp: client_at_store)
  obtain j where j: "j < MAX_SESSION_COUNT" "connectedClients s ! j = Some p"
    by (rule live_slot [OF assms(1,2)])
  have len: "length (connectedClients s) = MAX_SESSION_COUNT"
    and val: "\<And>q. Some q \<in> set (connectedClients s) \<Longrightarrow> \<exists>d. live s q d"
    and notif: "\<And>q d. live s q d \<Longrightarrow> fdNotif d = fdNotif c \<Longrightarrow> q = p"
    using assms(1,2) unfolding slots_ok_iff by blast+
  have slot_ok: "\<exists>d. client_at ?s2 q = Some d \<and> (fdNotif d = fdNotif c \<longrightarrow> q = p)"
    if "i \<in> set [0..<MAX_SESSION_COUNT]" "connectedClients ?s2 ! i = Some q" for i q
  proof -
    have q: "Some q \<in> set (connectedClients s)"
      using that len by (auto simp: in_set_conv_nth)
    obtain d where "live s q d" using val [OF q] by blast
    then show ?thesis using notif by (auto simp: at2 live_def)
  qed
  have "\<exists>i \<in> set [0..<MAX_SESSION_COUNT]. connectedClients ?s2 ! i = Some p \<and>
      remove_client_from (fdReq c) (fdResp c) (fdNotif c) [0..<MAX_SESSION_COUNT] ?s2 =
        Inr (0, dropped i p ?s2)"
    by (rule remove_client_from [where j = j and c' = ?c, OF slot_ok]) (use j at2 in auto)
  then obtain i where
    i: "i \<in> set [0..<MAX_SESSION_COUNT]" "connectedClients s ! i = Some p"
      "remove_client (fdReq c) (fdResp c) (fdNotif c) ?s2 = Inr (0, dropped i p ?s2)"
    unfolding remove_client_def by auto
  have same: "dropped i p ?s2 = dropped i p ?s1"
    by (simp add: dropped_def store_client_def)
  let ?w1 = "w\<lparr>w_locks := ls, w_open := removeAll (fdNotif c) (removeAll (fdReq c) (w_open w))\<rparr>"
  have h: "healthy ?w1 (fdResp c)" using assms(4,7) by (auto simp: healthy_def)
  show thesis
  proof (rule that [of i])
    show "kvs_disconnect (Some p) s w = Inr (dropped i p ?s1,
      w\<lparr>w_locks := ls,
        w_open := removeAll (fdResp c) (removeAll (fdNotif c) (removeAll (fdReq c) (w_open w))),
        w_out := (w_out w)(fdResp c := w_out w (fdResp c) @ [OP_CODE_DISCONNECT, CHR ''0''])\<rparr>)"
      unfolding kvs_disconnect_def
      using assms(4-6) i(3) h
      by (simp add: at assms(3) Let_def sys_close_def write_to_resp_pipe_healthy [OF h] same healthy_def)
  qed (use i in auto)
qed

lemma kvs_disconnect_run:
  assumes "sessions_ok s" and "live s p c" and "calm w" and "distinct [fdReq c, fdNotif c, fdResp c]"
    and "fdReq c \<in> set (w_open w)" and "fdNotif c \<in> set (w_open w)" and "healthy w (fdResp c)"
  shows "\<exists>s' w'. kvs_disconnect (Some p) s w = Inr (s', w') \<and> sessions_ok s' \<and> gone p c s s' \<and>
    (\<forall>q d. live s' q d \<longleftrightarrow> q \<noteq> p \<and> live s q d) \<and>
    w_out w' = (w_out w)(fdResp c := w_out w (fdResp c) @ [OP_CODE_DISCONNECT, CHR ''0'']) \<and>
    set (w_open w') = set (w_open w) - {fdReq c, fdNotif c, fdResp c} \<and> w_in w' = w_in w"
proof -
  obtain ht ht' where ht: "kvs_table s = Table ht" and
    run: "unsubscribe_all (Some p) (subscriptions c) (s, w) = Inr (s\<lparr>kvs_table := Table ht'\<rparr>,
       w\<lparr>w_locks := w_locks w @ concat (map lock_pair (subscriptions c))\<rparr>)" and
    post: "\<And>i s'. i < MAX_SESSION_COUNT \<Longrightarrow> connectedClients s ! i = Some p \<Longrightarrow>
       s' = dropped i p (s\<lparr>kvs_table := Table ht'\<rparr>) \<Longrightarrow>
       sessions_ok s' \<and> gone p c s s' \<and> (\<forall>q d. live s' q d \<longleftrightarrow> q \<noteq> p \<and> live s q d)"
    by (rule leave [OF assms(1-3)]) (rule that)
  have slots: "slots_ok s" using assms(1) by (rule sessions_okE)
  show ?thesis
    by (rule kvs_disconnect_from [OF slots assms(2) run assms(4-7)]) (use post [OF _ _ refl] in auto)
qed

text \<open>
  C17: After a disconnect no key has the client among its subscribers, its slot and its object are
  free, its three descriptors are closed, the response says 0, every other client is as it was and
  the registration invariant holds.
\<close>

theorem kvs_disconnect_correct:
  assumes "sessions_ok s" and "live s p c" and "calm w" and "distinct [fdReq c, fdNotif c, fdResp c]"
    and "fdReq c \<in> set (w_open w)" and "fdNotif c \<in> set (w_open w)" and "healthy w (fdResp c)"
  shows "\<exists>s' w'. kvs_disconnect (Some p) s w = Inr (s', w') \<and> sessions_ok s' \<and> gone p c s s' \<and>
    (\<forall>q d. live s' q d \<longleftrightarrow> q \<noteq> p \<and> live s q d) \<and>
    w_out w' = (w_out w)(fdResp c := w_out w (fdResp c) @ [OP_CODE_DISCONNECT, CHR ''0'']) \<and>
    set (w_open w') = set (w_open w) - {fdReq c, fdNotif c, fdResp c} \<and> w_in w' = w_in w"
  using assms by (rule kvs_disconnect_run)

subsection \<open>Joining\<close>

lemma add_client_from_eq:
  "(None \<in> set slots \<longrightarrow> (\<exists>i < length slots. slots ! i = None \<and>
      add_client_from p slots = Some (i, slots[i := Some p]))) \<and>
   (None \<notin> set slots \<longrightarrow> add_client_from p slots = None)"
proof (induction slots)
  case Nil
  then show ?case by simp
next
  case (Cons x xs)
  show ?case
  proof (cases "x = None")
    case True
    then show ?thesis by (auto intro!: exI [of _ 0])
  next
    case False
    show ?thesis
    proof (cases "None \<in> set xs")
      case True
      with Cons.IH obtain i where "i < length xs" "xs ! i = None"
        "add_client_from p xs = Some (i, xs[i := Some p])" by blast
      with False True show ?thesis by (auto intro!: exI [of _ "Suc i"])
    next
      case no: False
      with Cons.IH False show ?thesis by auto
    qed
  qed
qed

lemma fill_slot:
  assumes "i < length xs" and "xs ! i = None" and "Some p \<notin> set xs"
    and "distinct (filter (\<lambda>slot. slot \<noteq> None) xs)"
  shows "distinct (filter (\<lambda>slot. slot \<noteq> None) (xs[i := Some p]))"
    and "Some q \<in> set (xs[i := Some p]) \<longleftrightarrow> q = p \<or> Some q \<in> set xs"
proof -
  have "distinct (filter (\<lambda>slot. slot \<noteq> None) (xs[i := Some p])) \<and>
      (Some q \<in> set (xs[i := Some p]) \<longleftrightarrow> q = p \<or> Some q \<in> set xs)"
    using assms
  proof (induction xs arbitrary: i)
    case Nil
    then show ?case by simp
  next
    case (Cons x xs)
    show ?case
    proof (cases i)
      case 0
      with Cons.prems show ?thesis by auto
    next
      case (Suc j)
      then have j: "j < length xs" "xs ! j = None" "Some p \<notin> set xs" "x \<noteq> Some p"
        using Cons.prems by auto
      have "distinct (filter (\<lambda>slot. slot \<noteq> None) xs)" using Cons.prems(4) by (auto split: if_splits)
      note IH = Cons.IH [OF j(1-3) this]
      have "x \<notin> set (filter (\<lambda>slot. slot \<noteq> None) (xs[j := Some p]))"
      proof
        assume "x \<in> set (filter (\<lambda>slot. slot \<noteq> None) (xs[j := Some p]))"
        then have "x \<noteq> None" "x \<in> set xs"
          using set_update_subset_insert [of xs j "Some p"] j(4) by auto
        then show False using Cons.prems(4) by auto
      qed
      then show ?thesis using IH Suc by auto
    qed
  qed
  then show "distinct (filter (\<lambda>slot. slot \<noteq> None) (xs[i := Some p]))"
    "Some q \<in> set (xs[i := Some p]) \<longleftrightarrow> q = p \<or> Some q \<in> set xs" by simp_all
qed

text \<open>The descriptors that three calls of \<open>open\<close> return.\<close>

definition opened :: "world \<Rightarrow> int \<times> int \<times> int" where
  "opened w =
     (let n = fresh_fd (w_open w); q = fresh_fd (n # w_open w); p = fresh_fd (q # n # w_open w)
      in (q, p, n))"

definition new_client :: "world \<Rightarrow> client" where
  "new_client w =
     \<lparr>fdReq = fst (opened w), fdResp = fst (snd (opened w)), fdNotif = snd (snd (opened w)),
      subscriptions = []\<rparr>"

lemma new_client_fds:
  "distinct [fdReq (new_client w), fdNotif (new_client w), fdResp (new_client w)]"
  "fdReq (new_client w) \<notin> set (w_open w)" "fdNotif (new_client w) \<notin> set (w_open w)"
  "fdResp (new_client w) \<notin> set (w_open w)" "subscriptions (new_client w) = []"
  using fresh_fd_free [of "w_open w"] fresh_fd_free [of "fresh_fd (w_open w) # w_open w"]
    fresh_fd_free [of "fresh_fd (fresh_fd (w_open w) # w_open w) # fresh_fd (w_open w) # w_open w"]
  by (auto simp: new_client_def opened_def Let_def)

lemma kvs_connect_eq:
  assumes "w_canopen w req" and "w_canopen w resp" and "w_canopen w notif" and "calm w"
    and "w_wsched w (fdResp (new_client w)) = []"
  shows "kvs_connect req resp notif ptr s w =
    (let c = new_client w; p = length (clients s);
         (full, s1) = add_client p (s\<lparr>clients := clients s @ [Some c]\<rparr>)
     in Inr (if full \<noteq> 0 then 1 else 0, Some p, s1,
          w\<lparr>w_open := [fdResp c, fdReq c, fdNotif c] @ w_open w,
            w_out := (w_out w)(fdResp c := w_out w (fdResp c) @
              [OP_CODE_CONNECT, if full \<noteq> 0 then CHR ''1'' else CHR ''0''])\<rparr>))"
proof -
  let ?c = "new_client w"
  let ?w = "w\<lparr>w_open := fdResp ?c # fdReq ?c # fdNotif ?c # w_open w\<rparr>"
  obtain full s1 where ad: "add_client (length (clients s)) (s\<lparr>clients := clients s @ [Some ?c]\<rparr>) = (full, s1)"
    by fastforce
  have h: "healthy ?w (fdResp ?c)" using assms(5) by (simp add: healthy_def)
  have fds: "fdNotif ?c = fresh_fd (w_open w)" "fdReq ?c = fresh_fd (fdNotif ?c # w_open w)"
    "fdResp ?c = fresh_fd (fdReq ?c # fdNotif ?c # w_open w)"
    by (simp_all add: new_client_def opened_def Let_def)
  have nn: "\<not> fdNotif ?c < 0" "\<not> fdReq ?c < 0" "\<not> fdResp ?c < 0"
    using fresh_fd_nonneg by (simp_all add: fds not_less)
  have op: "sys_open w notif = (fdNotif ?c, w\<lparr>w_open := fdNotif ?c # w_open w\<rparr>)"
    "sys_open (w\<lparr>w_open := fdNotif ?c # w_open w\<rparr>) req =
      (fdReq ?c, w\<lparr>w_open := fdReq ?c # fdNotif ?c # w_open w\<rparr>)"
    "sys_open (w\<lparr>w_open := fdReq ?c # fdNotif ?c # w_open w\<rparr>) resp = (fdResp ?c, ?w)"
    using assms(1-3) fds by (simp_all add: sys_open_def Let_def)
  have al: "alloc ?w = (True, ?w)" using assms(4) by (simp add: alloc_def calm_def)
  have cl: "\<lparr>fdReq = fdReq ?c, fdResp = fdResp ?c, fdNotif = fdNotif ?c, subscriptions = []\<rparr> = ?c"
    by (simp add: new_client_def)
  show ?thesis
    unfolding kvs_connect_def
    by (simp add: op nn al cl ad Let_def write_to_resp_pipe_healthy [OF h])
qed
lemma kvs_connect_run:
  assumes "sessions_ok s" and "w_canopen w req" and "w_canopen w resp" and "w_canopen w notif"
    and "calm w" and "w_wsched w (fdResp (new_client w)) = []"
    and "\<forall>(p, c) \<in> set (slot_clients s). fdNotif c \<in> set (w_open w)"
  shows "\<exists>r s' w'. kvs_connect req resp notif None s w = Inr (r, Some (length (clients s)), s', w') \<and>
    sessions_ok s' \<and> kvs_table s' = kvs_table s \<and>
    set (w_open w') = set (w_open w) \<union>
      {fdReq (new_client w), fdResp (new_client w), fdNotif (new_client w)} \<and>
    (if None \<in> set (connectedClients s)
     then r = 0 \<and> (\<forall>q d. live s' q d \<longleftrightarrow> q = length (clients s) \<and> d = new_client w \<or> live s q d) \<and>
       w_out w' (fdResp (new_client w)) = w_out w (fdResp (new_client w)) @ [OP_CODE_CONNECT, CHR ''0'']
     else r = 1 \<and> connectedClients s' = connectedClients s \<and> (\<forall>q d. live s' q d \<longleftrightarrow> live s q d) \<and>
       w_out w' (fdResp (new_client w)) = w_out w (fdResp (new_client w)) @ [OP_CODE_CONNECT, CHR ''1''])"
proof -
  let ?c = "new_client w"
  let ?p = "length (clients s)"
  let ?s0 = "s\<lparr>clients := clients s @ [Some ?c]\<rparr>"
  obtain ht where ht: "kvs_table s = Table ht" "sound_table ht" "slots_ok s" and
    reg: "\<And>k fd. fd \<in> set (subscribers ht k) \<Longrightarrow>
      \<exists>p c. live s p c \<and> fdNotif c = fd \<and> k \<in> set (subscriptions c)"
    using assms(1) by (auto elim!: sessions_okE)
  have len: "length (connectedClients s) = MAX_SESSION_COUNT"
    and dist: "distinct (filter (\<lambda>slot. slot \<noteq> None) (connectedClients s))"
    and val: "\<And>q. Some q \<in> set (connectedClients s) \<Longrightarrow> \<exists>d. live s q d"
    and notif: "\<And>q d r e. live s q d \<Longrightarrow> live s r e \<Longrightarrow> fdNotif d = fdNotif e \<Longrightarrow> q = r"
    and keys: "\<And>q d k. live s q d \<Longrightarrow> k \<in> set (subscriptions d) \<Longrightarrow> valid_key k"
    using ht(3) unfolding slots_ok_iff by blast+
  have old: "q < ?p" "fdNotif d \<noteq> fdNotif ?c" if "live s q d" for q d
  proof -
    show "q < ?p" using that client_at_length by (simp add: live_def)
    have "(q, d) \<in> set (slot_clients s)" using that by simp
    then have "fdNotif d \<in> set (w_open w)" using assms(7) by blast
    then show "fdNotif d \<noteq> fdNotif ?c" using new_client_fds(3) [of w] by metis
  qed
  have fresh: "Some ?p \<notin> set (connectedClients s)" using val old(1) by blast
  have at: "client_at ?s0 q = (if q = ?p then Some ?c else client_at s q)" for q
    by (auto simp: client_at_def nth_append)
  have run: "kvs_connect req resp notif None s w =
    (let (full, s1) = add_client ?p ?s0
     in Inr (if full \<noteq> 0 then 1 else 0, Some ?p, s1,
          w\<lparr>w_open := [fdResp ?c, fdReq ?c, fdNotif ?c] @ w_open w,
            w_out := (w_out w)(fdResp ?c := w_out w (fdResp ?c) @
              [OP_CODE_CONNECT, if full \<noteq> 0 then CHR ''1'' else CHR ''0''])\<rparr>))"
    using kvs_connect_eq [OF assms(2-6), of None s] by (simp only: Let_def)
  show ?thesis
  proof (cases "None \<in> set (connectedClients s)")
    case False
    then have ad: "add_client ?p ?s0 = (1, ?s0)"
      using add_client_from_eq by (simp add: add_client_def)
    have l: "live ?s0 q d \<longleftrightarrow> live s q d" for q d using fresh by (auto simp: live_def at)
    have "slots_ok ?s0" using ht(3) unfolding slots_ok_iff l by simp
    then have "sessions_ok ?s0" using ht(1,2) reg l by (intro sessions_okI [of _ ht]) simp_all
    then show ?thesis
      using False l unfolding run ad by (auto simp: Let_def)
  next
    case True
    then obtain i where i: "i < length (connectedClients s)" "connectedClients s ! i = None"
      "add_client_from ?p (connectedClients s) = Some (i, (connectedClients s)[i := Some ?p])"
      using add_client_from_eq by blast
    let ?s1 = "?s0\<lparr>connectedClients := (connectedClients s)[i := Some ?p]\<rparr>"
    note fs = fill_slot [OF i(1,2) fresh dist]
    have ad: "add_client ?p ?s0 = (0, ?s1)" using i(3) by (simp add: add_client_def)
    have at1: "client_at ?s1 q = (if q = ?p then Some ?c else client_at s q)" for q
      by (auto simp: client_at_def nth_append)
    have l: "live ?s1 q d \<longleftrightarrow> q = ?p \<and> d = ?c \<or> live s q d" for q d
      unfolding live_def at1 using fs(2) fresh by auto
    have "slots_ok ?s1"
      unfolding slots_ok_iff l
    proof (intro conjI allI impI)
      show "length (connectedClients ?s1) = MAX_SESSION_COUNT" using len by simp
      show "distinct (filter (\<lambda>slot. slot \<noteq> None) (connectedClients ?s1))" using fs(1) by simp
      show "\<exists>c. q = ?p \<and> c = ?c \<or> live s q c" if "Some q \<in> set (connectedClients ?s1)" for q
        using that val fs(2) by auto
      show "q = r" if "q = ?p \<and> d = ?c \<or> live s q d" "r = ?p \<and> e = ?c \<or> live s r e"
        "fdNotif d = fdNotif e" for q d r e
        using that notif old(2) by metis
      show "valid_key k" if "q = ?p \<and> d = ?c \<or> live s q d" "k \<in> set (subscriptions d)" for q d k
        using that keys new_client_fds(5) by fastforce
    qed
    moreover have "\<exists>q d. live ?s1 q d \<and> fdNotif d = fd \<and> k \<in> set (subscriptions d)"
      if "fd \<in> set (subscribers ht k)" for k fd
      using reg [OF that] l by blast
    ultimately have "sessions_ok ?s1" using ht(1,2) by (intro sessions_okI [of _ ht]) simp_all
    then show ?thesis
      using True l unfolding run ad by (auto simp: Let_def)
  qed
qed

text \<open>
  C19: A connection whose pipes can be opened takes a free slot with a new client object and
  answers 0; when no slot is free it answers 1 and the connected clients are as they were. In both
  cases the registration invariant holds.
\<close>

theorem kvs_connect_correct:
  assumes "sessions_ok s" and "w_canopen w req" and "w_canopen w resp" and "w_canopen w notif"
    and "calm w" and "w_wsched w (fdResp (new_client w)) = []"
    and "\<forall>(p, c) \<in> set (slot_clients s). fdNotif c \<in> set (w_open w)"
  shows "\<exists>r s' w'. kvs_connect req resp notif None s w = Inr (r, Some (length (clients s)), s', w') \<and>
    sessions_ok s' \<and> kvs_table s' = kvs_table s \<and>
    set (w_open w') = set (w_open w) \<union>
      {fdReq (new_client w), fdResp (new_client w), fdNotif (new_client w)} \<and>
    (if None \<in> set (connectedClients s)
     then r = 0 \<and> (\<forall>q d. live s' q d \<longleftrightarrow> q = length (clients s) \<and> d = new_client w \<or> live s q d) \<and>
       w_out w' (fdResp (new_client w)) = w_out w (fdResp (new_client w)) @ [OP_CODE_CONNECT, CHR ''0'']
     else r = 1 \<and> connectedClients s' = connectedClients s \<and> (\<forall>q d. live s' q d \<longleftrightarrow> live s q d) \<and>
       w_out w' (fdResp (new_client w)) = w_out w (fdResp (new_client w)) @ [OP_CODE_CONNECT, CHR ''1''])"
  by (rule kvs_connect_run [OF assms])

subsection \<open>Dropping every client\<close>

definition same_pairs :: "server \<Rightarrow> server \<Rightarrow> bool" where
  "same_pairs s s' \<longleftrightarrow>
     (case (kvs_table s, kvs_table s') of
        (Table ht, Table ht') \<Rightarrow> kvs_map ht' = kvs_map ht | _ \<Rightarrow> False)"

lemma clean_client_step:
  assumes "sessions_ok s" and "calm w" and "i < MAX_SESSION_COUNT"
  shows "\<exists>s' w'. clean_client i (s, w) = Inr (s', w') \<and> sessions_ok s' \<and> calm w' \<and>
    connectedClients s' = (connectedClients s)[i := None] \<and> same_pairs s s' \<and>
    w_out w' = w_out w \<and>
    (\<forall>p c. connectedClients s ! i = Some p \<and> live s p c \<longrightarrow>
       set (w_open w') = set (w_open w) - {fdReq c, fdNotif c, fdResp c}) \<and>
    (\<forall>q. client_at s' q = (if connectedClients s ! i = Some q then None else client_at s q))"
proof (cases "connectedClients s ! i")
  case None
  have "same_pairs s s" using assms(1) by (rule sessions_okE) (simp add: same_pairs_def)
  moreover have "(connectedClients s)[i := None] = connectedClients s"
    using None by (metis list_update_id)
  ultimately show ?thesis
    using None assms(1,2) by (intro exI [of _ s] exI [of _ w]) (simp add: clean_client_def)
next
  case (Some p)
  have slots: "slots_ok s" using assms(1) by (rule sessions_okE)
  then have "Some p \<in> set (connectedClients s)"
    using Some assms(3) by (metis nth_mem slots_ok_iff)
  then obtain c where c: "live s p c" using slots unfolding slots_ok_iff by blast
  then have at: "client_at s p = Some c" by (simp add: live_def)
  obtain ht ht' where ht: "kvs_table s = Table ht" and
    run: "unsubscribe_all (Some p) (subscriptions c) (s, w) = Inr (s\<lparr>kvs_table := Table ht'\<rparr>,
       w\<lparr>w_locks := w_locks w @ concat (map lock_pair (subscriptions c))\<rparr>)" and
    post: "\<And>i s'. i < MAX_SESSION_COUNT \<Longrightarrow> connectedClients s ! i = Some p \<Longrightarrow>
       s' = dropped i p (s\<lparr>kvs_table := Table ht'\<rparr>) \<Longrightarrow>
       sessions_ok s' \<and> gone p c s s' \<and> (\<forall>q d. live s' q d \<longleftrightarrow> q \<noteq> p \<and> live s q d)"
    by (rule leave [OF assms(1) c assms(2)]) (rule that)
  let ?s' = "dropped i p (s\<lparr>kvs_table := Table ht'\<rparr>)"
  obtain r2 w2 r3 w3 r4 w4 where cl:
    "sys_close (w\<lparr>w_locks := w_locks w @ concat (map lock_pair (subscriptions c))\<rparr>) (fdReq c) = (r2, w2)"
    "sys_close w2 (fdNotif c) = (r3, w3)" "sys_close w3 (fdResp c) = (r4, w4)"
    by (metis surj_pair)
  note fr = cl [THEN sys_close_frame(3)] cl [THEN sys_close_frame(6)] cl [THEN sys_close_frame(7)]
    cl [THEN sys_close_frame(10)]
  have "clean_client i (s, w) = Inr (?s', w4)"
    using Some at by (simp add: clean_client_def run cl dropped_def Let_def)
  moreover have "calm w4" using fr assms(2) by (simp add: calm_def)
  moreover have "w_out w4 = w_out w" using fr by simp
  moreover have "set (w_open w4) = set (w_open w) - {fdReq c, fdNotif c, fdResp c}" using fr by auto
  moreover have "connectedClients ?s' = (connectedClients s)[i := None]" by (simp add: dropped_def)
  moreover have "same_pairs s ?s'"
    using post [OF assms(3) Some refl] by (auto simp: gone_def same_pairs_def split: table_ptr.splits)
  moreover have "client_at ?s' q = (if q = p then None else client_at s q)" for q
    using client_at_length [OF at] by (simp add: dropped_def client_at_def store_client_def)
  moreover have "d = c" if "live s p d" for d using that c by (rule live_unique)
  ultimately show ?thesis
    using post [OF assms(3) Some refl] Some
    by (intro exI [of _ ?s'] exI [of _ w4]) auto
qed

lemma clean_clients_upto:
  assumes "sessions_ok s" and "calm w" and "n \<le> MAX_SESSION_COUNT"
  shows "\<exists>s' w'. for_each clean_client [0..<n] (s, w) = Inr (s', w') \<and> sessions_ok s' \<and> calm w' \<and>
    (\<forall>i. connectedClients s' ! i = (if i < n then None else connectedClients s ! i)) \<and>
    same_pairs s s' \<and> w_out w' = w_out w \<and>
    (\<forall>q. client_at s' q = (if \<exists>i < n. connectedClients s ! i = Some q then None else client_at s q))"
  using assms(3)
proof (induction n)
  case 0
  have "same_pairs s s" using assms(1) by (rule sessions_okE) (simp add: same_pairs_def)
  then show ?case using assms by simp
next
  case (Suc n)
  then obtain s1 w1 where 1: "for_each clean_client [0..<n] (s, w) = Inr (s1, w1)" "sessions_ok s1"
    "calm w1" "\<forall>i. connectedClients s1 ! i = (if i < n then None else connectedClients s ! i)"
    "same_pairs s s1" "w_out w1 = w_out w"
    "\<forall>q. client_at s1 q = (if \<exists>i < n. connectedClients s ! i = Some q then None else client_at s q)" by auto
  from clean_client_step [OF 1(2,3), of n] Suc.prems obtain s2 w2 where
    2: "clean_client n (s1, w1) = Inr (s2, w2)" "sessions_ok s2" "calm w2"
      "connectedClients s2 = (connectedClients s1)[n := None]" "same_pairs s1 s2" "w_out w2 = w_out w1"
      "\<forall>q. client_at s2 q = (if connectedClients s1 ! n = Some q then None else client_at s1 q)"
    by auto
  have "length (connectedClients s1) = MAX_SESSION_COUNT"
    using 1(2) by (rule sessions_okE) (simp add: slots_ok_def)
  then have "\<forall>i. connectedClients s2 ! i = (if i < Suc n then None else connectedClients s ! i)"
    using 1(4) 2(4) Suc.prems by (simp add: nth_list_update less_Suc_eq)
  moreover have "\<forall>q. client_at s2 q =
      (if \<exists>i < Suc n. connectedClients s ! i = Some q then None else client_at s q)"
    using 1(4,7) 2(7) by (auto simp: less_Suc_eq)
  moreover have "same_pairs s s2"
    using 1(5) 2(5) by (auto simp: same_pairs_def split: table_ptr.splits)
  ultimately show ?case using 1 2 by (auto simp: for_each_append)
qed

lemma clean_all_clients_run:
  assumes "sessions_ok s" and "calm w"
  shows "\<exists>s' w' ht'. clean_all_clients s w = Inr (s', w') \<and> sessions_ok s' \<and>
    kvs_table s' = Table ht' \<and> targets ht' = {} \<and> same_pairs s s' \<and>
    connectedClients s' = replicate MAX_SESSION_COUNT None \<and> w_out w' = w_out w \<and>
    (\<forall>p. Some p \<in> set (connectedClients s) \<longrightarrow> client_at s' p = None)"
proof -
  obtain s' w' where run: "clean_all_clients s w = Inr (s', w')" "sessions_ok s'"
    "\<forall>i < MAX_SESSION_COUNT. connectedClients s' ! i = None" "same_pairs s s'" "w_out w' = w_out w"
    "\<forall>q. (\<exists>i < MAX_SESSION_COUNT. connectedClients s ! i = Some q) \<longrightarrow> client_at s' q = None"
    using clean_clients_upto [OF assms, of MAX_SESSION_COUNT] by (auto simp: clean_all_clients_def)
  obtain ht' where ht': "kvs_table s' = Table ht'" "sound_table ht'" "slots_ok s'" and
    reg: "\<And>k fd. fd \<in> set (subscribers ht' k) \<Longrightarrow>
      \<exists>p c. live s' p c \<and> fdNotif c = fd \<and> k \<in> set (subscriptions c)"
    using run(2) by (rule sessions_okE) (rule that)
  have "connectedClients s' = replicate MAX_SESSION_COUNT None"
    using ht'(3) run(3) by (intro nth_equalityI) (simp_all add: slots_ok_def)
  moreover have "targets ht' = {}"
    using ht'(2) reg calculation by (auto simp: targets_iff sound_table_def live_def)
  moreover have "length (connectedClients s) = MAX_SESSION_COUNT"
    using assms(1) by (rule sessions_okE) (simp add: slots_ok_def)
  then have "client_at s' p = None" if "Some p \<in> set (connectedClients s)" for p
    using run(6) that by (metis in_set_conv_nth)
  ultimately show ?thesis using run ht'(1) by blast
qed

text \<open>
  C20: Dropping all clients, as the host thread does after SIGUSR1, empties every slot and leaves
  no subscriber at any key, frees the objects of the clients, and leaves every pair and all output
  as they were.
\<close>

theorem clean_all_clients_correct:
  assumes "sessions_ok s" and "calm w"
  shows "\<exists>s' w' ht'. clean_all_clients s w = Inr (s', w') \<and> sessions_ok s' \<and>
    kvs_table s' = Table ht' \<and> targets ht' = {} \<and> same_pairs s s' \<and>
    connectedClients s' = replicate MAX_SESSION_COUNT None \<and> w_out w' = w_out w \<and>
    (\<forall>p. Some p \<in> set (connectedClients s) \<longrightarrow> client_at s' p = None)"
  using assms by (rule clean_all_clients_run)

subsection \<open>Instances\<close>

definition sample_client :: client where
  "sample_client = \<lparr>fdReq = 5, fdResp = 6, fdNotif = 7, subscriptions = [''a'']\<rparr>"

definition sample_server :: server where
  "sample_server =
     \<lparr>kvs_table = Table sample_table, clients = [Some sample_client], connectedClients = [Some 0, None]\<rparr>"

definition session_world :: world where
  "session_world = quiet_world\<lparr>w_open := [0, 1, 2, 5, 6, 7]\<rparr>"

lemma sample_server_ok [simp]: "sessions_ok sample_server"
  by code_simp

lemma sample_server_facts [simp]:
  "kvs_table sample_server = Table sample_table" "live sample_server 0 sample_client"
  "slot_clients sample_server = [(0, sample_client)]"
  "connectedClients sample_server = [Some 0, None]" "length (clients sample_server) = 1"
  by (simp_all add: sample_server_def live_def client_at_def slot_clients_def)

lemma session_world_facts [simp]:
  "calm session_world" "w_open session_world = [0, 1, 2, 5, 6, 7]" "w_locks session_world = []"
  "w_out session_world = (\<lambda>_. [])" "w_canopen session_world p"
  "w_wsched session_world fd = []"
  "healthy session_world fd \<longleftrightarrow> fd \<in> {0, 1, 2, 5, 6, 7}"
  by (auto simp: session_world_def calm_def healthy_def quiet_world_def)

lemma sample_client_facts [simp]:
  "fdReq sample_client = 5" "fdResp sample_client = 6" "fdNotif sample_client = 7"
  "subscriptions sample_client = [''a'']"
  by (simp_all add: sample_client_def)

theorem kvs_subscribe_correct_witness:
  "\<exists>s' w'. kvs_subscribe ''b'' (Some 0) sample_server session_world = Inr (0, s', w') \<and>
    sessions_ok s' \<and> w_out w' 6 = ''30''"
proof -
  obtain s' where "kvs_subscribe ''b'' (Some 0) sample_server session_world = Inr (0, s',
      session_world\<lparr>w_locks := w_locks session_world @ lock_pair ''b'',
        w_out := (w_out session_world)(6 := w_out session_world 6 @
          [OP_CODE_SUBSCRIBE, RESULT_KEY_DOESNT_EXIST])\<rparr>)" "sessions_ok s'"
    using kvs_subscribe_correct [of sample_server sample_table 0 sample_client "''b''" session_world]
    by (auto simp: MAX_STRING_SIZE_def)
  then show ?thesis by (simp add: protocol_codes)
qed


theorem kvs_disconnect_correct_witness:
  "\<exists>s' w'. kvs_disconnect (Some 0) sample_server session_world = Inr (s', w') \<and>
    sessions_ok s' \<and> gone 0 sample_client sample_server s' \<and>
    w_out w' 6 = ''20'' \<and> 2 \<in> set (w_open w') \<and> set (w_open w') \<inter> {5, 6, 7} = {}"
proof -
  have hyps: "distinct [fdReq sample_client, fdNotif sample_client, fdResp sample_client]"
    "fdReq sample_client \<in> set (w_open session_world)"
    "fdNotif sample_client \<in> set (w_open session_world)"
    "healthy session_world (fdResp sample_client)" by simp_all
  obtain s' w' where run: "kvs_disconnect (Some 0) sample_server session_world = Inr (s', w')"
    "sessions_ok s'" "gone 0 sample_client sample_server s'" and
    w': "w_out w' = (w_out session_world)(fdResp sample_client :=
        w_out session_world (fdResp sample_client) @ [OP_CODE_DISCONNECT, CHR ''0''])"
    "set (w_open w') = set (w_open session_world) -
        {fdReq sample_client, fdNotif sample_client, fdResp sample_client}"
    using kvs_disconnect_correct [OF sample_server_ok sample_server_facts(2) session_world_facts(1) hyps]
    by (elim exE conjE) (rule that)
  have "w_out w' 6 = ''20''" using w'(1) by (simp add: protocol_codes)
  moreover have "2 \<in> set (w_open w') \<and> set (w_open w') \<inter> {5, 6, 7} = {}" unfolding w'(2) by simp
  ultimately show ?thesis using run by blast
qed

theorem kvs_connect_correct_witness:
  "\<exists>s' w'. kvs_connect ''/tmp/req'' ''/tmp/resp'' ''/tmp/notif'' None sample_server session_world =
      Inr (0, Some 1, s', w') \<and> sessions_ok s' \<and> live s' 1 (new_client session_world) \<and>
    set (w_open w') = {0, 1, 2, 3, 4, 5, 6, 7, 8}"
proof -
  have fds: "fdReq (new_client session_world) = 4" "fdResp (new_client session_world) = 8"
    "fdNotif (new_client session_world) = 3"
    by code_simp+
  let ?run = "kvs_connect ''/tmp/req'' ''/tmp/resp'' ''/tmp/notif'' None sample_server session_world"
  have hyps: "calm session_world" "w_wsched session_world (fdResp (new_client session_world)) = []"
    "\<forall>(p, c) \<in> set (slot_clients sample_server). fdNotif c \<in> set (w_open session_world)"
    by simp_all
  obtain r s' w' where
    conn: "?run = Inr (r, Some (length (clients sample_server)), s', w')" "sessions_ok s'"
      "set (w_open w') = set (w_open session_world) \<union> {fdReq (new_client session_world),
        fdResp (new_client session_world), fdNotif (new_client session_world)}" and
    res: "if None \<in> set (connectedClients sample_server)
     then r = 0 \<and> (\<forall>q d. live s' q d \<longleftrightarrow>
         q = length (clients sample_server) \<and> d = new_client session_world \<or> live sample_server q d) \<and>
       w_out w' (fdResp (new_client session_world)) =
         w_out session_world (fdResp (new_client session_world)) @ [OP_CODE_CONNECT, CHR ''0'']
     else r = 1 \<and> connectedClients s' = connectedClients sample_server \<and>
       (\<forall>q d. live s' q d \<longleftrightarrow> live sample_server q d) \<and>
       w_out w' (fdResp (new_client session_world)) =
         w_out session_world (fdResp (new_client session_world)) @ [OP_CODE_CONNECT, CHR ''1'']"
    using kvs_connect_correct [OF sample_server_ok session_world_facts(5) session_world_facts(5)
        session_world_facts(5) hyps, of "''/tmp/req''" "''/tmp/resp''" "''/tmp/notif''"] by blast
  have "r = 0" "live s' 1 (new_client session_world)" using res by simp_all
  moreover have "?run = Inr (r, Some 1, s', w')" using conn(1) by simp
  moreover have "set (w_open w') = {0, 1, 2, 3, 4, 5, 6, 7, 8}" using conn(3) by (auto simp: fds)
  ultimately show ?thesis using conn(2) by blast
qed

theorem clean_all_clients_correct_witness:
  "\<exists>s' w' ht'. clean_all_clients sample_server session_world = Inr (s', w') \<and>
    kvs_table s' = Table ht' \<and> targets ht' = {} \<and> connectedClients s' = [None, None]"
  using clean_all_clients_correct [of sample_server session_world]
  by (auto simp: MAX_SESSION_COUNT_def numeral_2_eq_2)

end
