(* ===== verification/Accesses.thy ===== *)
theory Accesses
  imports Locks Jobs Clients
begin

section \<open>What a command does to the shared state, access by access\<close>

text \<open>
  A command that holds its bucket locks works through its keys one by one, and each turn of its
  loop touches one bucket, the output file of its thread and the local variable \<open>aux\<close> of
  \<open>kvs_delete\<close>. An access is one turn of a loop of server/operations.c, together with the number of
  the output file, which is the name of the thread here. \<open>access_contract\<close> is what concurrency needs of
  them: an access changes only the places it writes, and what it leaves in the places it reads
  depends only on what it found there.

  The session threads take part with their requests: the number of such a thread is the descriptor
  of its response pipe, and it has a client object, which no other thread uses. They take the lock
  of one bucket, but not the global lock, and change only the subscribers of a key; so the
  subscribers of a bucket are a place of their own beside its pairs.
\<close>

record shared =
  tbl :: hash_table
  kern :: world
  missing_seen :: "int \<Rightarrow> bool" \<comment> \<open>the variable \<open>aux\<close> of the thread\<close>
  snapshots :: "int \<Rightarrow> table_ptr list" \<comment> \<open>what the children forked by the thread got\<close>
  guest :: "int \<Rightarrow> client" \<comment> \<open>the client of a session thread\<close>
  reply :: "int \<Rightarrow> int \<times> char" \<comment> \<open>its variables \<open>subscriptionStatus\<close> and \<open>result\<close>\<close>

datatype access =
  PutPair string string | PrintText string | ReadKey string
| StartDelete | DeleteKey string | EndDelete | ShowBucket nat | ForkBackup
| ForgetKey string | AddSub string | DropSub string | ReplySub string | ReplyUnsub

definition show_bucket :: "int \<Rightarrow> key_node list \<Rightarrow> world \<Rightarrow> world res" where
  "show_bucket fdOut =
     for_each (\<lambda>keyNode w. bindE (node_value keyNode)
       (\<lambda>val. Inr (emit w fdOut (show_line (nkey keyNode) val))))"

text \<open>
  The parts of a request: the change of the list of the client, the search of the key in its bucket,
  which sets the variables of the session thread, and the answer.
\<close>

definition forget_key :: "int \<Rightarrow> string \<Rightarrow> shared \<Rightarrow> shared res" where
  "forget_key fdOut key s =
     Inr (s\<lparr>guest := (guest s)(fdOut := (guest s fdOut)
       \<lparr>subscriptions := remove_subscription key (subscriptions (guest s fdOut))\<rparr>)\<rparr>)"

definition add_sub :: "int \<Rightarrow> string \<Rightarrow> shared \<Rightarrow> shared res" where
  "add_sub fdOut key s =
     (if hash key < 0 then Inl OutOfBounds
      else case subscribe_search (buckets (tbl s) ! nat (hash key)) key (fdNotif (guest s fdOut)) (kern s) of
        (subscriptionStatus, result, bucket, w) \<Rightarrow>
          Inr (s\<lparr>tbl := (tbl s)\<lparr>buckets := (buckets (tbl s))[nat (hash key) := bucket]\<rparr>, kern := w,
            reply := (reply s)(fdOut := (subscriptionStatus, result))\<rparr>))"

definition drop_sub :: "int \<Rightarrow> string \<Rightarrow> shared \<Rightarrow> shared res" where
  "drop_sub fdOut key s =
     (if hash key < 0 then Inl OutOfBounds
      else case unsubscribe_search (buckets (tbl s) ! nat (hash key)) key (fdNotif (guest s fdOut)) of
        (r, bucket) \<Rightarrow>
          Inr (s\<lparr>tbl := (tbl s)\<lparr>buckets := (buckets (tbl s))[nat (hash key) := bucket]\<rparr>,
            reply := (reply s)(fdOut := (r, if r \<noteq> 0 then CHR ''1'' else CHR ''0''))\<rparr>))"

definition reply_sub :: "int \<Rightarrow> string \<Rightarrow> shared \<Rightarrow> shared res" where
  "reply_sub fdOut key s =
     (let c = guest s fdOut;
          respond = (\<lambda>c' w. s\<lparr>guest := (guest s)(fdOut := c'),
            kern := snd (write_to_resp_pipe w (fdResp c) OP_CODE_SUBSCRIBE (snd (reply s fdOut)))\<rparr>) in
      if fst (reply s fdOut) = 0 then
        (case alloc (kern s) of (sub_ok, w1) \<Rightarrow>
           if \<not> sub_ok then Inr (s\<lparr>kern := w1\<rparr>)
           else (case alloc w1 of (key_ok, w2) \<Rightarrow>
             if \<not> key_ok then Inr (s\<lparr>kern := w2\<rparr>)
             else Inr (respond (c\<lparr>subscriptions := key # subscriptions c\<rparr>) w2)))
      else Inr (respond c (kern s)))"

definition reply_unsub :: "int \<Rightarrow> shared \<Rightarrow> shared res" where
  "reply_unsub fdOut s =
     Inr (s\<lparr>kern := snd (write_to_resp_pipe (kern s) (fdResp (guest s fdOut)) OP_CODE_UNSUBSCRIBE
       (snd (reply s fdOut)))\<rparr>)"

lemmas request_part_defs [simp] =
  forget_key_def add_sub_def drop_sub_def reply_sub_def reply_unsub_def

fun access_run :: "int \<times> access \<Rightarrow> shared \<Rightarrow> shared res" where
  "access_run (fdOut, PutPair key val) s =
     bindE (write_loop write_pair [(key, val)] (tbl s, kern s))
       (\<lambda>(t, w). Inr (s\<lparr>tbl := t, kern := w\<rparr>))"
| "access_run (fdOut, PrintText text) s = Inr (s\<lparr>kern := emit (kern s) fdOut text\<rparr>)"
| "access_run (fdOut, ReadKey key) s =
     bindE (read_loop read_pair (tbl s) fdOut [key] (kern s)) (\<lambda>w. Inr (s\<lparr>kern := w\<rparr>))"
| "access_run (fdOut, StartDelete) s =
     Inr (s\<lparr>missing_seen := (missing_seen s)(fdOut := False)\<rparr>)"
| "access_run (fdOut, DeleteKey key) s =
     bindE (delete_loop delete_pair fdOut [key] (missing_seen s fdOut, tbl s, kern s))
       (\<lambda>(aux, t, w). Inr (s\<lparr>tbl := t, kern := w, missing_seen := (missing_seen s)(fdOut := aux)\<rparr>))"
| "access_run (fdOut, EndDelete) s =
     Inr (if missing_seen s fdOut
          then s\<lparr>kern := emit (kern s) fdOut ('']'' @ [newline])\<rparr> else s)"
| "access_run (fdOut, ShowBucket i) s =
     bindE (show_bucket fdOut (buckets (tbl s) ! i) (kern s)) (\<lambda>w. Inr (s\<lparr>kern := w\<rparr>))"
| "access_run (fdOut, ForkBackup) s =
     Inr (s\<lparr>snapshots := (snapshots s)(fdOut := snapshots s fdOut @ [Table (tbl s)])\<rparr>)"
| "access_run (fdOut, ForgetKey key) s = forget_key fdOut key s"
| "access_run (fdOut, AddSub key) s = add_sub fdOut key s"
| "access_run (fdOut, DropSub key) s = drop_sub fdOut key s"
| "access_run (fdOut, ReplySub key) s = reply_sub fdOut key s"
| "access_run (fdOut, ReplyUnsub) s = reply_unsub fdOut s"

subsection \<open>The interface\<close>

locale access_contract =
  fixes run :: "'a \<Rightarrow> 's \<Rightarrow> 's res"
    and ok :: "'a \<Rightarrow> bool"
    and inv :: "'s \<Rightarrow> bool"
    and view :: "'s \<Rightarrow> 'p \<Rightarrow> 'v"
    and reads :: "'a \<Rightarrow> 'p set"
    and writes :: "'a \<Rightarrow> 'p set"
  assumes runs: "inv s \<Longrightarrow> ok a \<Longrightarrow>
      \<exists>s'. run a s = Inr s' \<and> inv s' \<and> (\<forall>p. p \<notin> writes a \<longrightarrow> view s' p = view s p)"
    and agrees: "inv s \<Longrightarrow> inv t \<Longrightarrow> ok a \<Longrightarrow> (\<forall>p \<in> reads a. view s p = view t p) \<Longrightarrow>
      run a s = Inr s' \<Longrightarrow> run a t = Inr t' \<Longrightarrow> p \<in> reads a \<Longrightarrow> view s' p = view t' p"
    and writes_reads: "ok a \<Longrightarrow> writes a \<subseteq> reads a"
begin

lemma run_inv: "inv s \<Longrightarrow> ok a \<Longrightarrow> run a s = Inr s' \<Longrightarrow> inv s'"
  using runs [of s a] by auto

lemma run_frame: "inv s \<Longrightarrow> ok a \<Longrightarrow> run a s = Inr s' \<Longrightarrow> p \<notin> writes a \<Longrightarrow> view s' p = view s p"
  using runs [of s a] by auto

lemma list_runs:
  assumes "inv s" and "\<forall>a \<in> set as. ok a"
  shows "\<exists>s'. for_each run as s = Inr s' \<and> inv s' \<and>
    (\<forall>p. (\<forall>a \<in> set as. p \<notin> writes a) \<longrightarrow> view s' p = view s p)"
  using assms
proof (induction as arbitrary: s)
  case Nil
  then show ?case by simp
next
  case (Cons a as)
  obtain s1 where s1: "run a s = Inr s1" "inv s1" "\<forall>p. p \<notin> writes a \<longrightarrow> view s1 p = view s p"
    using runs [of s a] Cons.prems by auto
  with Cons.IH [of s1] Cons.prems(2) show ?case by auto
qed

text \<open>Two states that agree on a set of places around the reads agree on it afterwards.\<close>

lemma list_agrees:
  assumes "inv s" and "inv t" and "\<forall>a \<in> set as. ok a \<and> reads a \<subseteq> P"
    and "\<forall>p \<in> P. view s p = view t p"
    and "for_each run as s = Inr s'" and "for_each run as t = Inr t'"
  shows "\<forall>p \<in> P. view s' p = view t' p"
  using assms
proof (induction as arbitrary: s t)
  case Nil
  then show ?case by simp
next
  case (Cons a as)
  have ok: "ok a" "reads a \<subseteq> P" using Cons.prems(3) by simp_all
  obtain s1 t1 where 1: "run a s = Inr s1" "run a t = Inr t1"
    "for_each run as s1 = Inr s'" "for_each run as t1 = Inr t'"
    using Cons.prems(5,6) by auto
  have "view s1 p = view t1 p" if "p \<in> P" for p
  proof (cases "p \<in> reads a")
    case True
    show ?thesis
      using agrees [OF Cons.prems(1,2) ok(1) _ 1(1,2) True] ok(2) Cons.prems(4) by blast
  next
    case False
    then have "p \<notin> writes a" using writes_reads [OF ok(1)] by blast
    then show ?thesis
      using run_frame [OF Cons.prems(1) ok(1) 1(1)] run_frame [OF Cons.prems(2) ok(1) 1(2)]
        Cons.prems(4) that by simp
  qed
  with Cons.IH [of s1 t1] run_inv Cons.prems(1-3) ok(1) 1 show ?case by auto
qed

end


subsection \<open>The places of the shared state\<close>

datatype place = PairsAt nat | SubsAt nat | OutputOf int

text \<open>
  The threads: their output files or response pipes, and which of them are session threads. Without
  session threads everything is compared; with them the children of \<open>BACKUP\<close>, which are forked under
  the global lock only, are compared without the subscribers.
\<close>

record scope =
  fds :: "int set"
  guests :: "int set"

definition pairs_only :: "key_node list \<Rightarrow> key_node list" where
  "pairs_only b = map (\<lambda>n. n\<lparr>nsubs := []\<rparr>) b"

definition seen_bucket :: "scope \<Rightarrow> key_node list \<Rightarrow> key_node list" where
  "seen_bucket D b = (if guests D = {} then b else pairs_only b)"

fun without_subs :: "table_ptr \<Rightarrow> table_ptr" where
  "without_subs (Table ht) = Table (ht\<lparr>buckets := map pairs_only (buckets ht)\<rparr>)"
| "without_subs t = t"

definition seen_table :: "scope \<Rightarrow> table_ptr \<Rightarrow> table_ptr" where
  "seen_table D t = (if guests D = {} then t else without_subs t)"

text \<open>
  Only the output files and response pipes of the threads count. The pipes of subscribers, where the
  notifications of several threads meet, are the subject of NotifyRace.
\<close>

datatype sight =
  SeenPairs "key_node list" | SeenSubs "int list list"
| SeenThread "(bool \<times> string \<times> table_ptr list \<times> client \<times> int \<times> char) option"

fun view :: "scope \<Rightarrow> shared \<Rightarrow> place \<Rightarrow> sight" where
  "view D s (PairsAt i) = SeenPairs (seen_bucket D (buckets (tbl s) ! i))"
| "view D s (SubsAt i) = SeenSubs (map nsubs (buckets (tbl s) ! i))"
| "view D s (OutputOf fdOut) =
     SeenThread (if fdOut \<in> fds D
       then Some (missing_seen s fdOut, w_out (kern s) fdOut, map (seen_table D) (snapshots s fdOut),
         guest s fdOut, reply s fdOut)
       else None)"

fun access_reads :: "int \<times> access \<Rightarrow> place set" where
  "access_reads (fdOut, PutPair key val) = {PairsAt (bucket_of key), SubsAt (bucket_of key)}"
| "access_reads (fdOut, ReadKey key) = {PairsAt (bucket_of key), OutputOf fdOut}"
| "access_reads (fdOut, DeleteKey key) = {PairsAt (bucket_of key), SubsAt (bucket_of key), OutputOf fdOut}"
| "access_reads (fdOut, ShowBucket i) = {PairsAt i, OutputOf fdOut}"
| "access_reads (fdOut, ForkBackup) = insert (OutputOf fdOut) (range PairsAt)"
| "access_reads (fdOut, AddSub key) = {PairsAt (bucket_of key), SubsAt (bucket_of key), OutputOf fdOut}"
| "access_reads (fdOut, DropSub key) = {PairsAt (bucket_of key), SubsAt (bucket_of key), OutputOf fdOut}"
| "access_reads (fdOut, _) = {OutputOf fdOut}"

fun access_writes :: "int \<times> access \<Rightarrow> place set" where
  "access_writes (fdOut, PutPair key val) = {PairsAt (bucket_of key), SubsAt (bucket_of key)}"
| "access_writes (fdOut, DeleteKey key) = {PairsAt (bucket_of key), SubsAt (bucket_of key), OutputOf fdOut}"
| "access_writes (fdOut, AddSub key) = {SubsAt (bucket_of key), OutputOf fdOut}"
| "access_writes (fdOut, DropSub key) = {SubsAt (bucket_of key), OutputOf fdOut}"
| "access_writes (fdOut, _) = {OutputOf fdOut}"

text \<open>
  The output files of the threads are open, meet no failing write and are not the pipes of
  subscribers; memory does not run out. A session thread has a client with its response pipe.
\<close>

definition good :: "scope \<Rightarrow> shared \<Rightarrow> bool" where
  "good D s \<longleftrightarrow> sound_table (tbl s) \<and> calm (kern s) \<and>
     (\<forall>fd \<in> fds D. healthy (kern s) fd \<and> fd \<notin> targets (tbl s)) \<and> guests D \<subseteq> fds D \<and>
     (\<forall>fd \<in> guests D. fdResp (guest s fd) = fd \<and> fdNotif (guest s fd) \<notin> fds D)"

definition request_key_ok :: "string \<Rightarrow> bool" where
  "request_key_ok key \<longleftrightarrow> valid_key key \<and> length key \<le> MAX_STRING_SIZE"

fun admissible :: "scope \<Rightarrow> int \<times> access \<Rightarrow> bool" where
  "admissible D (fdOut, PutPair key val) \<longleftrightarrow> fdOut \<in> fds D \<and> valid_key key"
| "admissible D (fdOut, ReadKey key) \<longleftrightarrow> fdOut \<in> fds D \<and> valid_key key"
| "admissible D (fdOut, DeleteKey key) \<longleftrightarrow> fdOut \<in> fds D \<and> valid_key key"
| "admissible D (fdOut, ShowBucket i) \<longleftrightarrow> fdOut \<in> fds D \<and> i < TABLE_SIZE"
| "admissible D (fdOut, ForgetKey key) \<longleftrightarrow> fdOut \<in> guests D \<and> fdOut \<in> fds D"
| "admissible D (fdOut, AddSub key) \<longleftrightarrow> fdOut \<in> guests D \<and> fdOut \<in> fds D \<and> valid_key key"
| "admissible D (fdOut, DropSub key) \<longleftrightarrow> fdOut \<in> guests D \<and> fdOut \<in> fds D \<and> valid_key key"
| "admissible D (fdOut, ReplySub key) \<longleftrightarrow> fdOut \<in> guests D \<and> fdOut \<in> fds D"
| "admissible D (fdOut, ReplyUnsub) \<longleftrightarrow> fdOut \<in> guests D \<and> fdOut \<in> fds D"
| "admissible D (fdOut, _) \<longleftrightarrow> fdOut \<in> fds D"

text \<open>What is seen of a bucket.\<close>

lemma pairs_only_same:
  "pairs_only b = pairs_only b' \<Longrightarrow> map nsubs b = map nsubs b' \<Longrightarrow> b = b'"
proof (induction b arbitrary: b')
  case Nil
  then show ?case by (simp add: pairs_only_def)
next
  case (Cons n b)
  then obtain n' b1 where b': "b' = n' # b1" by (cases b') (auto simp: pairs_only_def)
  have "n = n'" using Cons.prems b' by (cases n; cases n') (simp add: pairs_only_def)
  then show ?case using Cons b' by (simp add: pairs_only_def)
qed

lemma same_bucket:
  assumes "view D s (PairsAt i) = view D t (PairsAt i)" and "view D s (SubsAt i) = view D t (SubsAt i)"
  shows "buckets (tbl s) ! i = buckets (tbl t) ! i"
  using assms pairs_only_same by (simp add: seen_bucket_def split: if_splits)

lemma seen_bucket_map [simp]:
  "bucket_map (pairs_only b) k = map_option (\<lambda>n. n\<lparr>nsubs := []\<rparr>) (bucket_map b k)"
  by (induction b) (simp_all add: pairs_only_def)

subsection \<open>What the operations on the table leave in a bucket\<close>

definition put_bucket :: "string \<Rightarrow> string \<Rightarrow> key_node list \<Rightarrow> key_node list" where
  "put_bucket k v b =
     (case write_existing b k v quiet_world of
        Some (b', w) \<Rightarrow> b' | None \<Rightarrow> \<lparr>nkey = k, nvalue = Some v, nsubs = []\<rparr> # b)"

definition drop_bucket :: "string \<Rightarrow> key_node list \<Rightarrow> key_node list" where
  "drop_bucket k b = (case delete_search b k quiet_world of Some (b', w) \<Rightarrow> b' | None \<Rightarrow> b)"

lemma write_existing_calm:
  "w_allocs w = [] \<Longrightarrow>
   map_option fst (write_existing b k v w) = map_option fst (write_existing b k v quiet_world)"
  by (induction b) (auto simp: Let_def split: option.splits)

lemma delete_search_any:
  "map_option fst (delete_search b k w) = map_option fst (delete_search b k quiet_world)"
  by (induction b) (auto split: option.splits)

lemma write_pair_bucket:
  assumes "valid_key k" and "calm w" and "write_pair ht k v w = Inr (r, ht', w')"
  shows "buckets ht' = (buckets ht)[bucket_of k := put_bucket k v (buckets ht ! bucket_of k)]"
proof -
  let ?b = "buckets ht ! bucket_of k"
  have eq: "map_option fst (write_existing ?b k v w) = map_option fst (write_existing ?b k v quiet_world)"
    by (rule write_existing_calm) (use assms(2) in \<open>simp add: calm_def\<close>)
  show ?thesis
  proof (cases "write_existing ?b k v w")
    case None
    then have "write_existing ?b k v quiet_world = None" using eq by simp
    then show ?thesis
      using assms None by (auto simp: write_pair_def put_bucket_def bucket_of_def calm_def Let_def)
  next
    case (Some p)
    then obtain w1 where "write_existing ?b k v quiet_world = Some (fst p, w1)"
      using eq by (cases "write_existing ?b k v quiet_world") auto
    then show ?thesis
      using assms Some by (auto simp: write_pair_def put_bucket_def bucket_of_def Let_def split: prod.splits)
  qed
qed

lemma delete_pair_bucket:
  assumes "valid_key k" and "delete_pair ht k w = Inr (r, ht', w')"
  shows "buckets ht' = (buckets ht)[bucket_of k := drop_bucket k (buckets ht ! bucket_of k)]"
proof -
  let ?b = "buckets ht ! bucket_of k"
  have eq: "map_option fst (delete_search ?b k w) = map_option fst (delete_search ?b k quiet_world)"
    by (rule delete_search_any)
  show ?thesis
  proof (cases "delete_search ?b k w")
    case None
    then have "delete_search ?b k quiet_world = None" using eq by simp
    then show ?thesis
      using assms None by (auto simp: delete_pair_def drop_bucket_def bucket_of_def Let_def)
  next
    case (Some p)
    then obtain w1 where "delete_search ?b k quiet_world = Some (fst p, w1)"
      using eq by (cases "delete_search ?b k quiet_world") auto
    then show ?thesis
      using assms Some by (auto simp: delete_pair_def drop_bucket_def bucket_of_def Let_def split: prod.splits)
  qed
qed

lemma kvs_map_bucket:
  "valid_key k \<Longrightarrow> buckets ht ! bucket_of k = buckets ht' ! bucket_of k \<Longrightarrow> kvs_map ht k = kvs_map ht' k"
  by (simp add: kvs_map_def node_of_bucket bucket_of_def)

subsection \<open>Each access keeps its contract\<close>

lemma goodI:
  assumes "good D s" and "sound_table t" and "targets t \<subseteq> targets (tbl s)"
    and "only_writes S (kern s) w"
  shows "good D (s\<lparr>tbl := t, kern := w, missing_seen := m\<rparr>)"
  using assms only_writes_calm [OF assms(4)] only_writes_healthy [OF assms(4)]
  by (auto simp: good_def)

lemma good_kern:
  "good D s \<Longrightarrow> only_writes S (kern s) w \<Longrightarrow> good D (s\<lparr>kern := w\<rparr>)"
  using only_writes_calm only_writes_healthy by (auto simp: good_def)

lemma put_access:
  assumes "good D s" and "valid_key k"
  obtains t w where "access_run (fd, PutPair k v) s = Inr (s\<lparr>tbl := t, kern := w\<rparr>)"
    "good D (s\<lparr>tbl := t, kern := w\<rparr>)"
    "buckets t = (buckets (tbl s))[bucket_of k := put_bucket k v (buckets (tbl s) ! bucket_of k)]"
    "\<And>g. g \<in> fds D \<Longrightarrow> w_out w g = w_out (kern s) g"
proof -
  have s: "sound_table (tbl s)" "calm (kern s)" using assms(1) by (simp_all add: good_def)
  obtain t w where run: "write_pair (tbl s) k v (kern s) = Inr (0, t, w)" "sound_table t"
    "targets t = targets (tbl s)" "only_writes (targets (tbl s)) (kern s) w"
    using write_pair_law [OF s(1) assms(2) s(2)] by blast
  show thesis
  proof (rule that [of w t])
    show "good D (s\<lparr>tbl := t, kern := w\<rparr>)"
      using goodI [OF assms(1) run(2) _ run(4), of "missing_seen s"] run(3) by simp
    show "w_out w g = w_out (kern s) g" if "g \<in> fds D" for g
      using only_writes_output [OF run(4)] assms(1) that by (simp add: good_def)
  qed (use run(1) write_pair_bucket [OF assms(2) s(2) run(1)] in \<open>simp_all add: write_loop_def\<close>)
qed

lemma delete_access:
  assumes "good D s" and "valid_key k" and "fd \<in> fds D"
  obtains t w aux where "access_run (fd, DeleteKey k) s =
      Inr (s\<lparr>tbl := t, kern := w, missing_seen := (missing_seen s)(fd := aux)\<rparr>)"
    "good D (s\<lparr>tbl := t, kern := w, missing_seen := (missing_seen s)(fd := aux)\<rparr>)"
    "buckets t = (buckets (tbl s))[bucket_of k := drop_bucket k (buckets (tbl s) ! bucket_of k)]"
    "aux \<longleftrightarrow> missing_seen s fd \<or> kvs_map (tbl s) k = None"
    "w_out w fd = w_out (kern s) fd @ (if kvs_map (tbl s) k = None
       then (if missing_seen s fd then [] else ''['') @ missing_line k else [])"
    "\<And>g. g \<in> fds D \<Longrightarrow> g \<noteq> fd \<Longrightarrow> w_out w g = w_out (kern s) g"
proof -
  have s: "sound_table (tbl s)" "calm (kern s)" "healthy (kern s) fd" "fd \<notin> targets (tbl s)"
    using assms(1,3) by (auto simp: good_def)
  let ?m = "missing_keys (kvs_map (tbl s)) [k]"
  obtain r t w1 where run: "delete_pair (tbl s) k (kern s) = Inr (r, t, w1)"
    using delete_pair_law [OF s(1) assms(2) s(2)] by blast
  obtain t' w where loop: "delete_loop delete_pair fd [k] (missing_seen s fd, tbl s, kern s) =
      Inr (missing_seen s fd \<or> ?m \<noteq> [], t', w)" "sound_table t'" "targets t' \<subseteq> targets (tbl s)"
    "only_writes (insert fd (targets (tbl s))) (kern s) w"
    "w_out w fd = w_out (kern s) fd @ (if missing_seen s fd \<or> ?m = [] then [] else ''['') @
       concat (map missing_line ?m)"
    using kvs.delete_loop_spec [OF s(1) _ s(2-4), of "[k]" "missing_seen s fd"] assms(2) by auto
  have t': "t' = t" using loop(1) run by (auto simp: delete_loop_def Let_def split: if_splits)
  show thesis
  proof (rule that [of "missing_seen s fd \<or> ?m \<noteq> []" w t])
    show "good D (s\<lparr>tbl := t, kern := w,
        missing_seen := (missing_seen s)(fd := missing_seen s fd \<or> ?m \<noteq> [])\<rparr>)"
      using goodI [OF assms(1) loop(2,3,4)] t' by simp
    show "w_out w g = w_out (kern s) g" if "g \<in> fds D" "g \<noteq> fd" for g
      using only_writes_output [OF loop(4)] assms(1) that by (simp add: good_def)
  qed (use loop(1,5) t' delete_pair_bucket [OF assms(2) run] in auto)
qed

text \<open>The accesses that only print: what they print depends on the places they read.\<close>

lemma good_emit:
  assumes "good D s" and "fd \<in> fds D"
  shows "good D (s\<lparr>kern := (kern s)\<lparr>w_out := (w_out (kern s))(fd := out)\<rparr>\<rparr>)"
    and "emit (kern s) fd text = (kern s)\<lparr>w_out := (w_out (kern s))(fd := w_out (kern s) fd @ text)\<rparr>"
  using assms by (auto simp: good_def calm_def healthy_def emit_healthy)

definition read_text :: "key_node list \<Rightarrow> string \<Rightarrow> string" where
  "read_text b k = read_line k (case bucket_map b k of None \<Rightarrow> None | Some n \<Rightarrow> nvalue n)"

definition show_text :: "key_node list \<Rightarrow> string" where
  "show_text b = concat (map (\<lambda>n. show_line (nkey n) (the (nvalue n))) b)"

lemma read_access:
  assumes "good D s" and "valid_key k" and "fd \<in> fds D"
  shows "access_run (fd, ReadKey k) s = Inr (s\<lparr>kern := (kern s)\<lparr>w_out := (w_out (kern s))
    (fd := w_out (kern s) fd @ read_text (buckets (tbl s) ! bucket_of k) k)\<rparr>\<rparr>)"
proof -
  have s: "sound_table (tbl s)" "calm (kern s)" "healthy (kern s) fd"
    using assms(1,3) by (auto simp: good_def)
  have "kvs_map (tbl s) k =
      (case bucket_map (buckets (tbl s) ! bucket_of k) k of None \<Rightarrow> None | Some n \<Rightarrow> nvalue n)"
    using assms(2) by (simp add: kvs_map_def node_of_bucket bucket_of_def)
  then show ?thesis
    using kvs.read_loop_spec [OF s(1) _ s(2,3), of "[k]"] assms(2) by (simp add: read_text_def)
qed

lemma show_access:
  assumes "good D s" and "i < TABLE_SIZE" and "fd \<in> fds D"
  shows "access_run (fd, ShowBucket i) s = Inr (s\<lparr>kern := (kern s)\<lparr>w_out := (w_out (kern s))
    (fd := w_out (kern s) fd @ show_text (buckets (tbl s) ! i))\<rparr>\<rparr>)"
proof -
  have s: "wf_table (tbl s)" "no_null (tbl s)" "healthy (kern s) fd"
    using assms(1,3) by (auto simp: good_def sound_table_def)
  have "buckets (tbl s) ! i \<in> set (buckets (tbl s))" using assms(2) s(1) by simp
  then have "nvalue n \<noteq> None" if "n \<in> set (buckets (tbl s) ! i)" for n
    using s(2) that by (auto simp: no_null_def all_nodes_def)
  then have "show_bucket fd (buckets (tbl s) ! i) (kern s) = Inr ((kern s)\<lparr>w_out := (w_out (kern s))
    (fd := w_out (kern s) fd @ show_text (buckets (tbl s) ! i))\<rparr>)"
    unfolding show_bucket_def show_text_def using s(3)
    by (intro print_nodes) (auto simp: emit_healthy show_line_nonempty)
  then show ?thesis by simp
qed

text \<open>What a thread reads of a pair it also reads of a bucket without subscribers.\<close>

lemma seen_texts:
  "read_text (seen_bucket D b) k = read_text b k" "show_text (seen_bucket D b) = show_text b"
  by (simp_all add: seen_bucket_def read_text_def show_text_def option.case_distrib [of nvalue]
      split: option.splits) (simp_all add: pairs_only_def comp_def)

text \<open>The accesses of session threads.\<close>

definition sub_reply :: "key_node list \<Rightarrow> string \<Rightarrow> int \<Rightarrow> int \<times> char" where
  "sub_reply b k fd =
     (case bucket_map b k of
        None \<Rightarrow> (0, RESULT_KEY_DOESNT_EXIST)
      | Some n \<Rightarrow> (if fd \<in> set (nsubs n) then 1 else 0, RESULT_KEY_EXISTS))"

definition drop_reply :: "key_node list \<Rightarrow> string \<Rightarrow> int \<Rightarrow> int \<times> char" where
  "drop_reply b k fd =
     (case bucket_map b k of
        None \<Rightarrow> (1, CHR ''1'')
      | Some n \<Rightarrow> if fd \<in> set (nsubs n) then (0, CHR ''0'') else (1, CHR ''1''))"

lemma keeps_pair_only: "keeps_pair g \<Longrightarrow> (g n)\<lparr>nsubs := []\<rparr> = n\<lparr>nsubs := []\<rparr>"
  by (cases "g n"; cases n) (auto simp: keeps_pair_def dest: spec [of _ n])

lemma modify_node_pairs:
  assumes "keeps_pair g"
  shows "pairs_only (buckets (modify_node ht k g) ! j) = pairs_only (buckets ht ! j)"
proof (cases "nat (hash k) < length (buckets ht)")
  case True
  then show ?thesis
    using keeps_pair_only [OF assms] by (simp add: modify_node_def nth_list_update_if pairs_only_def set_node_def)
next
  case False
  then show ?thesis by (simp add: modify_node_def list_update_beyond)
qed

lemma modify_node_other:
  "j \<noteq> nat (hash k) \<Longrightarrow> buckets (modify_node ht k g) ! j = buckets ht ! j"
  by (simp add: modify_node_def)

lemma subs_change:
  assumes "keeps_pair g" and "fd \<in> guests D"
  shows "seen_bucket D (buckets (modify_node ht k g) ! j) = seen_bucket D (buckets ht ! j)"
    and "j \<noteq> bucket_of k \<Longrightarrow> buckets (modify_node ht k g) ! j = buckets ht ! j"
  using assms(2) modify_node_pairs [OF assms(1)] modify_node_other
  by (auto simp: seen_bucket_def bucket_of_def)

lemma good_bucket:
  assumes "good D s" and "valid_key k"
  shows "distinct (map nkey (buckets (tbl s) ! nat (hash k)))" and "\<not> hash k < 0"
    and "nat (hash k) < length (buckets (tbl s))"
proof -
  have wf: "wf_table (tbl s)" using assms(1) by (simp add: good_def sound_table_def)
  show "distinct (map nkey (buckets (tbl s) ! nat (hash k)))"
    using wf_table_bucket [OF wf assms(2)] by (simp add: wf_bucket_def)
  show "\<not> hash k < 0" using valid_key_not_neg [OF assms(2)] by simp
  show "nat (hash k) < length (buckets (tbl s))" using valid_key_index [OF assms(2)] wf by simp
qed

lemma good_targets:
  assumes "good D s" and "sound_table t" and "targets t \<subseteq> insert (fdNotif (guest s fd)) (targets (tbl s))"
    and "fd \<in> guests D"
  shows "good D (s\<lparr>tbl := t, reply := r\<rparr>)"
  using assms by (auto simp: good_def)

lemma targets_subscribers:
  assumes "sound_table t" and "sound_table u" and "\<And>k. set (subscribers t k) \<subseteq> F \<union> set (subscribers u k)"
  shows "targets t \<subseteq> F \<union> targets u"
  using assms targets_iff [of t] targets_iff [of u] by (fastforce simp: sound_table_def)

lemma add_access:
  assumes "good D s" and "valid_key k" and "fd \<in> guests D"
  defines "s' \<equiv> s\<lparr>tbl := subscribed (fdNotif (guest s fd)) k (tbl s),
    reply := (reply s)(fd := sub_reply (buckets (tbl s) ! bucket_of k) k (fdNotif (guest s fd)))\<rparr>"
  shows "access_run (fd, AddSub k) s = Inr s'" and "good D s'"
proof -
  have s: "sound_table (tbl s)" "w_allocs (kern s) = []" using assms(1) by (simp_all add: good_def calm_def)
  note b = good_bucket [OF assms(1,2)]
  have "set_node k g (buckets (tbl s) ! nat (hash k)) = buckets (tbl s) ! nat (hash k)"
    if "bucket_map (buckets (tbl s) ! nat (hash k)) k = None" for g
    using that by (intro set_node_absent) (simp add: bucket_map_None)
  then show "access_run (fd, AddSub k) s = Inr s'"
    using b(2) unfolding s'_def
    by (simp add: subscribe_search_eq [OF b(1) s(2)] subscribed_def modify_node_def sub_reply_def bucket_of_def
        split: option.splits)
  note sub = subscribed [OF assms(2) s(1), of "fdNotif (guest s fd)"]
  have "targets (subscribed (fdNotif (guest s fd)) k (tbl s)) \<subseteq> {fdNotif (guest s fd)} \<union> targets (tbl s)"
    by (rule targets_subscribers [OF sub(1) s(1)]) (auto simp: sub(3))
  then show "good D s'"
    unfolding s'_def by (intro good_targets [OF assms(1) sub(1) _ assms(3)]) simp
qed

lemma drop_access:
  assumes "good D s" and "valid_key k" and "fd \<in> guests D"
  defines "s' \<equiv> s\<lparr>tbl := unsubscribed (fdNotif (guest s fd)) k (tbl s),
    reply := (reply s)(fd := drop_reply (buckets (tbl s) ! bucket_of k) k (fdNotif (guest s fd)))\<rparr>"
  shows "access_run (fd, DropSub k) s = Inr s'" and "good D s'"
proof -
  have s: "sound_table (tbl s)" using assms(1) by (simp add: good_def)
  note b = good_bucket [OF assms(1,2)]
  have "set_node k g (buckets (tbl s) ! nat (hash k)) = buckets (tbl s) ! nat (hash k)"
    if "bucket_map (buckets (tbl s) ! nat (hash k)) k = None" for g
    using that by (intro set_node_absent) (simp add: bucket_map_None)
  then show "access_run (fd, DropSub k) s = Inr s'"
    using b(2) unfolding s'_def
    by (simp add: unsubscribe_search_eq [OF b(1)] unsubscribed_def modify_node_def drop_reply_def bucket_of_def
        split: option.splits)
  note sub = unsubscribed [OF assms(2) s, of "fdNotif (guest s fd)"]
  have "targets (unsubscribed (fdNotif (guest s fd)) k (tbl s)) \<subseteq> {fdNotif (guest s fd)} \<union> targets (tbl s)"
    by (rule targets_subscribers [OF sub(1) s]) (auto simp: sub(3))
  then show "good D s'"
    unfolding s'_def by (intro good_targets [OF assms(1) sub(1) _ assms(3)]) simp
qed

lemma reply_access:
  assumes "good D s" and "fd \<in> guests D"
  shows "access_run (fd, ReplySub k) s = Inr (s\<lparr>
      guest := (guest s)(fd := if fst (reply s fd) = 0
        then (guest s fd)\<lparr>subscriptions := k # subscriptions (guest s fd)\<rparr> else guest s fd),
      kern := (kern s)\<lparr>w_out := (w_out (kern s))(fd := w_out (kern s) fd @ [OP_CODE_SUBSCRIBE, snd (reply s fd)])\<rparr>\<rparr>)"
    and "access_run (fd, ReplyUnsub) s = Inr (s\<lparr>
      kern := (kern s)\<lparr>w_out := (w_out (kern s))(fd := w_out (kern s) fd @ [OP_CODE_UNSUBSCRIBE, snd (reply s fd)])\<rparr>\<rparr>)"
proof -
  have s: "w_allocs (kern s) = []" "healthy (kern s) fd" "fdResp (guest s fd) = fd"
    using assms by (auto simp: good_def calm_def)
  then show "access_run (fd, ReplySub k) s = Inr (s\<lparr>
      guest := (guest s)(fd := if fst (reply s fd) = 0
        then (guest s fd)\<lparr>subscriptions := k # subscriptions (guest s fd)\<rparr> else guest s fd),
      kern := (kern s)\<lparr>w_out := (w_out (kern s))(fd := w_out (kern s) fd @ [OP_CODE_SUBSCRIBE, snd (reply s fd)])\<rparr>\<rparr>)"
    by (simp add: Let_def alloc_plenty write_to_resp_pipe_healthy)
  show "access_run (fd, ReplyUnsub) s = Inr (s\<lparr>
      kern := (kern s)\<lparr>w_out := (w_out (kern s))(fd := w_out (kern s) fd @ [OP_CODE_UNSUBSCRIBE, snd (reply s fd)])\<rparr>\<rparr>)"
    using s(2,3) by (simp add: write_to_resp_pipe_healthy)
qed

lemma good_guest:
  assumes "good D s" and "fd \<in> fds D" and "fdResp c = fdResp (guest s fd)" and "fdNotif c = fdNotif (guest s fd)"
  shows "good D (s\<lparr>guest := (guest s)(fd := c), kern := (kern s)\<lparr>w_out := (w_out (kern s))(fd := out)\<rparr>\<rparr>)"
    and "good D (s\<lparr>guest := (guest s)(fd := c)\<rparr>)"
  using assms by (auto simp: good_def calm_def healthy_def)

lemma admissible_fd: "admissible D (fd, a) \<Longrightarrow> fd \<in> fds D"
  by (cases a) simp_all

text \<open>The contract of \<open>access_contract\<close> for the code's own loops.\<close>

lemma access_runs:
  assumes "good D s" and "admissible D (fd, a)"
  shows "\<exists>s'. access_run (fd, a) s = Inr s' \<and> good D s' \<and>
    (\<forall>p. p \<notin> access_writes (fd, a) \<longrightarrow> view D s' p = view D s p)"
proof (cases a)
  case (PutPair k v)
  then have k: "valid_key k" using assms(2) by simp
  show ?thesis
  proof (rule put_access [OF assms(1) k, of fd v], goal_cases)
    case (1 t w)
    have "view D (s\<lparr>tbl := t, kern := w\<rparr>) p = view D s p"
      if "p \<noteq> PairsAt (bucket_of k)" "p \<noteq> SubsAt (bucket_of k)" for p
      using 1(3,4) that by (cases p) (auto simp: nth_list_update_if)
    then show ?thesis using 1(1,2) PutPair by auto
  qed
next
  case (DeleteKey k)
  then have k: "valid_key k" "fd \<in> fds D" using assms(2) by simp_all
  show ?thesis
  proof (rule delete_access [OF assms(1) k], goal_cases)
    case (1 t w aux)
    have "view D (s\<lparr>tbl := t, kern := w, missing_seen := (missing_seen s)(fd := aux)\<rparr>) p = view D s p"
      if "p \<noteq> PairsAt (bucket_of k)" "p \<noteq> SubsAt (bucket_of k)" "p \<noteq> OutputOf fd" for p
      using 1(3,6) that by (cases p) auto
    then show ?thesis using 1(1,2) DeleteKey by auto
  qed
next
  case (ReadKey k)
  then have "valid_key k" "fd \<in> fds D" using assms(2) by simp_all
  note run = read_access [OF assms(1) this] and good = good_emit(1) [OF assms(1) this(2)]
  have "view D (s\<lparr>kern := (kern s)\<lparr>w_out := (w_out (kern s))(fd := out)\<rparr>\<rparr>) p = view D s p"
    if "p \<noteq> OutputOf fd" for p out using that by (cases p) auto
  then show ?thesis using run good ReadKey by simp
next
  case (ShowBucket i)
  then have "i < TABLE_SIZE" "fd \<in> fds D" using assms(2) by simp_all
  note run = show_access [OF assms(1) this] and good = good_emit(1) [OF assms(1) this(2)]
  have "view D (s\<lparr>kern := (kern s)\<lparr>w_out := (w_out (kern s))(fd := out)\<rparr>\<rparr>) p = view D s p"
    if "p \<noteq> OutputOf fd" for p out using that by (cases p) auto
  then show ?thesis using run good ShowBucket by simp
next
  case (PrintText msg)
  then have "fd \<in> fds D" using assms(2) by simp
  note g = good_emit [OF assms(1) this]
  have "view D (s\<lparr>kern := (kern s)\<lparr>w_out := (w_out (kern s))(fd := out)\<rparr>\<rparr>) p = view D s p"
    if "p \<noteq> OutputOf fd" for p out using that by (cases p) auto
  then show ?thesis using g PrintText by simp
next
  case StartDelete
  have "view D (s\<lparr>missing_seen := (missing_seen s)(fd := False)\<rparr>) p = view D s p"
    if "p \<noteq> OutputOf fd" for p using that by (cases p) auto
  moreover have "good D (s\<lparr>missing_seen := (missing_seen s)(fd := False)\<rparr>)"
    using assms(1) by (simp add: good_def)
  ultimately show ?thesis using StartDelete by simp
next
  case ForkBackup
  have "view D (s\<lparr>snapshots := (snapshots s)(fd := x)\<rparr>) p = view D s p"
    if "p \<noteq> OutputOf fd" for p x using that by (cases p) auto
  moreover have "good D (s\<lparr>snapshots := (snapshots s)(fd := x)\<rparr>)" for x
    using assms(1) by (simp add: good_def)
  ultimately show ?thesis using ForkBackup by simp
next
  case EndDelete
  then have "fd \<in> fds D" using assms(2) by simp
  note g = good_emit [OF assms(1) this]
  have "view D (s\<lparr>kern := (kern s)\<lparr>w_out := (w_out (kern s))(fd := out)\<rparr>\<rparr>) p = view D s p"
    if "p \<noteq> OutputOf fd" for p out using that by (cases p) auto
  then show ?thesis using g assms(1) EndDelete by simp
next
  case (ForgetKey k)
  then have "fd \<in> fds D" using assms(2) by simp
  note g = good_guest(2) [OF assms(1) this]
  have "view D (s\<lparr>guest := (guest s)(fd := c)\<rparr>) p = view D s p" if "p \<noteq> OutputOf fd" for p c
    using that by (cases p) auto
  then show ?thesis using g ForgetKey by simp
next
  case (AddSub k)
  then have k: "valid_key k" "fd \<in> guests D" using assms(2) by simp_all
  have "view D (s\<lparr>tbl := subscribed (fdNotif (guest s fd)) k (tbl s), reply := (reply s)(fd := r)\<rparr>) p = view D s p"
    if "p \<noteq> SubsAt (bucket_of k)" "p \<noteq> OutputOf fd" for p r
    using that subs_change [OF keeps_pair_subs(1) k(2)] by (cases p) (auto simp: subscribed_def)
  then show ?thesis using add_access [OF assms(1) k] AddSub by (auto simp del: access_run.simps)
next
  case (DropSub k)
  then have k: "valid_key k" "fd \<in> guests D" using assms(2) by simp_all
  have "view D (s\<lparr>tbl := unsubscribed (fdNotif (guest s fd)) k (tbl s), reply := (reply s)(fd := r)\<rparr>) p = view D s p"
    if "p \<noteq> SubsAt (bucket_of k)" "p \<noteq> OutputOf fd" for p r
    using that subs_change [OF keeps_pair_subs(2) k(2)] by (cases p) (auto simp: unsubscribed_def)
  then show ?thesis using drop_access [OF assms(1) k] DropSub by (auto simp del: access_run.simps)
next
  case (ReplySub k)
  then have k: "fd \<in> guests D" "fd \<in> fds D" using assms(2) by simp_all
  note g = good_guest(1) [OF assms(1) k(2)]
  have "view D (s\<lparr>guest := (guest s)(fd := c), kern := (kern s)\<lparr>w_out := (w_out (kern s))(fd := out)\<rparr>\<rparr>) p = view D s p"
    if "p \<noteq> OutputOf fd" for p c out using that by (cases p) auto
  then show ?thesis using g reply_access(1) [OF assms(1) k(1)] ReplySub by (simp del: access_run.simps)
next
  case ReplyUnsub
  then have k: "fd \<in> guests D" "fd \<in> fds D" using assms(2) by simp_all
  note g = good_emit(1) [OF assms(1) k(2)]
  have "view D (s\<lparr>kern := (kern s)\<lparr>w_out := (w_out (kern s))(fd := out)\<rparr>\<rparr>) p = view D s p"
    if "p \<noteq> OutputOf fd" for p out using that by (cases p) auto
  then show ?thesis using g reply_access(2) [OF assms(1) k(1)] ReplyUnsub by (simp del: access_run.simps)
qed

text \<open>Tables with the same buckets are the same.\<close>

lemma table_from_view:
  assumes "good D s" and "good D t" and "\<And>b. view D s (PairsAt b) = view D t (PairsAt b)"
    and "\<And>b. view D s (SubsAt b) = view D t (SubsAt b)"
  shows "tbl s = tbl t"
proof -
  have "length (buckets (tbl s)) = length (buckets (tbl t))"
    using assms(1,2) by (simp add: good_def sound_table_def)
  then show ?thesis using same_bucket [OF assms(3,4)] by (auto intro!: hash_table.equality nth_equalityI)
qed

lemma seen_table_from_view:
  assumes "good D s" and "good D t" and "\<And>b. view D s (PairsAt b) = view D t (PairsAt b)"
  shows "seen_table D (Table (tbl s)) = seen_table D (Table (tbl t))"
proof -
  have "length (buckets (tbl s)) = length (buckets (tbl t))"
    using assms(1,2) by (simp add: good_def sound_table_def)
  then have "map (seen_bucket D) (buckets (tbl s)) = map (seen_bucket D) (buckets (tbl t))"
    using assms(3) by (intro nth_equalityI) simp_all
  then show ?thesis
    by (cases "guests D = {}") (simp_all add: seen_table_def seen_bucket_def [abs_def])
qed

lemma modified_bucket:
  assumes "good D s" and "good D t" and "valid_key k"
    and "buckets (tbl s) ! bucket_of k = buckets (tbl t) ! bucket_of k" and "g = h"
  shows "buckets (modify_node (tbl s) k g) ! bucket_of k = buckets (modify_node (tbl t) k h) ! bucket_of k"
  using assms(4,5) good_bucket(3) [OF assms(1,3)] good_bucket(3) [OF assms(2,3)]
  by (simp add: modify_node_def bucket_of_def)

lemma access_agrees:
  assumes "good D s" and "good D t" and "admissible D (fd, a)"
    and "\<forall>p \<in> access_reads (fd, a). view D s p = view D t p"
    and "access_run (fd, a) s = Inr s'" and "access_run (fd, a) t = Inr t'"
    and "p \<in> access_reads (fd, a)"
  shows "view D s' p = view D t' p"
proof (cases a)
  case (PutPair k v)
  then have k: "valid_key k" using assms(3) by simp
  let ?i = "bucket_of k"
  have len: "?i < length (buckets (tbl s))" "?i < length (buckets (tbl t))"
    using assms(1,2) bucket_of_less [OF k] by (simp_all add: good_def sound_table_def)
  have after: "buckets (tbl u') ! ?i = put_bucket k v (buckets (tbl u) ! ?i)"
    if "good D u" "access_run (fd, PutPair k v) u = Inr u'" "?i < length (buckets (tbl u))" for u u'
    using that by (rule_tac put_access [OF that(1) k, of fd v]) auto
  show ?thesis
    using after [OF assms(1) _ len(1)] after [OF assms(2) _ len(2)] assms(4-7) PutPair same_bucket [of D s ?i t]
    by (auto simp del: access_run.simps)
next
  case (DeleteKey k)
  then have k: "valid_key k" "fd \<in> fds D" using assms(3) by simp_all
  let ?i = "bucket_of k"
  have len: "?i < length (buckets (tbl s))" "?i < length (buckets (tbl t))"
    using assms(1,2) bucket_of_less [OF k(1)] by (simp_all add: good_def sound_table_def)
  have same: "buckets (tbl s) ! ?i = buckets (tbl t) ! ?i" "missing_seen s fd = missing_seen t fd"
    "w_out (kern s) fd = w_out (kern t) fd" "map (seen_table D) (snapshots s fd) = map (seen_table D) (snapshots t fd)"
    "guest s fd = guest t fd" "reply s fd = reply t fd"
    using assms(4) k DeleteKey same_bucket [of D s ?i t] by simp_all
  have "kvs_map (tbl s) k = kvs_map (tbl t) k" by (rule kvs_map_bucket [OF k(1) same(1)])
  moreover have "buckets (tbl u') ! ?i = drop_bucket k (buckets (tbl u) ! ?i) \<and>
      (missing_seen u' fd \<longleftrightarrow> missing_seen u fd \<or> kvs_map (tbl u) k = None) \<and>
      w_out (kern u') fd = w_out (kern u) fd @ (if kvs_map (tbl u) k = None
        then (if missing_seen u fd then [] else ''['') @ missing_line k else []) \<and>
      snapshots u' fd = snapshots u fd \<and> guest u' fd = guest u fd \<and> reply u' fd = reply u fd"
    if "good D u" "access_run (fd, DeleteKey k) u = Inr u'" "?i < length (buckets (tbl u))" for u u'
    by (rule delete_access [OF that(1) k]) (use that(2,3) in \<open>auto simp del: access_run.simps\<close>)
  ultimately show ?thesis
    using assms(1,2,5-7) len same k(2) DeleteKey by (auto simp del: access_run.simps)
next
  case (ReadKey k)
  then have k: "valid_key k" "fd \<in> fds D" using assms(3) by simp_all
  show ?thesis
    using assms(4-7) ReadKey k(2) read_access [OF assms(1) k] read_access [OF assms(2) k]
      seen_texts(1) [of D "buckets (tbl s) ! bucket_of k" k] seen_texts(1) [of D "buckets (tbl t) ! bucket_of k" k]
    by (auto simp del: access_run.simps)
next
  case (ShowBucket i)
  then have i: "i < TABLE_SIZE" "fd \<in> fds D" using assms(3) by simp_all
  show ?thesis
    using assms(4-7) ShowBucket i(2) show_access [OF assms(1) i] show_access [OF assms(2) i]
      seen_texts(2) [of D "buckets (tbl s) ! i"] seen_texts(2) [of D "buckets (tbl t) ! i"]
    by (auto simp del: access_run.simps)
next
  case (PrintText msg)
  then have "fd \<in> fds D" using assms(3) by simp
  then show ?thesis
    using assms(4-7) PrintText good_emit(2) [OF assms(1)] good_emit(2) [OF assms(2)] by auto
next
  case StartDelete
  then show ?thesis using assms(3-7) by auto
next
  case ForkBackup
  then have "view D s (PairsAt b) = view D t (PairsAt b)" for b using assms(4) by auto
  then have "seen_table D (Table (tbl s)) = seen_table D (Table (tbl t))"
    by (rule seen_table_from_view [OF assms(1,2)])
  then show ?thesis using assms(3-7) ForkBackup by auto
next
  case EndDelete
  then have "fd \<in> fds D" using assms(3) by simp
  then show ?thesis
    using assms(4-7) EndDelete good_emit(2) [OF assms(1)] good_emit(2) [OF assms(2)] by auto
next
  case (ForgetKey k)
  then show ?thesis using assms(3-7) by auto
next
  case (AddSub k)
  then have k: "valid_key k" "fd \<in> guests D" "fd \<in> fds D" using assms(3) by simp_all
  let ?i = "bucket_of k"
  have same: "buckets (tbl s) ! ?i = buckets (tbl t) ! ?i" "guest s fd = guest t fd"
    using assms(4) k AddSub same_bucket [of D s ?i t] by simp_all
  have "buckets (subscribed (fdNotif (guest s fd)) k (tbl s)) ! ?i =
      buckets (subscribed (fdNotif (guest t fd)) k (tbl t)) ! ?i"
    unfolding subscribed_def by (rule modified_bucket [OF assms(1,2) k(1) same(1)]) (simp only: same(2))
  then show ?thesis
    using assms(4-7) same AddSub k(3) add_access(1) [OF assms(1) k(1,2)] add_access(1) [OF assms(2) k(1,2)]
    by (auto simp del: access_run.simps)
next
  case (DropSub k)
  then have k: "valid_key k" "fd \<in> guests D" "fd \<in> fds D" using assms(3) by simp_all
  let ?i = "bucket_of k"
  have same: "buckets (tbl s) ! ?i = buckets (tbl t) ! ?i" "guest s fd = guest t fd"
    using assms(4) k DropSub same_bucket [of D s ?i t] by simp_all
  have "buckets (unsubscribed (fdNotif (guest s fd)) k (tbl s)) ! ?i =
      buckets (unsubscribed (fdNotif (guest t fd)) k (tbl t)) ! ?i"
    unfolding unsubscribed_def by (rule modified_bucket [OF assms(1,2) k(1) same(1)]) (simp only: same(2))
  then show ?thesis
    using assms(4-7) same DropSub k(3) drop_access(1) [OF assms(1) k(1,2)] drop_access(1) [OF assms(2) k(1,2)]
    by (auto simp del: access_run.simps)
next
  case (ReplySub k)
  then have k: "fd \<in> guests D" "fd \<in> fds D" using assms(3) by simp_all
  show ?thesis
    using assms(4-7) ReplySub k(2) reply_access(1) [OF assms(1) k(1)] reply_access(1) [OF assms(2) k(1)]
    by (auto simp del: access_run.simps)
next
  case ReplyUnsub
  then have k: "fd \<in> guests D" "fd \<in> fds D" using assms(3) by simp_all
  show ?thesis
    using assms(4-7) ReplyUnsub k(2) reply_access(2) [OF assms(1) k(1)] reply_access(2) [OF assms(2) k(1)]
    by (auto simp del: access_run.simps)
qed

lemma access_writes_reads: "access_writes (fd, a) \<subseteq> access_reads (fd, a)"
  by (cases a) auto

interpretation acc: access_contract access_run "admissible D" "good D" "view D" access_reads access_writes
  for D
proof unfold_locales
  fix s t s' t' a p
  show "good D s \<Longrightarrow> admissible D a \<Longrightarrow> \<exists>s'. access_run a s = Inr s' \<and> good D s' \<and>
      (\<forall>p. p \<notin> access_writes a \<longrightarrow> view D s' p = view D s p)"
    using access_runs by (cases a) blast
  show "good D s \<Longrightarrow> good D t \<Longrightarrow> admissible D a \<Longrightarrow>
      (\<forall>p \<in> access_reads a. view D s p = view D t p) \<Longrightarrow> access_run a s = Inr s' \<Longrightarrow>
      access_run a t = Inr t' \<Longrightarrow> p \<in> access_reads a \<Longrightarrow> view D s' p = view D t' p"
    using access_agrees by (cases a) blast
  show "access_writes a \<subseteq> access_reads a"
    using access_writes_reads by (cases a) blast
qed

subsection \<open>The commands as lists of accesses\<close>

text \<open>
  The commands of a job thread, with the arguments the parser hands over, and the requests of a
  session thread. A disconnect frees the keys of the client one by one, each under the lock of its
  own bucket: \<open>ReleaseCmd\<close> is one turn of this loop of \<open>kvs_disconnect\<close>.
\<close>

datatype table_command =
  WriteCmd "string list" "string list" | ReadCmd "string list" | DeleteCmd "string list" | ShowCmd
| WaitCmd "32 word" | BackupCmd
| SubscribeCmd string | UnsubscribeCmd string | ReleaseCmd string

text \<open>
  A command run alone; the third part of the state are the tables the children of \<open>BACKUP\<close> got, the
  fourth the clients of the session threads. A request runs the function of the server on the
  object of its client.
\<close>

definition session_server :: "table_ptr \<Rightarrow> client \<Rightarrow> server" where
  "session_server t c = \<lparr>kvs_table = t, clients = [Some c], connectedClients = [Some 0]\<rparr>"

type_synonym serial_state = "table_ptr \<times> world \<times> (int \<Rightarrow> table_ptr list) \<times> (int \<Rightarrow> client)"

fun run_table_command ::
  "table_command \<Rightarrow> int \<Rightarrow> serial_state \<Rightarrow> serial_state res" where
  "run_table_command (WriteCmd keys vals) fdOut (t, w, bs, cl) =
     bindE (kvs_write t keys vals w) (\<lambda>(r, t', w'). Inr (t', w', bs, cl))"
| "run_table_command (ReadCmd keys) fdOut (t, w, bs, cl) =
     bindE (kvs_read t keys fdOut w) (\<lambda>(r, w'). Inr (t, w', bs, cl))"
| "run_table_command (DeleteCmd keys) fdOut (t, w, bs, cl) =
     bindE (kvs_delete t keys fdOut w) (\<lambda>(r, t', w'). Inr (t', w', bs, cl))"
| "run_table_command ShowCmd fdOut (t, w, bs, cl) =
     bindE (kvs_show t fdOut w) (\<lambda>(r, w'). Inr (t, w', bs, cl))"
| "run_table_command (WaitCmd delay) fdOut (t, w, bs, cl) =
     Inr (t, if delay > 0 then emit w fdOut waiting_line else w, bs, cl)"
| "run_table_command BackupCmd fdOut (t, w, bs, cl) = Inr (t, w, bs(fdOut := bs fdOut @ [t]), cl)"
| "run_table_command (SubscribeCmd key) fdOut (t, w, bs, cl) =
     bindE (kvs_subscribe key (Some 0) (session_server t (cl fdOut)) w) (\<lambda>(r, s', w').
       Inr (kvs_table s', w', bs, cl(fdOut := the (client_at s' 0))))"
| "run_table_command (UnsubscribeCmd key) fdOut (t, w, bs, cl) =
     bindE (kvs_unsubscribe key (Some 0) (session_server t (cl fdOut)) w) (\<lambda>(r, s', w').
       Inr (kvs_table s', w', bs, cl(fdOut := the (client_at s' 0))))"
| "run_table_command (ReleaseCmd key) fdOut (t, w, bs, cl) =
     bindE (kvs_aux_unsubscribe key (Some 0) (session_server t (cl fdOut)) w) (\<lambda>(r, s', w').
       Inr (kvs_table s', w', bs, cl))"

text \<open>
  The lock calls before the loop, the turns of the loop, the unlock calls after it, and what a
  request does after them: its answer. Lock 0 is the global lock, which a backup takes for writing
  and every command of a job thread on the table for reading; lock \<open>i + 1\<close> is the lock of bucket
  \<open>i\<close>. The update of the list of the client by \<open>kvs_unsubscribe\<close> concerns no other thread, so it may
  stand after the lock call.
\<close>

fun bucket_locks :: "table_command \<Rightarrow> lock_event list" where
  "bucket_locks (WriteCmd keys vals) = acquired WrLock keys"
| "bucket_locks (ReadCmd keys) = acquired RdLock keys"
| "bucket_locks (DeleteCmd keys) = acquired WrLock keys"
| "bucket_locks ShowCmd = map (\<lambda>i. RdLock (Bucket i)) [0..<TABLE_SIZE]"
| "bucket_locks (WaitCmd delay) = []"
| "bucket_locks BackupCmd = []"
| "bucket_locks (SubscribeCmd key) = [WrLock (Bucket (bucket_of key))]"
| "bucket_locks (UnsubscribeCmd key) = [WrLock (Bucket (bucket_of key))]"
| "bucket_locks (ReleaseCmd key) = [WrLock (Bucket (bucket_of key))]"

fun command_locks :: "table_command \<Rightarrow> (bool \<times> nat) list" where
  "command_locks (WaitCmd delay) = []"
| "command_locks BackupCmd = [(True, 0)]"
| "command_locks (SubscribeCmd key) = map (map_prod id Suc) (requests (bucket_locks (SubscribeCmd key)))"
| "command_locks (UnsubscribeCmd key) = map (map_prod id Suc) (requests (bucket_locks (UnsubscribeCmd key)))"
| "command_locks (ReleaseCmd key) = map (map_prod id Suc) (requests (bucket_locks (ReleaseCmd key)))"
| "command_locks c = (False, 0) # map (map_prod id Suc) (requests (bucket_locks c))"

fun command_accesses :: "table_command \<Rightarrow> access list" where
  "command_accesses (WriteCmd keys vals) =
     map (\<lambda>(key, val). PutPair key val) (qsort compare_pairs (zip keys vals))"
| "command_accesses (ReadCmd keys) =
     PrintText ''['' # map ReadKey (qsort compare_keys keys) @ [PrintText ('']'' @ [newline])]"
| "command_accesses (DeleteCmd keys) =
     StartDelete # map DeleteKey (qsort compare_keys keys) @ [EndDelete]"
| "command_accesses ShowCmd = map ShowBucket [0..<TABLE_SIZE]"
| "command_accesses (WaitCmd delay) = (if delay > 0 then [PrintText waiting_line] else [])"
| "command_accesses BackupCmd = [ForkBackup]"
| "command_accesses (SubscribeCmd key) = [AddSub key]"
| "command_accesses (UnsubscribeCmd key) = [ForgetKey key, DropSub key]"
| "command_accesses (ReleaseCmd key) = [DropSub key]"

fun command_replies :: "table_command \<Rightarrow> access list" where
  "command_replies (SubscribeCmd key) = [ReplySub key]"
| "command_replies (UnsubscribeCmd key) = [ReplyUnsub]"
| "command_replies _ = []"

definition command_turns :: "table_command \<Rightarrow> access list" where
  "command_turns c = command_accesses c @ command_replies c"

fun command_unlocks :: "table_command \<Rightarrow> nat list" where
  "command_unlocks (WriteCmd keys vals) = map Suc (touched keys) @ [0]"
| "command_unlocks (ReadCmd keys) = map Suc (touched keys) @ [0]"
| "command_unlocks (DeleteCmd keys) = map Suc (touched keys) @ [0]"
| "command_unlocks ShowCmd = map Suc [0..<TABLE_SIZE] @ [0]"
| "command_unlocks (WaitCmd delay) = []"
| "command_unlocks BackupCmd = [0]"
| "command_unlocks (SubscribeCmd key) = [Suc (bucket_of key)]"
| "command_unlocks (UnsubscribeCmd key) = [Suc (bucket_of key)]"
| "command_unlocks (ReleaseCmd key) = [Suc (bucket_of key)]"

fun command_keys :: "table_command \<Rightarrow> string list" where
  "command_keys (WriteCmd keys vals) = keys"
| "command_keys (ReadCmd keys) = keys"
| "command_keys (DeleteCmd keys) = keys"
| "command_keys (SubscribeCmd key) = [key]"
| "command_keys (UnsubscribeCmd key) = [key]"
| "command_keys (ReleaseCmd key) = [key]"
| "command_keys _ = []"

fun session_command :: "table_command \<Rightarrow> bool" where
  "session_command (SubscribeCmd key) \<longleftrightarrow> True"
| "session_command (UnsubscribeCmd key) \<longleftrightarrow> True"
| "session_command (ReleaseCmd key) \<longleftrightarrow> True"
| "session_command c \<longleftrightarrow> False"

fun command_ok :: "table_command \<Rightarrow> bool" where
  "command_ok (WriteCmd keys vals) \<longleftrightarrow> length vals = length keys \<and> (\<forall>k \<in> set keys. valid_key k)"
| "command_ok (SubscribeCmd key) \<longleftrightarrow> request_key_ok key"
| "command_ok (UnsubscribeCmd key) \<longleftrightarrow> request_key_ok key"
| "command_ok c \<longleftrightarrow> (\<forall>k \<in> set (command_keys c). valid_key k)"

text \<open>A command that a thread of the scope may run.\<close>

definition command_fits :: "scope \<Rightarrow> int \<Rightarrow> table_command \<Rightarrow> bool" where
  "command_fits D fd c \<longleftrightarrow> command_ok c \<and> fd \<in> fds D \<and> (session_command c \<longrightarrow> fd \<in> guests D)"

lemma put_accesses:
  "for_each access_run (map (Pair fd) (map (\<lambda>(k, v). PutPair k v) ps)) s =
     bindE (write_loop write_pair ps (tbl s, kern s)) (\<lambda>(t, w). Inr (s\<lparr>tbl := t, kern := w\<rparr>))"
proof (induction ps arbitrary: s)
  case Nil
  then show ?case by (simp add: write_loop_def)
next
  case (Cons p ps)
  then show ?case
    by (cases p; cases "write_pair (tbl s) (fst p) (snd p) (kern s)") (auto simp: write_loop_def)
qed

lemma read_accesses:
  "for_each access_run (map (Pair fd) (map ReadKey ks)) s =
     bindE (read_loop read_pair (tbl s) fd ks (kern s)) (\<lambda>w. Inr (s\<lparr>kern := w\<rparr>))"
proof (induction ks arbitrary: s)
  case Nil
  then show ?case by (simp add: read_loop_def)
next
  case (Cons k ks)
  then show ?case by (cases "read_pair (tbl s) k (kern s)") (auto simp: read_loop_def)
qed

lemma delete_accesses:
  "for_each access_run (map (Pair fd) (map DeleteKey ks)) s =
     bindE (delete_loop delete_pair fd ks (missing_seen s fd, tbl s, kern s))
       (\<lambda>(aux, t, w). Inr (s\<lparr>tbl := t, kern := w, missing_seen := (missing_seen s)(fd := aux)\<rparr>))"
proof (induction ks arbitrary: s)
  case Nil
  show ?case by (auto simp: delete_loop_def intro!: shared.equality)
next
  case (Cons k ks)
  then show ?case
    by (cases "delete_pair (tbl s) k (kern s)") (auto simp: delete_loop_def Let_def)
qed

lemma show_accesses:
  "for_each access_run (map (Pair fd) (map ShowBucket is)) s =
     bindE (for_each (show_bucket fd) (map (\<lambda>i. buckets (tbl s) ! i) is) (kern s))
       (\<lambda>w. Inr (s\<lparr>kern := w\<rparr>))"
proof (induction "is" arbitrary: s)
  case Nil
  then show ?case by simp
next
  case (Cons i "is")
  then show ?case by (cases "show_bucket fd (buckets (tbl s) ! i) (kern s)") auto
qed

text \<open>The trace of lock calls is no place of the shared state.\<close>

lemma view_locks [simp]: "view D (s\<lparr>kern := w\<lparr>w_locks := ls\<rparr>\<rparr>) p = view D (s\<lparr>kern := w\<rparr>) p"
  by (cases p) auto

lemma good_locks [simp]: "good D (s\<lparr>kern := w\<lparr>w_locks := ls\<rparr>\<rparr>) \<longleftrightarrow> good D (s\<lparr>kern := w\<rparr>)"
  by (simp add: good_def calm_def healthy_def)

lemma command_keys_valid:
  assumes "length vals = length keys" and "\<forall>k \<in> set keys. valid_key k"
  shows "\<forall>p \<in> set (qsort compare_pairs (zip keys vals)). valid_key (fst p)"
proof
  fix p
  assume "p \<in> set (qsort compare_pairs (zip keys vals))"
  then have "fst p \<in> set (map fst (qsort compare_pairs (zip keys vals)))" by simp
  then show "valid_key (fst p)" using assms sorted_pairs [OF assms(1)] by simp
qed

lemma command_admissible:
  assumes "command_fits D fd c"
  shows "\<forall>a \<in> set (map (Pair fd) (command_turns c)). admissible D a"
proof (cases c)
  case (WriteCmd keys vals)
  then show ?thesis
    using assms command_keys_valid [of vals keys] by (fastforce simp: command_fits_def command_turns_def)
qed (use assms in \<open>auto simp: command_fits_def command_turns_def request_key_ok_def\<close>)

text \<open>
  A command run alone does to the places of the shared state what its accesses do, and it cannot
  tell apart states that differ in the trace of lock calls only.
\<close>

lemma accesses_relocked:
  assumes "good D s" and "\<forall>a \<in> set as. admissible D a"
    and "for_each access_run as s = Inr e"
  obtains e' where "for_each access_run as (s\<lparr>kern := (kern s)\<lparr>w_locks := ls\<rparr>\<rparr>) = Inr e'"
    "good D e'" "\<And>p. view D e' p = view D e p"
proof -
  let ?s = "s\<lparr>kern := (kern s)\<lparr>w_locks := ls\<rparr>\<rparr>"
  have good: "good D ?s" using assms(1) by simp
  obtain e' where e': "for_each access_run as ?s = Inr e'" "good D e'"
    using acc.list_runs [OF good assms(2)] by blast
  have "\<forall>p \<in> UNIV. view D e p = view D e' p"
    by (rule acc.list_agrees [OF assms(1) good _ _ assms(3) e'(1)]) (use assms(2) in auto)
  then show thesis using that [OF e'] by simp
qed

lemma calm_good: "good D s \<Longrightarrow> w_lockres (kern s) = []"
  by (simp add: good_def calm_def)

lemma locked_accesses:
  assumes "good D s" and "command_fits D fd c"
    and "for_each access_run (map (Pair fd) (command_turns c)) s = Inr e"
    and "\<forall>k \<in> set keys. valid_key k"
  obtains il e' il' where
    "lock_list mode (sort keys) no_locks (kern s) =
       Inr (0, il, (kern s)\<lparr>w_locks := w_locks (kern s) @ acquired mode keys\<rparr>)"
    "for_each access_run (map (Pair fd) (command_turns c))
       (s\<lparr>kern := (kern s)\<lparr>w_locks := w_locks (kern s) @ acquired mode keys\<rparr>\<rparr>) = Inr e'"
    "good D e'" "\<And>p. view D e' p = view D e p"
    "unlock_list il (kern e') =
       (0, il', (kern e')\<lparr>w_locks := w_locks (kern e') @ released keys\<rparr>)"
proof -
  obtain il where il: "lock_list mode (sort keys) no_locks (kern s) =
       Inr (0, il, (kern s)\<lparr>w_locks := w_locks (kern s) @ acquired mode keys\<rparr>)"
    "\<And>w1. w_lockres w1 = [] \<Longrightarrow>
       \<exists>il'. unlock_list il w1 = (0, il', w1\<lparr>w_locks := w_locks w1 @ released keys\<rparr>)"
    using lock_command [of keys "kern s" mode] calm_good [OF assms(1)] assms(4) by metis
  obtain e' where e': "for_each access_run (map (Pair fd) (command_turns c))
      (s\<lparr>kern := (kern s)\<lparr>w_locks := w_locks (kern s) @ acquired mode keys\<rparr>\<rparr>) = Inr e'"
    "good D e'" "\<And>p. view D e' p = view D e p"
    using accesses_relocked [OF assms(1) command_admissible [OF assms(2)] assms(3)] by blast
  then show thesis using that il il(2) [OF calm_good [OF e'(2)]] by blast
qed

lemma reply_subscribers:
  assumes "good D s" and "valid_key key"
  shows "sub_reply (buckets (tbl s) ! bucket_of key) key f =
      (if f \<in> set (subscribers (tbl s) key) then 1 else 0,
       if node_of (tbl s) key = None then RESULT_KEY_DOESNT_EXIST else RESULT_KEY_EXISTS)"
    and "drop_reply (buckets (tbl s) ! bucket_of key) key f =
      (if f \<in> set (subscribers (tbl s) key) then (0, CHR ''0'') else (1, CHR ''1''))"
  by (auto simp: sub_reply_def drop_reply_def subscribers_def node_of_bucket [OF assms(2)] bucket_of_def
      split: option.splits)

lemma session_server_client:
  "client_at (session_server t c) 0 = Some c"
  "client_at (store_client (session_server t c\<lparr>kvs_table := t'\<rparr>) (Some 0) (Some c')) 0 = Some c'"
  by (simp_all add: session_server_def client_at_def store_client_def)

lemma subscribe_accesses:
  assumes "good D s" and "valid_key key" and "length key \<le> MAX_STRING_SIZE" and "fd \<in> guests D"
  obtains e s' where "for_each access_run (map (Pair fd) (command_turns (SubscribeCmd key))) s = Inr e"
    and "run_table_command (SubscribeCmd key) fd (Table (tbl s), kern s, snapshots s, guest s) =
      Inr (Table (tbl s'), kern s', snapshots s', guest s')"
    and "good D s'" and "\<And>p. view D s' p = view D e p"
proof -
  let ?c = "guest s fd" and ?t = "subscribed (fdNotif (guest s fd)) key (tbl s)"
  let ?c' = "if fdNotif ?c \<in> set (subscribers (tbl s) key) then ?c else ?c\<lparr>subscriptions := key # subscriptions ?c\<rparr>"
  let ?answer = "[OP_CODE_SUBSCRIBE, if node_of (tbl s) key = None then RESULT_KEY_DOESNT_EXIST else RESULT_KEY_EXISTS]"
  have s: "sound_table (tbl s)" "calm (kern s)" "healthy (kern s) fd" "fdResp ?c = fd" "fd \<in> fds D"
    using assms(1,4) by (auto simp: good_def)
  note add = add_access [OF assms(1,2,4)]
  define e where "e = s\<lparr>tbl := ?t, reply := (reply s)(fd := sub_reply (buckets (tbl s) ! bucket_of key) key (fdNotif ?c)),
      guest := (guest s)(fd := ?c'), kern := (kern s)\<lparr>w_out := (w_out (kern s))(fd := w_out (kern s) fd @ ?answer)\<rparr>\<rparr>"
  define s' where "s' = e\<lparr>kern := (kern e)\<lparr>w_locks := w_locks (kern s) @ lock_pair key\<rparr>\<rparr>"
  have run: "for_each access_run (map (Pair fd) (command_turns (SubscribeCmd key))) s = Inr e"
    using add(1) reply_access(1) [OF add(2) assms(4), of key]
    by (simp add: command_turns_def e_def reply_subscribers [OF assms(1,2)] del: access_run.simps cong: if_cong)
  have "good D e"
    using acc.list_runs [OF assms(1), of "map (Pair fd) (command_turns (SubscribeCmd key))"] run assms(2-4) s(5)
    by (auto simp: command_turns_def simp del: access_run.simps)
  then have good: "good D s'" unfolding s'_def by simp
  have ran: "run_table_command (SubscribeCmd key) fd (Table (tbl s), kern s, snapshots s, guest s) =
      Inr (Table (tbl s'), kern s', snapshots s', guest s')"
    using kvs_subscribe_eq [of "session_server (Table (tbl s)) ?c" "tbl s" key 0 ?c "kern s"] assms(2,3) s session_server_client
    by (simp add: s'_def e_def session_server_def Let_def)
  show thesis by (rule that [OF run ran good]) (simp add: s'_def)
qed

lemma unsubscribe_accesses:
  assumes "good D s" and "valid_key key" and "length key \<le> MAX_STRING_SIZE" and "fd \<in> guests D"
  obtains e s' where "for_each access_run (map (Pair fd) (command_turns (UnsubscribeCmd key))) s = Inr e"
    and "run_table_command (UnsubscribeCmd key) fd (Table (tbl s), kern s, snapshots s, guest s) =
      Inr (Table (tbl s'), kern s', snapshots s', guest s')"
    and "good D s'" and "\<And>p. view D s' p = view D e p"
proof -
  let ?c = "guest s fd" and ?t = "unsubscribed (fdNotif (guest s fd)) key (tbl s)"
  let ?c' = "?c\<lparr>subscriptions := remove_subscription key (subscriptions ?c)\<rparr>"
  let ?answer = "[OP_CODE_UNSUBSCRIBE, if fdNotif ?c \<in> set (subscribers (tbl s) key) then CHR ''0'' else CHR ''1'']"
  have s: "sound_table (tbl s)" "calm (kern s)" "healthy (kern s) fd" "fdResp ?c = fd" "fd \<in> fds D"
    using assms(1,4) by (auto simp: good_def)
  define s1 where "s1 = s\<lparr>guest := (guest s)(fd := ?c')\<rparr>"
  have s1: "good D s1" "fdNotif (guest s1 fd) = fdNotif ?c" "tbl s1 = tbl s" "reply s1 = reply s" "kern s1 = kern s"
    using good_guest(2) [OF assms(1) s(5), of ?c'] by (simp_all add: s1_def)
  note drop = drop_access [OF s1(1) assms(2,4)]
  define e where "e = s\<lparr>tbl := ?t, reply := (reply s)(fd := drop_reply (buckets (tbl s) ! bucket_of key) key (fdNotif ?c)),
      guest := (guest s)(fd := ?c'), kern := (kern s)\<lparr>w_out := (w_out (kern s))(fd := w_out (kern s) fd @ ?answer)\<rparr>\<rparr>"
  define s' where "s' = e\<lparr>kern := (kern e)\<lparr>w_locks := w_locks (kern s) @ lock_pair key\<rparr>\<rparr>"
  have "access_run (fd, ForgetKey key) s = Inr s1" by (simp add: s1_def)
  then have run: "for_each access_run (map (Pair fd) (command_turns (UnsubscribeCmd key))) s = Inr e"
    using drop(1) reply_access(2) [OF drop(2) assms(4)] unfolding s1(2-5)
    by (simp add: command_turns_def reply_subscribers [OF assms(1,2)] del: access_run.simps cong: if_cong)
      (simp add: e_def s1_def reply_subscribers [OF assms(1,2)] cong: if_cong)
  have "good D e"
    using acc.list_runs [OF assms(1), of "map (Pair fd) (command_turns (UnsubscribeCmd key))"] run assms(2-4) s(5)
    by (auto simp: command_turns_def simp del: access_run.simps)
  then have good: "good D s'" unfolding s'_def by simp
  have ran: "run_table_command (UnsubscribeCmd key) fd (Table (tbl s), kern s, snapshots s, guest s) =
      Inr (Table (tbl s'), kern s', snapshots s', guest s')"
    using kvs_unsubscribe_eq [of "session_server (Table (tbl s)) ?c" "tbl s" key 0 ?c "kern s"] assms(2,3) s
      session_server_client
    by (simp add: s'_def e_def session_server_def Let_def)
  show thesis by (rule that [OF run ran good]) (simp add: s'_def)
qed

lemma release_accesses:
  assumes "good D s" and "valid_key key" and "fd \<in> guests D"
  obtains e s' where "for_each access_run (map (Pair fd) (command_turns (ReleaseCmd key))) s = Inr e"
    and "run_table_command (ReleaseCmd key) fd (Table (tbl s), kern s, snapshots s, guest s) =
      Inr (Table (tbl s'), kern s', snapshots s', guest s')"
    and "good D s'" and "\<And>p. view D s' p = view D e p"
proof -
  let ?c = "guest s fd"
  have s: "sound_table (tbl s)" "calm (kern s)" using assms(1) by (auto simp: good_def)
  define e where "e = s\<lparr>tbl := unsubscribed (fdNotif ?c) key (tbl s),
    reply := (reply s)(fd := drop_reply (buckets (tbl s) ! bucket_of key) key (fdNotif ?c))\<rparr>"
  define s' where "s' = e\<lparr>kern := (kern e)\<lparr>w_locks := w_locks (kern s) @ lock_pair key\<rparr>\<rparr>"
  note drop = drop_access [OF assms, folded e_def]
  have run: "for_each access_run (map (Pair fd) (command_turns (ReleaseCmd key))) s = Inr e"
    using drop(1) by (simp add: command_turns_def del: access_run.simps)
  have good: "good D s'" using drop(2) unfolding s'_def by simp
  have ran: "run_table_command (ReleaseCmd key) fd (Table (tbl s), kern s, snapshots s, guest s) =
      Inr (Table (tbl s'), kern s', snapshots s', guest s')"
    using kvs_aux_unsubscribe_eq [of "session_server (Table (tbl s)) ?c" "tbl s" key 0 ?c "kern s"] assms(2) s
      session_server_client
    by (simp add: s'_def e_def session_server_def)
  show thesis by (rule that [OF run ran good]) (simp add: s'_def)
qed

lemma command_is_its_accesses:
  assumes "good D s" and "command_fits D fd c"
    and "for_each access_run (map (Pair fd) (command_turns c)) s = Inr e"
  obtains s' where "run_table_command c fd (Table (tbl s), kern s, snapshots s, guest s) =
      Inr (Table (tbl s'), kern s', snapshots s', guest s')"
    "good D s'" "\<And>p. view D s' p = view D e p"
proof (cases c)
  case (WriteCmd keys vals)
  then have ok: "length vals = length keys" "\<forall>k \<in> set keys. valid_key k" using assms(2) by (auto simp: command_fits_def)
  show thesis
  proof (rule locked_accesses [OF assms ok(2), of WrLock])
    fix il e' il'
    assume run: "lock_list WrLock (sort keys) no_locks (kern s) =
        Inr (0, il, (kern s)\<lparr>w_locks := w_locks (kern s) @ acquired WrLock keys\<rparr>)"
      "for_each access_run (map (Pair fd) (command_turns c))
        (s\<lparr>kern := (kern s)\<lparr>w_locks := w_locks (kern s) @ acquired WrLock keys\<rparr>\<rparr>) = Inr e'"
      "good D e'" "\<And>p. view D e' p = view D e p"
      "unlock_list il (kern e') = (0, il', (kern e')\<lparr>w_locks := w_locks (kern e') @ released keys\<rparr>)"
    show thesis
      by (rule that [of "e'\<lparr>kern := (kern e')\<lparr>w_locks := w_locks (kern e') @ released keys\<rparr>\<rparr>"])
        (use run WriteCmd sorted_pairs [OF ok(1)] in
          \<open>auto simp: command_turns_def put_accesses kvs_write_def lock_write_list_def simp del: map_map\<close>)
  qed
next
  case (ReadCmd keys)
  then have ok: "\<forall>k \<in> set keys. valid_key k" using assms(2) by (auto simp: command_fits_def)
  show thesis
  proof (rule locked_accesses [OF assms ok, of RdLock])
    fix il e' il'
    assume run: "lock_list RdLock (sort keys) no_locks (kern s) =
        Inr (0, il, (kern s)\<lparr>w_locks := w_locks (kern s) @ acquired RdLock keys\<rparr>)"
      "for_each access_run (map (Pair fd) (command_turns c))
        (s\<lparr>kern := (kern s)\<lparr>w_locks := w_locks (kern s) @ acquired RdLock keys\<rparr>\<rparr>) = Inr e'"
      "good D e'" "\<And>p. view D e' p = view D e p"
      "unlock_list il (kern e') = (0, il', (kern e')\<lparr>w_locks := w_locks (kern e') @ released keys\<rparr>)"
    show thesis
      by (rule that [of "e'\<lparr>kern := (kern e')\<lparr>w_locks := w_locks (kern e') @ released keys\<rparr>\<rparr>"])
        (use run ReadCmd in
          \<open>auto simp: command_turns_def for_each_append read_accesses kvs_read_def lock_read_list_def simp del: map_map\<close>)
  qed
next
  case (DeleteCmd keys)
  then have ok: "\<forall>k \<in> set keys. valid_key k" using assms(2) by (auto simp: command_fits_def)
  show thesis
  proof (rule locked_accesses [OF assms ok, of WrLock])
    fix il e' il'
    assume run: "lock_list WrLock (sort keys) no_locks (kern s) =
        Inr (0, il, (kern s)\<lparr>w_locks := w_locks (kern s) @ acquired WrLock keys\<rparr>)"
      "for_each access_run (map (Pair fd) (command_turns c))
        (s\<lparr>kern := (kern s)\<lparr>w_locks := w_locks (kern s) @ acquired WrLock keys\<rparr>\<rparr>) = Inr e'"
      "good D e'" "\<And>p. view D e' p = view D e p"
      "unlock_list il (kern e') = (0, il', (kern e')\<lparr>w_locks := w_locks (kern e') @ released keys\<rparr>)"
    show thesis
      by (rule that [of "e'\<lparr>kern := (kern e')\<lparr>w_locks := w_locks (kern e') @ released keys\<rparr>\<rparr>"])
        (use run DeleteCmd in \<open>auto simp: command_turns_def for_each_append delete_accesses kvs_delete_def
            lock_write_list_def simp del: map_map split: if_splits\<close>)
  qed
next
  case ShowCmd
  let ?locks = "map (\<lambda>i. RdLock (Bucket i)) [0..<TABLE_SIZE]"
  let ?unlocks = "map (\<lambda>i. Unlock (Bucket i)) [0..<TABLE_SIZE]"
  obtain e' where e': "for_each access_run (map (Pair fd) (command_turns c))
      (s\<lparr>kern := (kern s)\<lparr>w_locks := w_locks (kern s) @ ?locks\<rparr>\<rparr>) = Inr e'"
    "good D e'" "\<And>p. view D e' p = view D e p"
    using accesses_relocked [OF assms(1) command_admissible [OF assms(2)] assms(3)] by blast
  have len: "length (buckets (tbl s)) = TABLE_SIZE" using assms(1) by (simp add: good_def sound_table_def)
  have "show_table (tbl s) fd = for_each (show_bucket fd) (map (\<lambda>i. buckets (tbl s) ! i) [0..<TABLE_SIZE])"
    using map_nth [of "buckets (tbl s)"] len by (simp add: show_table_def show_bucket_def)
  then show thesis
    using that [of "e'\<lparr>kern := (kern e')\<lparr>w_locks := w_locks (kern e') @ ?unlocks\<rparr>\<rparr>"]
      e' ShowCmd calm_good [OF assms(1)] calm_good [OF e'(2)]
    by (auto simp: command_turns_def show_accesses kvs_show_def deref_def lock_calls_calm simp del: map_map)
next
  case (WaitCmd delay)
  have "good D e" using acc.list_runs [OF assms(1) command_admissible [OF assms(2)]] assms(3) by auto
  then show thesis using that [of e] assms(3) WaitCmd by (auto simp: command_turns_def split: if_splits)
next
  case BackupCmd
  have "good D e" using acc.list_runs [OF assms(1) command_admissible [OF assms(2)]] assms(3) by auto
  then show thesis using that [of e] assms(3) BackupCmd by (auto simp: command_turns_def fun_upd_def)
next
  case (SubscribeCmd key)
  then have k: "valid_key key" "length key \<le> MAX_STRING_SIZE" "fd \<in> guests D"
    using assms(2) by (simp_all add: command_fits_def request_key_ok_def)
  show thesis by (rule subscribe_accesses [OF assms(1) k]) (use assms(3) SubscribeCmd that in auto)
next
  case (UnsubscribeCmd key)
  then have k: "valid_key key" "length key \<le> MAX_STRING_SIZE" "fd \<in> guests D"
    using assms(2) by (simp_all add: command_fits_def request_key_ok_def)
  show thesis by (rule unsubscribe_accesses [OF assms(1) k]) (use assms(3) UnsubscribeCmd that in auto)
next
  case (ReleaseCmd key)
  then have k: "valid_key key" "fd \<in> guests D" using assms(2) by (simp_all add: command_fits_def)
  show thesis by (rule release_accesses [OF assms(1) k]) (use assms(3) ReleaseCmd that in auto)
qed

text \<open>The loop of \<open>kvs_disconnect\<close> over the keys of a client is the sequence of these commands.\<close>

lemma unsubscribe_all_released:
  "unsubscribe_all (Some 0) keys (session_server t c, w) =
    bindE (for_each (\<lambda>key. run_table_command (ReleaseCmd key) fd) keys (t, w, bs, cl(fd := c)))
      (\<lambda>(t', w', _). Inr (session_server t' c, w'))"
proof (induction keys arbitrary: t w)
  case Nil
  then show ?case by (simp add: unsubscribe_all_def)
next
  case (Cons key keys)
  have "kvs_aux_unsubscribe key (Some 0) (session_server t c) w =
    map_res (\<lambda>(r, s', w'). (r, session_server (kvs_table s') c, w'))
      (kvs_aux_unsubscribe key (Some 0) (session_server t c) w)"
    by (auto simp: kvs_aux_unsubscribe_def session_server_def bindE_def map_res_def Let_def
        split: sum.split prod.split)
  then have same: "session_server (kvs_table s') c = s'"
    if "kvs_aux_unsubscribe key (Some 0) (session_server t c) w = Inr (r, s', w')" for r s' w'
    using that by (simp add: map_res_def)
  show ?case
  proof (cases "kvs_aux_unsubscribe key (Some 0) (session_server t c) w")
    case (Inl e)
    then show ?thesis by (simp add: unsubscribe_all_def)
  next
    case (Inr x)
    obtain r s' w' where x: "x = (r, s', w')" by (cases x)
    show ?thesis
      using Cons.IH [of "kvs_table s'" w'] same [OF Inr [unfolded x]] Inr x
      by (simp add: unsubscribe_all_def)
  qed
qed

end
