(* ===== verification/Concurrency.thy ===== *)
theory Concurrency
  imports Accesses
begin

section \<open>Job threads and session threads on one table\<close>

text \<open>
  Several job threads run their commands on the shared table, and session threads the requests of
  their clients. A thread works through a list of commands; a command takes its locks in its own
  order (that of a job thread the global lock first), makes its accesses one by one, gives the locks
  back one by one, and answers. The steps of the threads interleave in any order; a lock is granted
  as in the theory Locks. A thread writes its answers to its own output file or response pipe, whose
  descriptor identifies it. The limit of backups is left to the theory Jobs. A disconnect takes part with
  its removals of the client from the subscribers of its keys; the rest of it concerns the client
  alone and is left to the theory Clients.
\<close>

record worker =
  out_fd :: int
  commands_left :: "table_command list"
  current :: table_command
  locks_left :: "(bool \<times> nat) list"
  accesses_left :: "access list"
  unlocks_left :: "nat list"
  replies_left :: "access list"
  locked :: "(bool \<times> nat) list"

definition begin_command :: "table_command \<Rightarrow> table_command list \<Rightarrow> worker \<Rightarrow> worker" where
  "begin_command c cs t =
     t\<lparr>commands_left := cs, current := c, locks_left := command_locks c,
       accesses_left := command_accesses c, unlocks_left := command_unlocks c,
       replies_left := command_replies c\<rparr>"

definition as_thread :: "worker \<Rightarrow> thread" where
  "as_thread t = \<lparr>todo = locks_left t, held = locked t\<rparr>"

definition idle :: "worker \<Rightarrow> bool" where
  "idle t \<longleftrightarrow> locks_left t = [] \<and> accesses_left t = [] \<and> unlocks_left t = [] \<and> replies_left t = []"

inductive conc_step :: "shared \<times> worker list \<Rightarrow> shared \<times> worker list \<Rightarrow> bool" where
  next_command: "i < length ts \<Longrightarrow> idle (ts ! i) \<Longrightarrow> commands_left (ts ! i) = c # cs \<Longrightarrow>
    conc_step (s, ts) (s, ts[i := begin_command c cs (ts ! i)])"
| take_lock: "i < length ts \<Longrightarrow> locks_left (ts ! i) = req # rest \<Longrightarrow>
    grantable (map as_thread ts) i req \<Longrightarrow>
    conc_step (s, ts) (s, ts[i := (ts ! i)\<lparr>locks_left := rest, locked := req # locked (ts ! i)\<rparr>])"
| make_access: "i < length ts \<Longrightarrow> locks_left (ts ! i) = [] \<Longrightarrow> accesses_left (ts ! i) = a # rest \<Longrightarrow>
    access_run (out_fd (ts ! i), a) s = Inr s' \<Longrightarrow>
    conc_step (s, ts) (s', ts[i := (ts ! i)\<lparr>accesses_left := rest\<rparr>])"
| give_back: "i < length ts \<Longrightarrow> locks_left (ts ! i) = [] \<Longrightarrow> accesses_left (ts ! i) = [] \<Longrightarrow>
    unlocks_left (ts ! i) = b # rest \<Longrightarrow>
    conc_step (s, ts) (s, ts[i := (ts ! i)\<lparr>unlocks_left := rest,
      locked := filter (\<lambda>h. snd h \<noteq> b) (locked (ts ! i))\<rparr>])"
| give_reply: "i < length ts \<Longrightarrow> locks_left (ts ! i) = [] \<Longrightarrow> accesses_left (ts ! i) = [] \<Longrightarrow>
    unlocks_left (ts ! i) = [] \<Longrightarrow> replies_left (ts ! i) = a # rest \<Longrightarrow>
    access_run (out_fd (ts ! i), a) s = Inr s' \<Longrightarrow>
    conc_step (s, ts) (s', ts[i := (ts ! i)\<lparr>replies_left := rest\<rparr>])"

inductive_cases conc_stepE: "conc_step st st'"

definition new_worker :: "int \<times> table_command list \<Rightarrow> worker" where
  "new_worker job =
     \<lparr>out_fd = fst job, commands_left = snd job, current = WaitCmd 0, locks_left = [],
      accesses_left = [], unlocks_left = [], replies_left = [], locked = []\<rparr>"

definition start_jobs ::
  "(int \<times> table_command list) list \<Rightarrow> hash_table \<Rightarrow> world \<Rightarrow> (int \<Rightarrow> client) \<Rightarrow> shared \<times> worker list" where
  "start_jobs jobs ht w cl =
     (\<lparr>tbl = ht, kern = w, missing_seen = (\<lambda>_. False), snapshots = (\<lambda>_. []),
        guest = cl, reply = (\<lambda>_. (0, NUL))\<rparr>, map new_worker jobs)"

definition all_done :: "worker list \<Rightarrow> bool" where
  "all_done ts \<longleftrightarrow> (\<forall>t \<in> set ts. idle t \<and> commands_left t = [])"

text \<open>The commands one after another, each run to its end.\<close>

definition run_serially :: "(int \<times> table_command) list \<Rightarrow> serial_state \<Rightarrow> serial_state res" where
  "run_serially = for_each (\<lambda>(fdOut, c). run_table_command c fdOut)"

subsection \<open>The locks of a command cover its accesses\<close>

lemma bucket_requests:
  "requests (bucket_locks (WriteCmd keys vals)) = map (Pair True) (lock_order (sort keys))"
  "requests (bucket_locks (ReadCmd keys)) = map (Pair False) (lock_order (sort keys))"
  "requests (bucket_locks (DeleteCmd keys)) = map (Pair True) (lock_order (sort keys))"
  "requests (bucket_locks ShowCmd) = map (Pair False) [0..<TABLE_SIZE]"
  by (simp_all add: acquired_def requests_map comp_def)

lemma set_command_locks [simp]:
  "set (command_locks (WriteCmd keys vals)) = insert (False, 0) (Pair True ` Suc ` bucket_of ` set keys)"
  "set (command_locks (ReadCmd keys)) = insert (False, 0) (Pair False ` Suc ` bucket_of ` set keys)"
  "set (command_locks (DeleteCmd keys)) = insert (False, 0) (Pair True ` Suc ` bucket_of ` set keys)"
  "set (command_locks ShowCmd) = insert (False, 0) (Pair False ` Suc ` {..<TABLE_SIZE})"
  unfolding command_locks.simps bucket_requests
  by (auto simp: set_lock_order image_iff)

lemma session_locks [simp]:
  "command_locks (SubscribeCmd key) = [(True, Suc (bucket_of key))]"
  "command_locks (UnsubscribeCmd key) = [(True, Suc (bucket_of key))]"
  "command_locks (ReleaseCmd key) = [(True, Suc (bucket_of key))]"
  by (simp_all add: requests_def)

declare command_locks.simps(3-) [simp del]

lemma set_touched: "\<forall>k \<in> set keys. valid_key k \<Longrightarrow> set (touched keys) = bucket_of ` set keys"
  using bucket_of_less by (auto simp: touched_def)

lemma locks_given_back:
  assumes "command_ok c" and "h \<in> set (command_locks c)"
  shows "snd h \<in> set (command_unlocks c)"
  using assms by (cases c) (auto simp: set_touched)

lemma distinct_command_unlocks: "distinct (command_unlocks c)"
  by (cases c) (auto simp: touched_def distinct_map)

text \<open>
  What a set of locks allows. The global lock, taken for writing, keeps out the threads that change
  pairs, since they hold it as well; it does not keep out the session threads.
\<close>

definition readable :: "(bool \<times> nat) set \<Rightarrow> place set" where
  "readable L = {PairsAt b | b. (True, 0) \<in> L \<or> (\<exists>m. (m, Suc b) \<in> L)} \<union> {SubsAt b | b. \<exists>m. (m, Suc b) \<in> L}"

definition writable :: "(bool \<times> nat) set \<Rightarrow> place set" where
  "writable L = {PairsAt b | b. (True, Suc b) \<in> L \<and> (False, 0) \<in> L} \<union> {SubsAt b | b. (True, Suc b) \<in> L}"

definition covered :: "int \<Rightarrow> (bool \<times> nat) set \<Rightarrow> access \<Rightarrow> bool" where
  "covered fd L a \<longleftrightarrow>
     access_reads (fd, a) \<subseteq> insert (OutputOf fd) (readable L) \<and>
     access_writes (fd, a) \<subseteq> insert (OutputOf fd) (writable L)"

lemma bucket_lock_member [simp]:
  "(m, l) \<in> Pair x ` Suc ` A \<longleftrightarrow> m = x \<and> (\<exists>n \<in> A. l = Suc n)"
  by auto

lemma command_covered:
  assumes "command_ok c" and "a \<in> set (command_accesses c)"
  shows "covered fd (set (command_locks c)) a"
proof (cases c)
  case (WriteCmd keys vals)
  then obtain k v where a: "a = PutPair k v" "(k, v) \<in> set (qsort compare_pairs (zip keys vals))"
    using assms(2) by auto
  then have "k \<in> set keys" by (auto dest: set_zip_leftD)
  then have "(True, Suc (bucket_of k)) \<in> set (command_locks c)" "(False, 0) \<in> set (command_locks c)"
    using WriteCmd by simp_all
  then show ?thesis using a(1) by (auto simp: covered_def readable_def writable_def)
qed (use assms in \<open>auto simp: covered_def readable_def writable_def ex_bool_eq split: if_splits\<close>)

lemma reply_covered: "a \<in> set (command_replies c) \<Longrightarrow> covered fd L a"
  by (cases c) (auto simp: covered_def)

text \<open>
  What holds of a thread by itself: how far it is in its command. The locks it holds are those it
  has taken and not yet given back.
\<close>

definition worker_ok :: "scope \<Rightarrow> worker \<Rightarrow> bool" where
  "worker_ok D t \<longleftrightarrow> command_fits D (out_fd t) (current t) \<and>
     (\<forall>c \<in> set (commands_left t). command_fits D (out_fd t) c) \<and>
     (\<exists>pre. command_locks (current t) = pre @ locks_left t \<and>
        locked t = filter (\<lambda>h. snd h \<in> set (unlocks_left t)) (rev pre)) \<and>
     suffix (accesses_left t) (command_accesses (current t)) \<and>
     suffix (unlocks_left t) (command_unlocks (current t)) \<and>
     suffix (replies_left t) (command_replies (current t)) \<and>
     (locks_left t \<noteq> [] \<longrightarrow> accesses_left t = command_accesses (current t)) \<and>
     (locks_left t \<noteq> [] \<or> accesses_left t \<noteq> [] \<longrightarrow> unlocks_left t = command_unlocks (current t)) \<and>
     (locks_left t \<noteq> [] \<or> accesses_left t \<noteq> [] \<or> unlocks_left t \<noteq> [] \<longrightarrow>
        replies_left t = command_replies (current t))"

lemma worker_command: "worker_ok D t \<Longrightarrow> command_ok (current t) \<and> out_fd t \<in> fds D"
  by (simp add: worker_ok_def command_fits_def)

lemma worker_locked:
  assumes "worker_ok D t"
  shows "h \<in> set (locked t) \<Longrightarrow> h \<in> set (command_locks (current t)) \<and> snd h \<in> set (unlocks_left t)"
    and "idle t \<Longrightarrow> locked t = []"
  using assms by (auto simp: worker_ok_def idle_def)

lemma worker_holds:
  assumes "worker_ok D t" and "locks_left t = []" and "accesses_left t \<noteq> []"
  shows "set (locked t) = set (command_locks (current t))"
  using assms worker_command [OF assms(1)] locks_given_back [of "current t"] by (auto simp: worker_ok_def)

lemma worker_admissible:
  assumes "worker_ok D t" and "a \<in> set (accesses_left t) \<union> set (replies_left t)"
  shows "admissible D (out_fd t, a)"
    and "locks_left t = [] \<Longrightarrow> covered (out_fd t) (set (locked t)) a"
proof -
  have parts: "set (accesses_left t) \<subseteq> set (command_accesses (current t))"
    "set (replies_left t) \<subseteq> set (command_replies (current t))"
    using assms(1) by (auto simp: worker_ok_def dest: set_mono_suffix)
  have "command_fits D (out_fd t) (current t)" using assms(1) by (simp add: worker_ok_def)
  from command_admissible [OF this] show "admissible D (out_fd t, a)"
    using parts assms(2) by (auto simp: command_turns_def)
  show "covered (out_fd t) (set (locked t)) a" if "locks_left t = []"
  proof (cases "a \<in> set (replies_left t)")
    case True
    then show ?thesis using parts(2) by (auto intro: reply_covered)
  next
    case False
    then have a: "a \<in> set (command_accesses (current t))" "accesses_left t \<noteq> []" using assms(2) parts by auto
    then show ?thesis
      using command_covered [OF _ a(1)] worker_command [OF assms(1)] worker_holds [OF assms(1) that] by simp
  qed
qed

lemma worker_replies:
  assumes "worker_ok D t" and "a \<in> set (replies_left t)"
  shows "access_writes (fd, a) \<subseteq> {OutputOf fd}"
proof -
  have "a \<in> set (command_replies (current t))"
    using assms by (auto simp: worker_ok_def dest: set_mono_suffix)
  then show ?thesis by (cases "current t") auto
qed

text \<open>
  The accesses a thread has still to make while it holds all its locks, and the state they lead to.
\<close>

definition pending :: "worker \<Rightarrow> (int \<times> access) list" where
  "pending t = (if locks_left t = [] then map (Pair (out_fd t)) (accesses_left t @ replies_left t) else [])"

definition ahead :: "worker \<Rightarrow> shared \<Rightarrow> shared" where
  "ahead t s = projr (for_each access_run (pending t) s)"

definition footprint :: "worker \<Rightarrow> place set" where
  "footprint t = insert (OutputOf (out_fd t)) (readable (set (locked t)))"

lemma pending_ok:
  assumes "worker_ok D t"
  shows "\<forall>a \<in> set (pending t). admissible D a \<and> access_reads a \<subseteq> footprint t"
  using worker_admissible [OF assms] by (auto simp: pending_def covered_def footprint_def)

lemma ahead_run:
  assumes "good D s" and "worker_ok D t"
  shows "for_each access_run (pending t) s = Inr (ahead t s)" and "good D (ahead t s)"
  using acc.list_runs [OF assms(1), of "pending t"] pending_ok [OF assms(2)]
  by (auto simp: ahead_def)

lemma ahead_none [simp]: "pending t = [] \<Longrightarrow> ahead t s = s"
  by (simp add: ahead_def)

lemma ahead_agrees:
  assumes "good D s" and "good D s'" and "worker_ok D t" and "p \<in> footprint t"
    and "\<forall>p \<in> footprint t. view D s p = view D s' p"
  shows "view D (ahead t s) p = view D (ahead t s') p"
  using acc.list_agrees [OF assms(1,2) pending_ok [OF assms(3)] assms(5)
      ahead_run(1) [OF assms(1,3)] ahead_run(1) [OF assms(2,3)]] assms(4) by blast

subsection \<open>The invariant\<close>

text \<open>
  \<open>S\<close> is the state the commands would have reached if each had run to its end, alone, at the moment
  it got its last lock. The pairs or subscribers of a bucket that no thread past that moment owns,
  by its locks for writing, are as in \<open>S\<close>; those that such a thread owns, and its output file, will
  be as in \<open>S\<close> when it has made its pending accesses.
\<close>

definition past :: "worker \<Rightarrow> bool" where
  "past t \<longleftrightarrow> locks_left t = []"

definition owns :: "worker \<Rightarrow> place \<Rightarrow> bool" where
  "owns t p \<longleftrightarrow> past t \<and> p \<in> writable (set (locked t))"

definition table_places :: "place set" where
  "table_places = range PairsAt \<union> range SubsAt"

definition system_ok :: "scope \<Rightarrow> shared \<times> worker list \<Rightarrow> bool" where
  "system_ok D = (\<lambda>(s, ts). good D s \<and> (\<forall>t \<in> set ts. worker_ok D t) \<and> distinct (map out_fd ts) \<and>
     exclusive (map as_thread ts))"

definition matches :: "scope \<Rightarrow> shared \<Rightarrow> shared \<times> worker list \<Rightarrow> bool" where
  "matches D S = (\<lambda>(s, ts). good D S \<and>
     (\<forall>t \<in> set ts. view D (ahead t s) (OutputOf (out_fd t)) = view D S (OutputOf (out_fd t))) \<and>
     (\<forall>t \<in> set ts. \<forall>p. owns t p \<longrightarrow> view D (ahead t s) p = view D S p) \<and>
     (\<forall>p \<in> table_places. (\<forall>t \<in> set ts. \<not> owns t p) \<longrightarrow> view D s p = view D S p))"

lemma system_ok_distinct:
  assumes "system_ok D (s, ts)" and "i < length ts" and "j < length ts" and "i \<noteq> j"
  shows "out_fd (ts ! i) \<noteq> out_fd (ts ! j)"
  using assms by (auto simp: system_ok_def nth_eq_iff_index_eq distinct_map dest: inj_onD)

lemma system_ok_exclusive:
  assumes "system_ok D (s, ts)" and "i < length ts" and "j < length ts" and "i \<noteq> j"
    and "(True, b) \<in> set (locked (ts ! i))"
  shows "(m, b) \<notin> set (locked (ts ! j))"
proof -
  have "exclusive (map as_thread ts)" using assms(1) by (simp add: system_ok_def)
  then have "(m, b) \<notin> set (held (map as_thread ts ! j))"
    using assms(2-5) unfolding exclusive_def length_map by (simp add: as_thread_def)
  then show ?thesis using assms(3) by (simp add: as_thread_def)
qed

text \<open>What a thread has locked for writing lies outside the footprint of the others.\<close>

lemma locked_foreign:
  assumes ok: "system_ok D (s, ts)" and i: "i < length ts" and j: "j < length ts" "i \<noteq> j"
    and p: "p \<in> writable (set (locked (ts ! i)))"
  shows "p \<notin> readable (set (locked (ts ! j)))"
  using p system_ok_exclusive [OF ok i j] system_ok_exclusive [OF ok j(1) i j(2) [symmetric], of 0 False]
  by (auto simp: readable_def writable_def)

lemma writable_places: "p \<in> writable L \<Longrightarrow> p \<in> table_places" "OutputOf fd \<notin> writable L"
  by (auto simp: writable_def table_places_def)

lemma writes_foreign:
  assumes "system_ok D (s, ts)" and "i < length ts" and "j < length ts" and "i \<noteq> j"
    and "covered (out_fd (ts ! i)) (set (locked (ts ! i))) a"
    and "p \<in> footprint (ts ! j)"
  shows "p \<notin> access_writes (out_fd (ts ! i), a)"
proof
  assume "p \<in> access_writes (out_fd (ts ! i), a)"
  then have "p = OutputOf (out_fd (ts ! i)) \<or> p \<in> writable (set (locked (ts ! i)))"
    using assms(5) by (auto simp: covered_def)
  then show False
    using assms(6) system_ok_distinct [OF assms(1-4)] locked_foreign [OF assms(1-4)] writable_places(2)
    by (auto simp: footprint_def readable_def)
qed

lemma owns_footprint: "owns t p \<Longrightarrow> p \<in> footprint t"
  by (auto simp: owns_def footprint_def readable_def writable_def)

lemma output_footprint: "OutputOf (out_fd t) \<in> footprint t"
  by (simp add: footprint_def)

text \<open>A step that changes one thread: what has to be shown for it and for the others.\<close>

lemma ball_update:
  assumes "i < length ts" and "Q t'" and "\<And>j. j < length ts \<Longrightarrow> j \<noteq> i \<Longrightarrow> Q (ts ! j)"
  shows "\<forall>t \<in> set (ts[i := t']). Q t"
  using assms by (auto simp: in_set_conv_nth nth_list_update_if)

lemma ball_updateD:
  assumes "i < length ts" and "\<forall>t \<in> set (ts[i := t']). Q t"
  shows "Q t'" and "\<And>j. j < length ts \<Longrightarrow> j \<noteq> i \<Longrightarrow> Q (ts ! j)"
proof -
  show "Q t'" using assms set_update_memI by fast
  show "Q (ts ! j)" if "j < length ts" "j \<noteq> i" for j
    using assms(2) that nth_mem [of j "ts[i := t']"] by (metis length_list_update nth_list_update_neq)
qed

lemma map_fd_update: "out_fd t' = out_fd (ts ! i) \<Longrightarrow> map out_fd (ts[i := t']) = map out_fd ts"
  by (cases "i < length ts") (simp_all add: map_update list_update_same_conv list_update_beyond)

text \<open>Giving up locks keeps mutual exclusion.\<close>

lemma exclusive_fewer:
  assumes "exclusive ts" and "i < length ts" and "set (held t') \<subseteq> set (held (ts ! i))"
  shows "exclusive (ts[i := t'])"
  using assms unfolding exclusive_def length_list_update nth_list_update_if [OF assms(2)]
  by (smt (verit) subsetD)

lemma worker_ok_command:
  assumes "worker_ok D t" and "idle t" and "commands_left t = c # cs"
  shows "worker_ok D (begin_command c cs t)"
  using assms worker_locked(2) [OF assms(1,2)] by (simp add: worker_ok_def begin_command_def)

lemma worker_ok_reply:
  assumes "worker_ok D t" and "locks_left t = []" and "accesses_left t = []" and "unlocks_left t = []"
    and "replies_left t = a # rest"
  shows "worker_ok D (t\<lparr>replies_left := rest\<rparr>)"
  using assms by (auto simp: worker_ok_def dest: suffix_ConsD)

lemma worker_ok_lock:
  assumes "worker_ok D t" and "locks_left t = req # rest"
  shows "worker_ok D (t\<lparr>locks_left := rest, locked := req # locked t\<rparr>)"
proof -
  obtain pre where pre: "command_locks (current t) = pre @ req # rest"
    "locked t = filter (\<lambda>h. snd h \<in> set (unlocks_left t)) (rev pre)"
    using assms by (auto simp: worker_ok_def)
  have "snd req \<in> set (unlocks_left t)"
    using locks_given_back [of "current t" req] worker_command [OF assms(1)] assms pre(1)
    by (simp add: worker_ok_def)
  then have "\<exists>pre. command_locks (current t) = pre @ rest \<and>
      req # locked t = filter (\<lambda>h. snd h \<in> set (unlocks_left t)) (rev pre)"
    using pre by (intro exI [of _ "pre @ [req]"]) simp
  then show ?thesis using assms by (simp add: worker_ok_def)
qed

lemma worker_ok_access:
  assumes "worker_ok D t" and "locks_left t = []" and "accesses_left t = a # rest"
  shows "worker_ok D (t\<lparr>accesses_left := rest\<rparr>)"
  using assms by (auto simp: worker_ok_def dest: suffix_ConsD)

lemma worker_ok_unlock:
  assumes "worker_ok D t" and "locks_left t = []" and "accesses_left t = []"
    and "unlocks_left t = b # rest"
  shows "worker_ok D (t\<lparr>unlocks_left := rest, locked := filter (\<lambda>h. snd h \<noteq> b) (locked t)\<rparr>)"
proof -
  have suf: "suffix (b # rest) (command_unlocks (current t))" using assms(1,4) by (simp add: worker_ok_def)
  then have "b \<notin> set rest" using distinct_command_unlocks [of "current t"] by (auto simp: suffix_def)
  then have "filter (\<lambda>h. snd h \<noteq> b) (locked t) =
      filter (\<lambda>h. snd h \<in> set rest) (rev (command_locks (current t)))"
    using assms by (auto simp: worker_ok_def intro!: filter_cong)
  then show ?thesis using assms suf by (auto simp: worker_ok_def dest: suffix_ConsD)
qed

lemma step_system_ok:
  assumes "conc_step st st'" and "system_ok D st"
  shows "system_ok D st'"
proof -
  have update: "system_ok D (s', ts[i := t'])"
    if "system_ok D (s, ts)" "i < length ts" "worker_ok D t'" "out_fd t' = out_fd (ts ! i)" "good D s'"
      "exclusive ((map as_thread ts)[i := as_thread t'])" for s s' ts i t'
    using that ball_update [of i ts "worker_ok D" t'] map_fd_update [of t' ts i]
    by (simp add: system_ok_def map_update)
  have fewer: "exclusive ((map as_thread ts)[i := as_thread t'])"
    if "system_ok D (s, ts)" "i < length ts" "set (locked t') \<subseteq> set (locked (ts ! i))" for s ts i t'
    using that by (intro exclusive_fewer) (auto simp: system_ok_def as_thread_def)
  from assms show ?thesis
  proof (induction rule: conc_step.induct)
    case (next_command i ts c cs s)
    then have ok: "worker_ok D (ts ! i)" "good D s" by (simp_all add: system_ok_def)
    show ?case
      by (rule update [OF next_command.prems next_command.hyps(1)
            worker_ok_command [OF ok(1) next_command.hyps(2,3)] _ ok(2) fewer [OF next_command.prems next_command.hyps(1)]])
        (simp_all add: begin_command_def)
  next
    case (take_lock i ts req rest s)
    then have ok: "worker_ok D (ts ! i)" "good D s" by (simp_all add: system_ok_def)
    have "lock_step (map as_thread ts) ((map as_thread ts)[i := (map as_thread ts ! i)
        \<lparr>todo := rest, held := req # held (map as_thread ts ! i)\<rparr>])"
      using take_lock by (intro lock_step.acquire) (simp_all add: as_thread_def)
    then have "exclusive ((map as_thread ts)[i :=
        as_thread ((ts ! i)\<lparr>locks_left := rest, locked := req # locked (ts ! i)\<rparr>)])"
      using lock_step_exclusive take_lock by (simp add: system_ok_def as_thread_def)
    then show ?case
      using update [OF take_lock.prems take_lock.hyps(1) worker_ok_lock [OF ok(1) take_lock.hyps(2)] _ ok(2)]
      by simp
  next
    case (make_access i ts a rest s s')
    then have ok: "worker_ok D (ts ! i)" "good D s" by (simp_all add: system_ok_def)
    have "good D s'"
      by (rule acc.run_inv [OF ok(2) worker_admissible(1) [OF ok(1)] make_access.hyps(4)])
        (simp add: make_access.hyps(3))
    then show ?case
      using update [OF make_access.prems make_access.hyps(1) worker_ok_access [OF ok(1) make_access.hyps(2,3)]]
        fewer [OF make_access.prems make_access.hyps(1)] by simp
  next
    case (give_reply i ts a rest s s')
    then have ok: "worker_ok D (ts ! i)" "good D s" by (simp_all add: system_ok_def)
    have "good D s'"
      by (rule acc.run_inv [OF ok(2) worker_admissible(1) [OF ok(1)] give_reply.hyps(6)])
        (simp add: give_reply.hyps(5))
    then show ?case
      using update [OF give_reply.prems give_reply.hyps(1) worker_ok_reply [OF ok(1) give_reply.hyps(2-5)]]
        fewer [OF give_reply.prems give_reply.hyps(1)] by simp
  next
    case (give_back i ts b rest s)
    then have ok: "worker_ok D (ts ! i)" "good D s" by (simp_all add: system_ok_def)
    show ?case
      by (rule update [OF give_back.prems give_back.hyps(1) worker_ok_unlock [OF ok(1) give_back.hyps(2-4)] _
            ok(2) fewer [OF give_back.prems give_back.hyps(1)]]) auto
  qed
qed

subsection \<open>Steps that change no place\<close>

lemma matchesI:
  assumes "good D S"
    and "\<And>t. t \<in> set ts \<Longrightarrow> view D (ahead t s) (OutputOf (out_fd t)) = view D S (OutputOf (out_fd t))"
    and "\<And>t p. t \<in> set ts \<Longrightarrow> owns t p \<Longrightarrow> view D (ahead t s) p = view D S p"
    and "\<And>p. p \<in> table_places \<Longrightarrow> \<forall>t \<in> set ts. \<not> owns t p \<Longrightarrow> view D s p = view D S p"
  shows "matches D S (s, ts)"
  using assms unfolding matches_def by blast

lemma matchesD:
  assumes "matches D S (s, ts)"
  shows "good D S"
    and "t \<in> set ts \<Longrightarrow> view D (ahead t s) (OutputOf (out_fd t)) = view D S (OutputOf (out_fd t))"
    and "t \<in> set ts \<Longrightarrow> owns t p \<Longrightarrow> view D (ahead t s) p = view D S p"
    and "p \<in> table_places \<Longrightarrow> \<forall>t \<in> set ts. \<not> owns t p \<Longrightarrow> view D s p = view D S p"
  using assms unfolding matches_def by blast+

lemma in_update_cases:
  assumes "t \<in> set (ts[i := t'])" and "i < length ts"
  obtains "t = t'" | j where "j < length ts" "j \<noteq> i" "t = ts ! j"
  using assms by (auto simp: in_set_conv_nth nth_list_update_if split: if_splits)

lemma owns_table: "owns t p \<Longrightarrow> p \<in> table_places"
  by (auto simp: owns_def writable_places)

lemma ahead_frame:
  assumes "good D s" and "worker_ok D t" and "\<And>a. a \<in> set (pending t) \<Longrightarrow> p \<notin> access_writes a"
  shows "view D (ahead t s) p = view D s p"
  using acc.list_runs [OF assms(1), of "pending t"] pending_ok [OF assms(2)] ahead_run(1) [OF assms(1,2)] assms(3)
  by auto

text \<open>The thread keeps its pending accesses and may give up places that they do not write.\<close>

lemma matches_quiet:
  assumes m: "matches D S (s, ts)" and ok: "system_ok D (s, ts)" and i: "i < length ts"
    and pend: "pending t' = pending (ts ! i)" and fd: "out_fd t' = out_fd (ts ! i)"
    and fewer: "\<And>p. owns t' p \<Longrightarrow> owns (ts ! i) p"
    and kept: "\<And>p a. owns (ts ! i) p \<Longrightarrow> \<not> owns t' p \<Longrightarrow> a \<in> set (pending (ts ! i)) \<Longrightarrow> p \<notin> access_writes a"
  shows "matches D S (s, ts[i := t'])"
proof (rule matchesI)
  show "good D S" using m by (rule matchesD)
  have mem: "ts ! i \<in> set ts" using i by simp
  have same: "ahead t' s = ahead (ts ! i) s" using pend by (simp add: ahead_def)
  {
    fix t p
    assume t: "t \<in> set (ts[i := t'])"
    from t i show "view D (ahead t s) (OutputOf (out_fd t)) = view D S (OutputOf (out_fd t))"
      using matchesD(2) [OF m] matchesD(2) [OF m mem] same fd by (cases rule: in_update_cases) auto
    assume w: "owns t p"
    from t i show "view D (ahead t s) p = view D S p"
      using matchesD(3) [OF m] matchesD(3) [OF m mem] fewer same w by (cases rule: in_update_cases) auto
  }
  fix p
  assume p: "p \<in> table_places" and all: "\<forall>t \<in> set (ts[i := t']). \<not> owns t p"
  show "view D s p = view D S p"
  proof (cases "owns (ts ! i) p")
    case True
    have "view D (ahead (ts ! i) s) p = view D s p"
      using ok i mem kept [OF True] ball_updateD(1) [OF i all] by (intro ahead_frame) (auto simp: system_ok_def)
    then show ?thesis using matchesD(3) [OF m mem True] by simp
  next
    case False
    then have "\<forall>t \<in> set ts. \<not> owns t p"
      using ball_updateD(2) [OF i all] by (metis in_set_conv_nth)
    then show ?thesis by (rule matchesD(4) [OF m p])
  qed
qed

subsection \<open>An access\<close>

lemma matches_access:
  assumes m: "matches D S (s, ts)" and ok: "system_ok D (s, ts)" and i: "i < length ts"
    and t: "past (ts ! i)" "a \<in> set (accesses_left (ts ! i)) \<union> set (replies_left (ts ! i))"
    and t': "past t'" "pending (ts ! i) = (out_fd (ts ! i), a) # pending t'" "out_fd t' = out_fd (ts ! i)"
      "locked t' = locked (ts ! i)"
    and run: "access_run (out_fd (ts ! i), a) s = Inr s'"
  shows "matches D S (s', ts[i := t'])"
proof (rule matchesI)
  let ?t = "ts ! i"
  have wok: "\<And>j. j < length ts \<Longrightarrow> worker_ok D (ts ! j)" using ok by (simp add: system_ok_def)
  have good: "good D s" using ok by (simp add: system_ok_def)
  have a: "admissible D (out_fd ?t, a)" "covered (out_fd ?t) (set (locked ?t)) a"
    using worker_admissible [OF wok [OF i], of a] t by (simp_all add: past_def)
  have good': "good D s'" by (rule acc.run_inv [OF good a(1) run])
  have own: "ahead t' s' = ahead ?t s" using t'(2) run by (simp add: ahead_def)
  have same: "view D s' p = view D s p" if "p \<notin> access_writes (out_fd ?t, a)" for p
    by (rule acc.run_frame [OF good a(1) run that])
  have foreign: "view D (ahead (ts ! j) s') p = view D (ahead (ts ! j) s) p"
    if j: "j < length ts" "j \<noteq> i" and p: "p \<in> footprint (ts ! j)" for j p
  proof (rule ahead_agrees [OF good' good wok [OF j(1)] p])
    show "\<forall>p \<in> footprint (ts ! j). view D s' p = view D s p"
      using same writes_foreign [OF ok i j(1) j(2) [symmetric] a(2)] by blast
  qed
  have w': "owns t' = owns ?t" using t(1) t'(1,4) by (simp add: owns_def fun_eq_iff)
  have mem: "?t \<in> set ts" using i by simp
  show "good D S" using m by (rule matchesD)
  {
    fix t p
    assume t: "t \<in> set (ts[i := t'])"
    from t i show "view D (ahead t s') (OutputOf (out_fd t)) = view D S (OutputOf (out_fd t))"
    proof (cases rule: in_update_cases)
      case 1
      then show ?thesis using matchesD(2) [OF m mem] own t'(3) by simp
    next
      case (2 j)
      then show ?thesis using matchesD(2) [OF m, of t] foreign [OF 2(1,2) output_footprint] by simp
    qed
    assume w: "owns t p"
    from t i show "view D (ahead t s') p = view D S p"
    proof (cases rule: in_update_cases)
      case 1
      then show ?thesis using matchesD(3) [OF m mem] own w w' by simp
    next
      case (2 j)
      then show ?thesis
        using matchesD(3) [OF m, of t p] foreign [OF 2(1,2) owns_footprint] w by simp
    qed
  }
  fix p
  assume p: "p \<in> table_places" and all: "\<forall>t \<in> set (ts[i := t']). \<not> owns t p"
  then have none: "\<forall>t \<in> set ts. \<not> owns t p"
    using ball_updateD [OF i all] w' by (metis in_set_conv_nth)
  then have "p \<notin> writable (set (locked ?t))" using i t(1) by (auto simp: owns_def)
  then have "p \<notin> access_writes (out_fd ?t, a)" using a(2) p by (auto simp: covered_def table_places_def)
  from same [OF this] show "view D s' p = view D S p"
    using matchesD(4) [OF m p none] by (rule trans)
qed

subsection \<open>The last lock of a command\<close>

text \<open>
  At this moment what the thread may read and its output file are as in \<open>S\<close>; its whole command is
  run on \<open>S\<close>, and what it will do to the shared state is what it does to \<open>S\<close>.
\<close>

lemma lock_point_agrees:
  assumes m: "matches D S (s, ts)" and i: "i < length ts"
    and none: "pending (ts ! i) = []" "\<And>p. \<not> owns (ts ! i) p"
    and fd: "out_fd t' = out_fd (ts ! i)"
    and ok': "system_ok D (s, ts[i := t'])" and p: "p \<in> footprint t'"
  shows "view D s p = view D S p"
proof (cases "p = OutputOf (out_fd t')")
  case True
  then show ?thesis using i matchesD(2) [OF m, of "ts ! i"] none(1) fd by simp
next
  case False
  then have r: "p \<in> readable (set (locked (ts[i := t'] ! i)))" "p \<in> table_places"
    using p i by (auto simp: footprint_def readable_def table_places_def)
  have "\<not> owns (ts ! j) p" if j: "j < length ts" for j
  proof (cases "j = i")
    case True
    then show ?thesis using none(2) by simp
  next
    case False
    then show ?thesis
      using locked_foreign [OF ok', of j i p] r(1) i j by (auto simp: owns_def)
  qed
  then have "\<forall>t \<in> set ts. \<not> owns t p" by (auto simp: in_set_conv_nth)
  then show ?thesis by (rule matchesD(4) [OF m r(2)])
qed

text \<open>The state \<open>S\<close> may move on to \<open>S'\<close> when only places the thread has locked change.\<close>

lemma matches_moved:
  assumes m: "matches D S (s, ts)" and i: "i < length ts" and t: "\<And>p. \<not> owns (ts ! i) p"
    and t': "past t'" and good: "good D S'"
    and ok': "system_ok D (s, ts[i := t'])"
    and own: "\<And>p. p \<in> footprint t' \<Longrightarrow> view D (ahead t' s) p = view D S' p"
    and cov: "\<And>a. a \<in> A \<Longrightarrow> covered (out_fd t') (set (locked t')) a"
    and kept: "\<And>p. (\<And>a. a \<in> A \<Longrightarrow> p \<notin> access_writes (out_fd t', a)) \<Longrightarrow> view D S' p = view D S p"
  shows "matches D S' (s, ts[i := t'])"
proof (rule matchesI [OF good])
  have foreign: "view D S' p = view D S p"
    if "j < length ts" "j \<noteq> i" "p \<in> footprint (ts ! j)" for j p
    using kept writes_foreign [OF ok', of i j _ p] cov i that by simp
  fix t p
  assume mem: "t \<in> set (ts[i := t'])"
  from mem i show "view D (ahead t s) (OutputOf (out_fd t)) = view D S' (OutputOf (out_fd t))"
  proof (cases rule: in_update_cases)
    case 1
    then show ?thesis using own output_footprint by blast
  next
    case (2 j)
    then show ?thesis using matchesD(2) [OF m, of t] foreign [OF 2(1,2) output_footprint] by simp
  qed
  assume w: "owns t p"
  from mem i show "view D (ahead t s) p = view D S' p"
  proof (cases rule: in_update_cases)
    case 1
    then show ?thesis using own owns_footprint w by blast
  next
    case (2 j)
    then show ?thesis
      using matchesD(3) [OF m, of t p] foreign [OF 2(1,2) owns_footprint] w by simp
  qed
next
  fix p
  assume p: "p \<in> table_places" and all: "\<forall>t \<in> set (ts[i := t']). \<not> owns t p"
  have none: "\<forall>t \<in> set ts. \<not> owns t p"
    using t ball_updateD(2) [OF i all] by (metis in_set_conv_nth)
  have "p \<notin> writable (set (locked t'))"
    using ball_updateD(1) [OF i all] t' by (auto simp: owns_def)
  then have "p \<notin> access_writes (out_fd t', a)" if "a \<in> A" for a
    using cov [OF that] p by (auto simp: covered_def table_places_def)
  from kept [OF this] have "view D S' p = view D S p" .
  with matchesD(4) [OF m p none] show "view D s p = view D S' p" by (rule trans [OF _ sym])
qed

lemma matches_lock_point:
  assumes m: "matches D S (s, ts)" and i: "i < length ts"
    and none: "pending (ts ! i) = []" "\<And>p. \<not> owns (ts ! i) p"
    and t': "locks_left t' = []" "current t' = c" "accesses_left t' = command_accesses c"
      "replies_left t' = command_replies c" "out_fd t' = out_fd (ts ! i)"
    and ok: "system_ok D (s, ts)" and ok': "system_ok D (s, ts[i := t'])"
  obtains S' where
    "run_table_command c (out_fd t') (Table (tbl S), kern S, snapshots S, guest S) =
       Inr (Table (tbl S'), kern S', snapshots S', guest S')"
    "matches D S' (s, ts[i := t'])"
proof -
  have wok: "worker_ok D t'" using ok' i set_update_memI [OF i] by (auto simp: system_ok_def)
  have good: "good D s" "good D S" using ok matchesD(1) [OF m] by (simp_all add: system_ok_def)
  have c: "command_fits D (out_fd t') c" using wok t'(2) by (auto simp: worker_ok_def)
  have pend: "pending t' = map (Pair (out_fd t')) (command_turns c)"
    using t' by (simp add: pending_def command_turns_def)
  obtain E where E: "for_each access_run (pending t') S = Inr E"
    "\<forall>p. (\<forall>a \<in> set (pending t'). p \<notin> access_writes a) \<longrightarrow> view D E p = view D S p"
    using acc.list_runs [OF good(2), of "pending t'"] pending_ok [OF wok] by blast
  obtain S' where S': "run_table_command c (out_fd t') (Table (tbl S), kern S, snapshots S, guest S) =
      Inr (Table (tbl S'), kern S', snapshots S', guest S')" "good D S'" "\<And>p. view D S' p = view D E p"
    using command_is_its_accesses [OF good(2) c E(1) [unfolded pend]] by blast
  have agree: "\<forall>p \<in> footprint t'. view D s p = view D S p"
    using lock_point_agrees [OF m i none t'(5) ok'] by blast
  have own: "\<forall>p \<in> footprint t'. view D (ahead t' s) p = view D S' p"
    using acc.list_agrees [OF good pending_ok [OF wok] agree ahead_run(1) [OF good(1) wok] E(1)]
      S'(3) by simp
  have "matches D S' (s, ts[i := t'])"
  proof (rule matches_moved [OF m i none(2) _ S'(2) ok', where A = "set (command_turns c)"])
    show "covered (out_fd t') (set (locked t')) a" if "a \<in> set (command_turns c)" for a
      using worker_admissible(2) [OF wok _ t'(1)] that t'(3,4) by (simp add: command_turns_def)
    show "view D S' p = view D S p"
      if "\<And>a. a \<in> set (command_turns c) \<Longrightarrow> p \<notin> access_writes (out_fd t', a)" for p
      using E(2) S'(3) that pend by auto
  qed (use t' own in \<open>simp_all add: past_def\<close>)
  then show thesis using that S'(1) by blast
qed

subsection \<open>Every run has a serial explanation\<close>

definition commands_of :: "(int \<times> table_command) list \<Rightarrow> int \<Rightarrow> table_command list" where
  "commands_of order fd = map snd (filter (\<lambda>(f, c). f = fd) order)"

lemma commands_of_snoc [simp]:
  "commands_of [] fd = []"
  "commands_of (order @ [(f, c)]) fd = commands_of order fd @ (if f = fd then [c] else [])"
  by (simp_all add: commands_of_def)

text \<open>
  The commands of a thread in the serial order, the one that waits for locks and those it has not
  begun are its job.
\<close>

definition accounted :: "(int \<times> table_command) list \<Rightarrow> worker \<Rightarrow> table_command list" where
  "accounted order t =
     commands_of order (out_fd t) @ (if past t then [] else [current t]) @ commands_left t"

definition explained_by ::
  "(int \<times> table_command list) list \<Rightarrow> serial_state \<Rightarrow> shared \<times> worker list \<Rightarrow>
   (int \<times> table_command) list \<Rightarrow> shared \<Rightarrow> scope \<Rightarrow> bool" where
  "explained_by jobs w st order S D \<longleftrightarrow>
     run_serially order w = Inr (Table (tbl S), kern S, snapshots S, guest S) \<and>
     matches D S st \<and> map (\<lambda>t. (out_fd t, accounted order t)) (snd st) = jobs \<and>
     fst ` set order \<subseteq> fst ` set jobs"

definition explained ::
  "scope \<Rightarrow> (int \<times> table_command list) list \<Rightarrow> serial_state \<Rightarrow> shared \<times> worker list \<Rightarrow> bool"
  where
  "explained D jobs w st \<longleftrightarrow> system_ok D st \<and> (\<exists>order S. explained_by jobs w st order S D)"

lemma accounted_update:
  assumes "i < length ts" and "out_fd t' = out_fd (ts ! i)" and "accounted order t' = accounted order (ts ! i)"
  shows "map (\<lambda>t. (out_fd t, accounted order t)) (ts[i := t']) =
    map (\<lambda>t. (out_fd t, accounted order t)) ts"
  using assms by (simp add: map_update list_update_same_conv)

lemma explained_quiet:
  assumes "explained D jobs w (s, ts)" and "system_ok D (s', ts[i := t'])"
    and "i < length ts" and "out_fd t' = out_fd (ts ! i)"
    and "\<And>order. accounted order t' = accounted order (ts ! i)"
    and "\<And>S. matches D S (s, ts) \<Longrightarrow> matches D S (s', ts[i := t'])"
  shows "explained D jobs w (s', ts[i := t'])"
proof -
  obtain order S where *: "explained_by jobs w (s, ts) order S D"
    using assms(1) by (auto simp: explained_def)
  then have "explained_by jobs w (s', ts[i := t']) order S D"
    using accounted_update [OF assms(3-5), of order] assms(6) by (simp add: explained_by_def)
  then show ?thesis using assms(2) by (auto simp: explained_def)
qed

text \<open>The one step that adds to the serial order: a thread has all locks of its command.\<close>

lemma explained_lock_point:
  assumes ex: "explained D jobs w (s, ts)" and i: "i < length ts"
    and none: "pending (ts ! i) = []" "\<And>p. \<not> owns (ts ! i) p"
    and t': "locks_left t' = []" "current t' = c" "accesses_left t' = command_accesses c"
      "replies_left t' = command_replies c" "out_fd t' = out_fd (ts ! i)"
    and acc: "\<And>order. accounted order (ts ! i) = commands_of order (out_fd t') @ c # commands_left t'"
    and ok': "system_ok D (s, ts[i := t'])"
  shows "explained D jobs w (s, ts[i := t'])"
proof -
  obtain order S where *: "explained_by jobs w (s, ts) order S D" and ok: "system_ok D (s, ts)"
    using ex by (auto simp: explained_def)
  let ?order = "order @ [(out_fd t', c)]"
  have m: "matches D S (s, ts)" using * by (simp add: explained_by_def)
  obtain S' where S': "run_table_command c (out_fd t') (Table (tbl S), kern S, snapshots S, guest S) =
      Inr (Table (tbl S'), kern S', snapshots S', guest S')" "matches D S' (s, ts[i := t'])"
    using matches_lock_point [OF m i none t' ok ok'] by blast
  have jobs: "map (\<lambda>t. (out_fd t, accounted order t)) ts = jobs" using * by (simp add: explained_by_def)
  have "map (\<lambda>t. (out_fd t, accounted ?order t)) (ts[i := t']) = map (\<lambda>t. (out_fd t, accounted order t)) ts"
  proof (rule nth_equalityI)
    fix j
    assume "j < length (map (\<lambda>t. (out_fd t, accounted ?order t)) (ts[i := t']))"
    then have j: "j < length ts" by simp
    show "map (\<lambda>t. (out_fd t, accounted ?order t)) (ts[i := t']) ! j =
        map (\<lambda>t. (out_fd t, accounted order t)) ts ! j"
      using j i acc t' system_ok_distinct [OF ok i j]
      by (cases "j = i") (auto simp: accounted_def past_def)
  qed simp
  moreover have "fst ` set ?order \<subseteq> fst ` set jobs"
    using * i t'(5) by (auto simp: explained_by_def jobs [symmetric] image_iff)
  ultimately have "explained_by jobs w (s, ts[i := t']) ?order S' D"
    using * S' jobs by (simp add: explained_by_def run_serially_def for_each_append)
  then show ?thesis using ok' by (auto simp: explained_def)
qed

lemma explained_command:
  assumes ex: "explained D jobs w (s, ts)" and i: "i < length ts" and idle: "idle (ts ! i)"
    and c: "commands_left (ts ! i) = c # cs"
  shows "explained D jobs w (s, ts[i := begin_command c cs (ts ! i)])"
proof -
  let ?t' = "begin_command c cs (ts ! i)"
  have ok: "system_ok D (s, ts)" using ex by (simp add: explained_def)
  have ok': "system_ok D (s, ts[i := ?t'])"
    by (rule step_system_ok [OF conc_step.next_command [OF i idle c] ok])
  have "locked (ts ! i) = []"
    using worker_locked(2) [OF _ idle, of D] ok i by (simp add: system_ok_def)
  then have none: "pending (ts ! i) = []" "\<And>p. \<not> owns (ts ! i) p"
    using idle by (simp_all add: pending_def idle_def owns_def writable_def)
  show ?thesis
  proof (cases "command_locks c = []")
    case True
    show ?thesis
      by (rule explained_lock_point [OF ex i none _ _ _ _ _ _ ok', of c])
        (use True idle c in \<open>simp_all add: begin_command_def accounted_def past_def idle_def\<close>)
  next
    case False
    show ?thesis
    proof (rule explained_quiet [OF ex ok' i])
      show "matches D S (s, ts[i := ?t'])" if "matches D S (s, ts)" for S
        by (rule matches_quiet [OF that ok i])
          (use False none in \<open>simp_all add: begin_command_def pending_def owns_def past_def\<close>)
    qed (use False idle c in \<open>auto simp: begin_command_def accounted_def idle_def past_def\<close>)
  qed
qed

lemma explained_lock:
  assumes ex: "explained D jobs w (s, ts)" and i: "i < length ts"
    and req: "locks_left (ts ! i) = req # rest" and free: "grantable (map as_thread ts) i req"
  shows "explained D jobs w (s, ts[i := (ts ! i)\<lparr>locks_left := rest, locked := req # locked (ts ! i)\<rparr>])"
proof -
  let ?t' = "(ts ! i)\<lparr>locks_left := rest, locked := req # locked (ts ! i)\<rparr>"
  have ok: "system_ok D (s, ts)" using ex by (simp add: explained_def)
  have ok': "system_ok D (s, ts[i := ?t'])"
    by (rule step_system_ok [OF conc_step.take_lock [OF i req free] ok])
  have none: "pending (ts ! i) = []" "\<And>p. \<not> owns (ts ! i) p"
    using req by (simp_all add: pending_def owns_def past_def)
  show ?thesis
  proof (cases "rest = []")
    case True
    have "accesses_left (ts ! i) = command_accesses (current (ts ! i))"
      "replies_left (ts ! i) = command_replies (current (ts ! i))"
      using ok i req by (auto simp: system_ok_def worker_ok_def)
    then show ?thesis
      by (intro explained_lock_point [OF ex i none _ _ _ _ _ _ ok', of "current (ts ! i)"])
        (use True req in \<open>simp_all add: accounted_def past_def\<close>)
  next
    case False
    show ?thesis
    proof (rule explained_quiet [OF ex ok' i])
      show "matches D S (s, ts[i := ?t'])" if "matches D S (s, ts)" for S
        by (rule matches_quiet [OF that ok i])
          (use False none in \<open>auto simp: pending_def owns_def past_def\<close>)
    qed (use req False in \<open>auto simp: accounted_def past_def\<close>)
  qed
qed

lemma step_explained:
  assumes "conc_step st st'" and "explained D jobs w st"
  shows "explained D jobs w st'"
  using assms
proof (induction rule: conc_step.induct)
  case (next_command i ts c cs s)
  then show ?case by (intro explained_command)
next
  case (take_lock i ts req rest s)
  then show ?case by (intro explained_lock)
next
  case (make_access i ts a rest s s')
  note ex = make_access.prems and hyps = make_access.hyps
  let ?t' = "(ts ! i)\<lparr>accesses_left := rest\<rparr>"
  have ok: "system_ok D (s, ts)" using ex by (simp add: explained_def)
  have "matches D S (s', ts[i := ?t'])" if "matches D S (s, ts)" for S
    by (rule matches_access [OF that ok hyps(1) _ _ _ _ _ _ hyps(4)])
      (simp_all add: hyps(2,3) past_def pending_def)
  then show ?case
    by (intro explained_quiet [OF ex step_system_ok [OF conc_step.make_access [OF hyps] ok] hyps(1)])
      (auto simp: accounted_def past_def)
next
  case (give_reply i ts a rest s s')
  note ex = give_reply.prems and hyps = give_reply.hyps
  let ?t' = "(ts ! i)\<lparr>replies_left := rest\<rparr>"
  have ok: "system_ok D (s, ts)" using ex by (simp add: explained_def)
  have "matches D S (s', ts[i := ?t'])" if "matches D S (s, ts)" for S
    by (rule matches_access [OF that ok hyps(1) _ _ _ _ _ _ hyps(6)])
      (simp_all add: hyps(2-5) past_def pending_def)
  then show ?case
    by (intro explained_quiet [OF ex step_system_ok [OF conc_step.give_reply [OF hyps] ok] hyps(1)])
      (auto simp: accounted_def past_def)
next
  case (give_back i ts b rest s)
  note ex = give_back.prems and hyps = give_back.hyps
  let ?t' = "(ts ! i)\<lparr>unlocks_left := rest, locked := filter (\<lambda>h. snd h \<noteq> b) (locked (ts ! i))\<rparr>"
  have ok: "system_ok D (s, ts)" using ex by (simp add: explained_def)
  have replies: "a \<in> set (replies_left (ts ! i)) \<Longrightarrow> access_writes (out_fd (ts ! i), a) \<subseteq> {OutputOf (out_fd (ts ! i))}" for a
    using worker_replies [of D "ts ! i"] ok hyps(1) by (simp add: system_ok_def)
  have "matches D S (s, ts[i := ?t'])" if "matches D S (s, ts)" for S
  proof (rule matches_quiet [OF that ok hyps(1)])
    show "pending ?t' = pending (ts ! i)" "out_fd ?t' = out_fd (ts ! i)" by (simp_all add: pending_def)
    show "owns ?t' p \<Longrightarrow> owns (ts ! i) p" for p by (auto simp: owns_def past_def writable_def)
    show "p \<notin> access_writes a" if "owns (ts ! i) p" "a \<in> set (pending (ts ! i))" for p a
      using that hyps(2,3) replies writable_places(2) by (fastforce simp: pending_def owns_def)
  qed
  then show ?case
    by (intro explained_quiet [OF ex step_system_ok [OF conc_step.give_back [OF hyps] ok] hyps(1)])
      (auto simp: accounted_def past_def)
qed

lemma steps_explained:
  "conc_step\<^sup>*\<^sup>* st st' \<Longrightarrow> explained D jobs w st \<Longrightarrow> explained D jobs w st'"
  by (induction rule: rtranclp_induct) (auto intro: step_explained)

text \<open>
  What is assumed of the threads: files of their own, commands as the parser hands them over, and
  for a session thread a client with its response pipe, whose notification pipe is no output file.
\<close>

definition serves :: "table_command list \<Rightarrow> bool" where
  "serves cs \<longleftrightarrow> (\<exists>c \<in> set cs. session_command c)"

definition scope_of :: "(int \<times> table_command list) list \<Rightarrow> scope" where
  "scope_of jobs = \<lparr>fds = fst ` set jobs, guests = {fd \<in> fst ` set jobs. \<exists>cs. (fd, cs) \<in> set jobs \<and> serves cs}\<rparr>"

definition jobs_ok :: "(int \<times> table_command list) list \<Rightarrow> hash_table \<Rightarrow> world \<Rightarrow> (int \<Rightarrow> client) \<Rightarrow> bool" where
  "jobs_ok jobs ht w cl \<longleftrightarrow> sound_table ht \<and> calm w \<and> distinct (map fst jobs) \<and>
     (\<forall>(fd, cs) \<in> set jobs. healthy w fd \<and> fd \<notin> targets ht \<and> (\<forall>c \<in> set cs. command_ok c) \<and>
        (serves cs \<longrightarrow> fdResp (cl fd) = fd \<and> fdNotif (cl fd) \<notin> fst ` set jobs))"

lemma start_system:
  assumes "jobs_ok jobs ht w cl"
  shows "system_ok (scope_of jobs) (start_jobs jobs ht w cl)"
proof -
  have "good (scope_of jobs) (fst (start_jobs jobs ht w cl))"
    using assms by (fastforce simp: jobs_ok_def good_def scope_of_def start_jobs_def)
  moreover have "\<forall>t \<in> set (map new_worker jobs). worker_ok (scope_of jobs) t"
    using assms
    by (force simp: jobs_ok_def worker_ok_def new_worker_def command_fits_def scope_of_def serves_def)
  moreover have "distinct (map out_fd (map new_worker jobs))"
    using assms by (simp add: jobs_ok_def new_worker_def comp_def)
  moreover have "exclusive (map as_thread (map new_worker jobs))"
    by (simp add: exclusive_def as_thread_def new_worker_def)
  ultimately show ?thesis by (simp add: system_ok_def start_jobs_def)
qed

lemma start_explained:
  assumes "jobs_ok jobs ht w cl"
  shows "explained (scope_of jobs) jobs (Table ht, w, \<lambda>_. [], cl) (start_jobs jobs ht w cl)"
proof -
  obtain S ts where st: "start_jobs jobs ht w cl = (S, ts)" by fastforce
  then have ts: "ts = map new_worker jobs" and S: "tbl S = ht" "kern S = w" "snapshots S = (\<lambda>_. [])" "guest S = cl"
    by (auto simp: start_jobs_def)
  have ok: "system_ok (scope_of jobs) (S, ts)" using start_system [OF assms] st by simp
  then have "matches (scope_of jobs) S (S, ts)"
    by (intro matchesI) (auto simp: ts new_worker_def owns_def writable_def pending_def system_ok_def)
  moreover have "map (\<lambda>t. (out_fd t, accounted [] t)) ts = jobs"
    by (simp add: ts new_worker_def accounted_def past_def comp_def)
  ultimately have "explained_by jobs (Table ht, w, \<lambda>_. [], cl) (S, ts) [] S (scope_of jobs)"
    by (simp add: explained_by_def run_serially_def S)
  then show ?thesis using ok st by (auto simp: explained_def)
qed

lemma done_matches:
  assumes "matches D S (s, ts)" and "system_ok D (s, ts)" and "all_done ts"
  shows "tbl s = tbl S"
    and "t \<in> set ts \<Longrightarrow> w_out (kern s) (out_fd t) = w_out (kern S) (out_fd t) \<and>
      guest s (out_fd t) = guest S (out_fd t) \<and>
      map (seen_table D) (snapshots s (out_fd t)) = map (seen_table D) (snapshots S (out_fd t))"
proof -
  have none: "pending t = []" if "t \<in> set ts" for t
    using assms(3) that by (auto simp: all_done_def idle_def pending_def)
  have good: "good D s" "good D S" using assms(2) matchesD(1) [OF assms(1)] by (simp_all add: system_ok_def)
  have "view D s p = view D S p" if p: "p \<in> table_places" for p
  proof (cases "\<forall>t \<in> set ts. \<not> owns t p")
    case True
    then show ?thesis by (rule matchesD(4) [OF assms(1) p])
  next
    case False
    then obtain t where t: "t \<in> set ts" "owns t p" by blast
    then show ?thesis using matchesD(3) [OF assms(1) t] none [OF t(1)] by simp
  qed
  then show "tbl s = tbl S" by (intro table_from_view [OF good]) (simp_all only: table_places_def UnI1 UnI2 rangeI)
  show "w_out (kern s) (out_fd t) = w_out (kern S) (out_fd t) \<and> guest s (out_fd t) = guest S (out_fd t) \<and>
      map (seen_table D) (snapshots s (out_fd t)) = map (seen_table D) (snapshots S (out_fd t))"
    if t: "t \<in> set ts"
  proof -
    have "out_fd t \<in> fds D" using assms(2) t worker_command by (auto simp: system_ok_def)
    then show ?thesis using matchesD(2) [OF assms(1) t] none [OF t] by simp
  qed
qed

text \<open>The children of \<open>BACKUP\<close> write the same file whatever subscribers their copy of the table has.\<close>

lemma backup_without_subs: "kvs_backup (without_subs t) fd w = kvs_backup t fd w"
proof (cases t)
  case (Table ht)
  let ?line = "\<lambda>keyNode w. bindE (node_value keyNode) (\<lambda>val. Inr (write_str w fd (backup_line (nkey keyNode) val)))"
  have "for_each ?line (pairs_only b) w = for_each ?line b w" for b w
    by (induction b arbitrary: w) (simp_all add: pairs_only_def node_value_def bindE_def split: sum.splits)
  then have "for_each (for_each ?line) (map pairs_only bs) w = for_each (for_each ?line) bs w" for bs w
    by (induction bs arbitrary: w) (simp_all add: bindE_def split: sum.splits)
  then show ?thesis using Table by (simp add: kvs_backup_def deref_def backup_table_def)
qed simp_all

lemma seen_same:
  assumes "map (seen_table D) xs = map (seen_table D) ys"
  shows "map without_subs xs = map without_subs ys" and "guests D = {} \<Longrightarrow> xs = ys"
proof -
  have twice: "map without_subs (map (seen_table D) zs) = map without_subs zs" for zs
  proof -
    have "without_subs (without_subs t) = without_subs t" for t by (cases t) (simp_all add: pairs_only_def)
    then show ?thesis by (simp add: seen_table_def)
  qed
  show "map without_subs xs = map without_subs ys" using assms twice by metis
  have "map (seen_table D) zs = zs" if "guests D = {}" for zs using that by (simp add: seen_table_def map_idI)
  then show "xs = ys" if "guests D = {}" using assms that by simp
qed

lemma serializable_run:
  assumes "jobs_ok jobs ht w cl" and "conc_step\<^sup>*\<^sup>* (start_jobs jobs ht w cl) (s, ts)" and "all_done ts"
  shows "\<exists>order w' bs cl'. run_serially order (Table ht, w, \<lambda>_. [], cl) = Inr (Table (tbl s), w', bs, cl') \<and>
    fst ` set order \<subseteq> fst ` set jobs \<and>
    (\<forall>(fd, cs) \<in> set jobs. commands_of order fd = cs \<and> w_out w' fd = w_out (kern s) fd \<and>
       cl' fd = guest s fd \<and> map without_subs (bs fd) = map without_subs (snapshots s fd) \<and>
       ((\<forall>(fd', cs') \<in> set jobs. \<not> serves cs') \<longrightarrow> bs fd = snapshots s fd))"
proof -
  have "explained (scope_of jobs) jobs (Table ht, w, \<lambda>_. [], cl) (s, ts)"
    by (rule steps_explained [OF assms(2) start_explained [OF assms(1)]])
  then obtain order S where *: "explained_by jobs (Table ht, w, \<lambda>_. [], cl) (s, ts) order S (scope_of jobs)"
    and ok: "system_ok (scope_of jobs) (s, ts)"
    by (auto simp: explained_def)
  have m: "matches (scope_of jobs) S (s, ts)" using * by (simp add: explained_by_def)
  note eq = done_matches [OF m ok assms(3)]
  have "commands_of order fd = cs \<and> w_out (kern S) fd = w_out (kern s) fd \<and> guest S fd = guest s fd \<and>
      map without_subs (snapshots S fd) = map without_subs (snapshots s fd) \<and>
      ((\<forall>(fd', cs') \<in> set jobs. \<not> serves cs') \<longrightarrow> snapshots S fd = snapshots s fd)"
    if "(fd, cs) \<in> set jobs" for fd cs
  proof -
    have "(fd, cs) \<in> set (map (\<lambda>t. (out_fd t, accounted order t)) ts)"
      using that * by (simp add: explained_by_def)
    then obtain t where t: "t \<in> set ts" "fd = out_fd t" "cs = accounted order t"
      by (auto simp only: set_map)
    have "map (seen_table (scope_of jobs)) (snapshots s fd) = map (seen_table (scope_of jobs)) (snapshots S fd)"
      using eq(2) [OF t(1)] t(2) by simp
    note snap = seen_same [OF this]
    have "guests (scope_of jobs) = {}" if "\<forall>(fd', cs') \<in> set jobs. \<not> serves cs'"
      using that by (auto simp: scope_of_def)
    then show ?thesis
      using eq(2) [OF t(1)] assms(3) snap t by (auto simp: accounted_def all_done_def idle_def past_def)
  qed
  then show ?thesis
    using * eq(1) by (intro exI [of _ order] exI [of _ "kern S"] exI [of _ "snapshots S"] exI [of _ "guest S"])
      (auto simp: explained_by_def)
qed

text \<open>
  C1: However job threads and session threads interleave, a run that ends has done what the same
  commands, requests and removals of a disconnect do one after another in some order that keeps
  the order of each thread: the same table with its subscribers, the same text in every output
  file and response pipe, the same lists of subscriptions, and every child forked by a BACKUP got
  the pairs of the table of a moment between whole commands (with their subscribers, when there
  are only job threads). Commands and requests with valid keys, output files of their own, no
  failing call.
\<close>

theorem concurrent_jobs_serializable:
  assumes "jobs_ok jobs ht w cl" and "conc_step\<^sup>*\<^sup>* (start_jobs jobs ht w cl) (s, ts)" and "all_done ts"
  shows "\<exists>order w' bs cl'. run_serially order (Table ht, w, \<lambda>_. [], cl) = Inr (Table (tbl s), w', bs, cl') \<and>
    fst ` set order \<subseteq> fst ` set jobs \<and>
    (\<forall>(fd, cs) \<in> set jobs. commands_of order fd = cs \<and> w_out w' fd = w_out (kern s) fd \<and>
       cl' fd = guest s fd \<and> map without_subs (bs fd) = map without_subs (snapshots s fd) \<and>
       ((\<forall>(fd', cs') \<in> set jobs. \<not> serves cs') \<longrightarrow> bs fd = snapshots s fd))"
  by (rule serializable_run [OF assms])

subsection \<open>Jobs with keys in lower case always finish\<close>

text \<open>A thread whose keys are in lower case asks for its locks in increasing order.\<close>

definition lower_command :: "table_command \<Rightarrow> bool" where
  "lower_command c \<longleftrightarrow> (\<forall>k \<in> set (command_keys c). lowercase_key k)"

definition lower_worker :: "worker \<Rightarrow> bool" where
  "lower_worker t \<longleftrightarrow> lower_command (current t) \<and> (\<forall>c \<in> set (commands_left t). lower_command c)"

lemma lower_locks_increasing:
  assumes "lower_command c"
  shows "sorted_wrt (<) (map snd (command_locks c))"
proof (cases c)
  case ShowCmd
  show ?thesis
    unfolding ShowCmd command_locks.simps bucket_requests by (simp add: sorted_wrt_map comp_def)
qed (use assms lock_order_increasing in
    \<open>simp_all add: lower_command_def command_locks.simps acquired_def requests_map sorted_wrt_map comp_def\<close>)

lemma lower_ordered:
  assumes "worker_ok D t" and "lower_worker t"
  shows "ordered (as_thread t)"
proof -
  obtain pre where pre: "command_locks (current t) = pre @ locks_left t"
    "locked t = filter (\<lambda>h. snd h \<in> set (unlocks_left t)) (rev pre)"
    using assms(1) by (auto simp: worker_ok_def)
  have "sorted_wrt (<) (map snd (pre @ locks_left t))"
    using lower_locks_increasing [of "current t"] assms(2) pre(1) by (simp add: lower_worker_def)
  then show ?thesis
    by (auto simp: ordered_def as_thread_def pre(2) sorted_wrt_append)
qed

lemma step_lower:
  assumes "conc_step st st'" and "\<forall>t \<in> set (snd st). lower_worker t"
  shows "\<forall>t \<in> set (snd st'). lower_worker t"
  using assms
proof (induction rule: conc_step.induct)
  case (next_command i ts c cs s)
  then have "lower_worker (ts ! i)" by simp
  then have "lower_worker (begin_command c cs (ts ! i))"
    using next_command.hyps(3) by (simp add: lower_worker_def begin_command_def)
  then show ?case using next_command unfolding snd_conv by (intro ball_update) auto
next
  case (take_lock i ts req rest s)
  then show ?case unfolding snd_conv by (intro ball_update) (auto simp: lower_worker_def)
next
  case (make_access i ts a rest s s')
  then show ?case unfolding snd_conv by (intro ball_update) (auto simp: lower_worker_def)
next
  case (give_back i ts b rest s)
  then show ?case unfolding snd_conv by (intro ball_update) (auto simp: lower_worker_def)
next
  case (give_reply i ts a rest s s')
  then show ?case unfolding snd_conv by (intro ball_update) (auto simp: lower_worker_def)
qed

text \<open>Every step uses up one of the steps a thread has left.\<close>

definition command_steps :: "table_command \<Rightarrow> nat" where
  "command_steps c =
     Suc (length (command_locks c) + length (command_accesses c) + length (command_unlocks c) +
       length (command_replies c))"

definition steps_left :: "worker \<Rightarrow> nat" where
  "steps_left t =
     length (locks_left t) + length (accesses_left t) + length (unlocks_left t) + length (replies_left t) +
     sum_list (map command_steps (commands_left t))"

lemma sum_list_update_less:
  assumes "i < length ts" and "f t' < f (ts ! i)"
  shows "sum_list (map f (ts[i := t'])) < (sum_list (map f ts) :: nat)"
  using assms
proof (induction ts arbitrary: i)
  case Nil
  then show ?case by simp
next
  case (Cons t ts)
  then show ?case by (cases i) auto
qed

lemma step_steps_left:
  assumes "conc_step st st'"
  shows "sum_list (map steps_left (snd st')) < sum_list (map steps_left (snd st))"
  using assms
  by cases (auto intro!: sum_list_update_less simp: steps_left_def begin_command_def idle_def command_steps_def)

text \<open>As long as a thread has something to do, some thread can go on, and none meets a fault.\<close>

lemma lower_progress:
  assumes ok: "system_ok D (s, ts)" and low: "\<forall>t \<in> set ts. lower_worker t" and "\<not> all_done ts"
  shows "\<exists>st'. conc_step (s, ts) st'"
proof -
  have wok: "worker_ok D (ts ! i)" if "i < length ts" for i using ok that by (simp add: system_ok_def)
  have runs: "\<exists>s'. access_run (out_fd (ts ! i), a) s = Inr s'"
    if "i < length ts" "a \<in> set (accesses_left (ts ! i)) \<union> set (replies_left (ts ! i))" for i a
    using acc.runs [of D s "(out_fd (ts ! i), a)"] ok worker_admissible(1) [OF wok [OF that(1)] that(2)]
    by (auto simp: system_ok_def)
  have own: "\<exists>st'. conc_step (s, ts) st'"
    if i: "i < length ts" "locks_left (ts ! i) = []" "\<not> idle (ts ! i)" for i
  proof (cases "accesses_left (ts ! i)")
    case Nil
    show ?thesis
    proof (cases "unlocks_left (ts ! i)")
      case (Cons b rest)
      then show ?thesis using conc_step.give_back [OF i(1,2) Nil] by blast
    next
      case none: Nil
      then obtain a rest where "replies_left (ts ! i) = a # rest"
        using i Nil by (cases "replies_left (ts ! i)") (auto simp: idle_def)
      then show ?thesis using conc_step.give_reply [OF i(1,2) Nil none] runs [OF i(1), of a] by fastforce
    qed
  next
    case (Cons a rest)
    then show ?thesis using conc_step.make_access [OF i(1,2) Cons] runs [OF i(1), of a] by fastforce
  qed
  show ?thesis
  proof (cases "finished (map as_thread ts)")
    case True
    obtain i where i: "i < length ts" "\<not> (idle (ts ! i) \<and> commands_left (ts ! i) = [])"
      using assms(3) by (auto simp: all_done_def in_set_conv_nth)
    have l: "locks_left (ts ! i) = []" using True i(1) by (auto simp: finished_def as_thread_def)
    show ?thesis
    proof (cases "idle (ts ! i)")
      case True
      then obtain c cs where "commands_left (ts ! i) = c # cs" using i(2) by (auto simp: neq_Nil_conv)
      then show ?thesis using conc_step.next_command [OF i(1) True] by blast
    next
      case False
      then show ?thesis using own [OF i(1) l] by blast
    qed
  next
    case False
    have "\<forall>t \<in> set (map as_thread ts). ordered t"
      using lower_ordered low ok by (auto simp: system_ok_def)
    then obtain us where "lock_step (map as_thread ts) us" using ordered_progress False by blast
    then show ?thesis
    proof (rule lock_stepE)
      fix i req rest
      assume "i < length (map as_thread ts)" "todo (map as_thread ts ! i) = req # rest"
        "grantable (map as_thread ts) i req"
      then show ?thesis using conc_step.take_lock [of i ts req rest s] by (auto simp: as_thread_def)
    next
      fix i
      assume i: "i < length (map as_thread ts)" "todo (map as_thread ts ! i) = []"
        "held (map as_thread ts ! i) \<noteq> []"
      then have "\<not> idle (ts ! i)" using worker_locked(2) [OF wok [of i]] by (auto simp: as_thread_def)
      then show ?thesis using own i by (auto simp: as_thread_def)
    qed
  qed
qed

lemma lower_finish:
  assumes "system_ok D st" and "\<forall>t \<in> set (snd st). lower_worker t"
  shows "\<exists>s' ts'. conc_step\<^sup>*\<^sup>* st (s', ts') \<and> all_done ts'"
  using assms
proof (induction "sum_list (map steps_left (snd st))" arbitrary: st rule: less_induct)
  case less
  show ?case
  proof (cases "all_done (snd st)")
    case True
    then show ?thesis by (intro exI [of _ "fst st"] exI [of _ "snd st"]) simp
  next
    case False
    then obtain u where u: "conc_step st u"
      using lower_progress [of D "fst st" "snd st"] less.prems by auto
    from less.hyps [OF step_steps_left [OF u] step_system_ok [OF u less.prems(1)]
        step_lower [OF u less.prems(2)]] u
    show ?thesis by (meson converse_rtranclp_into_rtranclp)
  qed
qed

lemma start_ok:
  assumes "jobs_ok jobs ht w cl" and "\<forall>(fd, cs) \<in> set jobs. \<forall>c \<in> set cs. lower_command c"
  shows "system_ok (scope_of jobs) (start_jobs jobs ht w cl)"
    and "\<forall>t \<in> set (snd (start_jobs jobs ht w cl)). lower_worker t"
proof -
  show "system_ok (scope_of jobs) (start_jobs jobs ht w cl)"
    using start_explained [OF assms(1)] by (simp add: explained_def)
  show "\<forall>t \<in> set (snd (start_jobs jobs ht w cl)). lower_worker t"
    using assms(2) by (fastforce simp: start_jobs_def lower_worker_def new_worker_def lower_command_def)
qed

lemma run_length:
  assumes "(conc_step ^^ n) st st'"
  shows "n + sum_list (map steps_left (snd st')) \<le> sum_list (map steps_left (snd st))"
  using assms
proof (induction n arbitrary: st')
  case 0
  then show ?case by simp
next
  case (Suc n)
  then obtain u where "(conc_step ^^ n) st u" "conc_step u st'" by auto
  then show ?case using Suc.IH step_steps_left by fastforce
qed

definition total_steps :: "(int \<times> table_command list) list \<Rightarrow> nat" where
  "total_steps jobs = sum_list (map (\<lambda>(fd, cs). sum_list (map command_steps cs)) jobs)"

text \<open>
  C2: Job threads and session threads whose keys start with a lower case letter always finish: as
  long as a thread has something left to do some thread can make a step, no step meets a fault,
  and no run is longer than the sum of the steps of the commands.
\<close>

theorem lowercase_jobs_finish:
  assumes "jobs_ok jobs ht w cl" and "\<forall>(fd, cs) \<in> set jobs. \<forall>c \<in> set cs. lower_command c"
    and "(conc_step ^^ n) (start_jobs jobs ht w cl) (s, ts)"
  shows "n \<le> total_steps jobs \<and> (all_done ts \<or> (\<exists>st'. conc_step (s, ts) st'))"
proof -
  have run: "conc_step\<^sup>*\<^sup>* (start_jobs jobs ht w cl) (s, ts)" using assms(3) by (rule relpowp_imp_rtranclp)
  have ok: "system_ok (scope_of jobs) (s, ts)"
    using steps_explained [OF run start_explained [OF assms(1)]] by (simp add: explained_def)
  from run start_ok(2) [OF assms(1,2)] have "\<forall>t \<in> set (snd (s, ts)). lower_worker t"
    by (induction rule: rtranclp_induct) (auto dest: step_lower)
  then have "all_done ts \<or> (\<exists>st'. conc_step (s, ts) st')" using lower_progress [OF ok] by auto
  moreover have "sum_list (map steps_left (snd (start_jobs jobs ht w cl))) = total_steps jobs"
    by (simp add: start_jobs_def total_steps_def new_worker_def steps_left_def comp_def split_def)
  ultimately show ?thesis using run_length [OF assms(3)] by simp
qed

subsection \<open>Instances\<close>

text \<open>
  Two job threads that write the same key; one makes a backup, the other one waits and shows the
  table. A session thread subscribes to the key, gives the subscription up, subscribes again and
  frees the key as at a disconnect.
\<close>

definition sample_jobs :: "(int \<times> table_command list) list" where
  "sample_jobs =
     [(1, [WriteCmd [''b''] [''2''], BackupCmd]), (2, [WriteCmd [''b'', ''a''] [''3'', ''4''], WaitCmd 5, ShowCmd]),
      (0, [SubscribeCmd ''b'', UnsubscribeCmd ''b'', SubscribeCmd ''b'', ReleaseCmd ''b''])]"

definition sample_guests :: "int \<Rightarrow> client" where
  "sample_guests fd = \<lparr>fdReq = 8, fdResp = fd, fdNotif = 9, subscriptions = []\<rparr>"

lemma sample_jobs_ok: "jobs_ok sample_jobs sample_table quiet_world sample_guests"
  by (simp add: jobs_ok_def sample_jobs_def healthy_def sample_guests_def request_key_ok_def MAX_STRING_SIZE_def
      valid_key_ConsI)

lemma sample_jobs_lower: "\<forall>(fd, cs) \<in> set sample_jobs. \<forall>c \<in> set cs. lower_command c"
  by (simp add: sample_jobs_def lower_command_def lowercase_key_def)

theorem concurrent_jobs_serializable_witness:
  "\<exists>s ts order w' bs cl'.
    conc_step\<^sup>*\<^sup>* (start_jobs sample_jobs sample_table quiet_world sample_guests) (s, ts) \<and> all_done ts \<and>
    run_serially order (Table sample_table, quiet_world, \<lambda>_. [], sample_guests) =
      Inr (Table (tbl s), w', bs, cl') \<and>
    commands_of order 1 = [WriteCmd [''b''] [''2''], BackupCmd] \<and>
    w_out w' 0 = w_out (kern s) 0 \<and> map without_subs (bs 1) = map without_subs (snapshots s 1)"
proof -
  obtain s ts where run:
    "conc_step\<^sup>*\<^sup>* (start_jobs sample_jobs sample_table quiet_world sample_guests) (s, ts)" "all_done ts"
    using lower_finish [OF start_ok [OF sample_jobs_ok sample_jobs_lower]] by blast
  from concurrent_jobs_serializable [OF sample_jobs_ok run] obtain order w' bs cl' where
    "run_serially order (Table sample_table, quiet_world, \<lambda>_. [], sample_guests) = Inr (Table (tbl s), w', bs, cl')"
    "\<forall>(fd, cs) \<in> set sample_jobs. commands_of order fd = cs \<and> w_out w' fd = w_out (kern s) fd \<and>
       map without_subs (bs fd) = map without_subs (snapshots s fd)"
    by fastforce
  with run show ?thesis
    by (intro exI [of _ s] exI [of _ ts] exI [of _ order] exI [of _ w'] exI [of _ bs] exI [of _ cl'])
      (simp add: sample_jobs_def)
qed

theorem lowercase_jobs_finish_witness:
  "total_steps sample_jobs = 122 \<and>
   (\<exists>st'. conc_step (start_jobs sample_jobs sample_table quiet_world sample_guests) st')"
proof -
  have n: "total_steps sample_jobs = 122" by code_simp
  have "\<not> all_done (snd (start_jobs sample_jobs sample_table quiet_world sample_guests))"
    by (simp add: all_done_def start_jobs_def sample_jobs_def new_worker_def)
  then show ?thesis
    using lowercase_jobs_finish [OF sample_jobs_ok sample_jobs_lower, of 0
        "fst (start_jobs sample_jobs sample_table quiet_world sample_guests)"
        "snd (start_jobs sample_jobs sample_table quiet_world sample_guests)"] n
    by simp
qed

end
