(* ===== verification/Leaving.thy ===== *)
theory Leaving
  imports Concurrency
begin

section \<open>A client that leaves while others run\<close>

text \<open>
  The serial order that explains an interleaved run (Concurrency) carries facts about whole commands
  over to the run. Here: which keys a client may still be subscribed to. \<open>open_keys\<close> reads this off
  the commands of its session thread, whatever the other threads did; so a disconnect, which frees
  the keys of the list of the client, leaves no subscriber behind.
\<close>

fun open_keys :: "string list \<Rightarrow> table_command list \<Rightarrow> string list" where
  "open_keys ks [] = ks"
| "open_keys ks (SubscribeCmd key # cs) = open_keys (key # ks) cs"
| "open_keys ks (UnsubscribeCmd key # cs) = open_keys (removeAll key ks) cs"
| "open_keys ks (ReleaseCmd key # cs) = open_keys (removeAll key ks) cs"
| "open_keys ks (c # cs) = open_keys ks cs"

fun is_release :: "table_command \<Rightarrow> bool" where
  "is_release (ReleaseCmd key) \<longleftrightarrow> True"
| "is_release c \<longleftrightarrow> False"

lemma open_keys_append: "open_keys ks (cs @ ds) = open_keys (open_keys ks cs) ds"
  by (induction ks cs rule: open_keys.induct) simp_all

lemma open_keys_mono: "set ks \<subseteq> set ls \<Longrightarrow> set (open_keys ks cs) \<subseteq> set (open_keys ls cs)"
proof (induction cs arbitrary: ks ls)
  case (Cons c cs)
  then show ?case by (cases c) (simp_all add: Cons.IH Diff_mono subset_insertI2 insert_mono)
qed simp

lemma open_keys_listed: "set (open_keys ks cs) \<subseteq> set (open_keys ks (filter (\<lambda>c. \<not> is_release c) cs))"
proof (induction ks cs rule: open_keys.induct)
  case (4 ks key cs)
  have "set (open_keys (removeAll key ks) (filter (\<lambda>c. \<not> is_release c) cs)) \<subseteq>
      set (open_keys ks (filter (\<lambda>c. \<not> is_release c) cs))"
    by (rule open_keys_mono) auto
  then show ?case using 4 by auto
qed simp_all

lemma open_keys_released: "set (open_keys ks (map ReleaseCmd ls)) = set ks - set ls"
  by (induction ls arbitrary: ks) auto

subsection \<open>What a command does to the subscribers\<close>

lemma write_loop_subscribers:
  assumes "write_loop write_pair ps (ht, w) = Inr (ht', w')" and "wf_table ht"
    and "\<forall>p \<in> set ps. valid_key (fst p)"
  shows "subscribers ht' = subscribers ht"
  using assms
proof (induction ps arbitrary: ht w)
  case Nil
  then show ?case by (simp add: write_loop_def)
next
  case (Cons p ps)
  obtain k v where p: "p = (k, v)" by fastforce
  have k: "valid_key k" using Cons.prems(3) p by simp
  obtain r ht1 w1 where
    1: "write_pair ht k v w = Inr (r, ht1, w1)" "wf_table ht1" "subscribers ht1 = subscribers ht"
    using Cons.prems(2)
    by (cases rule: write_pair_cases [OF Cons.prems(2) k, of w v]) (auto simp: subscribers_def fun_eq_iff)
  then have "write_loop write_pair ps (ht1, w1) = Inr (ht', w')"
    using Cons.prems(1) p by (simp add: write_loop_def)
  then show ?case using Cons.IH [of ht1 w1] Cons.prems(3) 1 by simp
qed

lemma delete_loop_subscribers:
  assumes "delete_loop delete_pair fd ks (aux, ht, w) = Inr (aux', ht', w')" and "wf_table ht"
    and "\<forall>k \<in> set ks. valid_key k"
  shows "set (subscribers ht' j) \<subseteq> set (subscribers ht j)"
  using assms
proof (induction ks arbitrary: aux ht w)
  case Nil
  then show ?case by (simp add: delete_loop_def)
next
  case (Cons k ks)
  have k: "valid_key k" using Cons.prems(3) by simp
  obtain r ht1 w1 where
    1: "delete_pair ht k w = Inr (r, ht1, w1)" "wf_table ht1" "set (subscribers ht1 j) \<subseteq> set (subscribers ht j)"
    using Cons.prems(2)
    by (cases rule: delete_pair_cases [OF Cons.prems(2) k, of w]) (auto simp: subscribers_def)
  then obtain aux1 w2 where "delete_loop delete_pair fd ks (aux1, ht1, w2) = Inr (aux', ht', w')"
    using Cons.prems(1) by (auto simp: delete_loop_def Let_def split: if_splits)
  then show ?case using Cons.IH [of aux1 ht1 w2] Cons.prems(3) 1 by auto
qed

text \<open>The commands of job threads give no key a new subscriber and touch no client.\<close>

lemma job_command_subscribers:
  assumes "run_table_command c fd (Table ht, w, bs, cl) = Inr (Table ht', w', bs', cl')"
    and "\<not> session_command c" and "command_ok c" and "wf_table ht"
  shows "set (subscribers ht' j) \<subseteq> set (subscribers ht j) \<and> cl' = cl"
proof (cases c)
  case (WriteCmd keys vals)
  then have ok: "\<forall>p \<in> set (qsort compare_pairs (zip keys vals)). valid_key (fst p)"
    using assms(3) by (intro command_keys_valid) auto
  show ?thesis
    using assms(1,4) WriteCmd write_loop_subscribers [OF _ _ ok]
    by (auto simp: kvs_write_def Let_def split: prod.splits if_splits)
next
  case (DeleteCmd keys)
  then have "\<forall>k \<in> set (sort keys). valid_key k" using assms(3) by simp
  then have sub: "x \<in> set (subscribers ht j)"
    if "delete_loop delete_pair fd (sort keys) (aux, ht, u) = Inr (aux', ht', u')" "x \<in> set (subscribers ht' j)"
    for x aux u aux' u'
    using delete_loop_subscribers [OF that(1) assms(4)] that(2) by blast
  show ?thesis
    using assms(1,4) DeleteCmd 
    by (auto simp: kvs_delete_def Let_def split: prod.splits if_splits) (erule (1) sub)+
qed (use assms(1,2) in auto)

text \<open>The commands of a session thread.\<close>

lemma session_command_effect:
  assumes "good D s" and "fd \<in> guests D"
  defines "c \<equiv> guest s fd" and "st \<equiv> (Table (tbl s), kern s, snapshots s, guest s)"
  shows "request_key_ok key \<Longrightarrow> \<exists>w'. run_table_command (SubscribeCmd key) fd st =
      Inr (Table (subscribed (fdNotif c) key (tbl s)), w', snapshots s,
        (guest s)(fd := if fdNotif c \<in> set (subscribers (tbl s) key) then c
          else c\<lparr>subscriptions := key # subscriptions c\<rparr>))"
    and "request_key_ok key \<Longrightarrow> \<exists>w'. run_table_command (UnsubscribeCmd key) fd st =
      Inr (Table (unsubscribed (fdNotif c) key (tbl s)), w', snapshots s,
        (guest s)(fd := c\<lparr>subscriptions := remove_subscription key (subscriptions c)\<rparr>))"
    and "valid_key key \<Longrightarrow> \<exists>w'. run_table_command (ReleaseCmd key) fd st =
      Inr (Table (unsubscribed (fdNotif c) key (tbl s)), w', snapshots s, guest s)"
proof -
  have s: "sound_table (tbl s)" "calm (kern s)" "healthy (kern s) fd" "fdResp c = fd"
    using assms(1,2) by (auto simp: good_def c_def)
  let ?server = "session_server (Table (tbl s)) c"
  have server: "kvs_table ?server = Table (tbl s)" "client_at ?server 0 = Some c"
    by (simp_all add: session_server_client) (simp add: session_server_def)
  show "\<exists>w'. run_table_command (SubscribeCmd key) fd st =
      Inr (Table (subscribed (fdNotif c) key (tbl s)), w', snapshots s,
        (guest s)(fd := if fdNotif c \<in> set (subscribers (tbl s) key) then c
          else c\<lparr>subscriptions := key # subscriptions c\<rparr>))" if k: "request_key_ok key"
    using kvs_subscribe_eq [of ?server "tbl s" key 0 c "kern s"] k s server session_server_client
    by (auto simp: st_def c_def [symmetric] request_key_ok_def Let_def)
  show "\<exists>w'. run_table_command (UnsubscribeCmd key) fd st =
      Inr (Table (unsubscribed (fdNotif c) key (tbl s)), w', snapshots s,
        (guest s)(fd := c\<lparr>subscriptions := remove_subscription key (subscriptions c)\<rparr>))"
    if k: "request_key_ok key"
    using kvs_unsubscribe_eq [of ?server "tbl s" key 0 c "kern s"] k s server session_server_client
    by (auto simp: st_def c_def [symmetric] request_key_ok_def Let_def)
  show "\<exists>w'. run_table_command (ReleaseCmd key) fd st =
      Inr (Table (unsubscribed (fdNotif c) key (tbl s)), w', snapshots s, guest s)" if k: "valid_key key"
    using kvs_aux_unsubscribe_eq [of ?server "tbl s" key 0 c "kern s"] k s server
    by (auto simp: st_def c_def [symmetric])
qed

subsection \<open>What is known of the keys of a client\<close>

text \<open>
  After the commands \<open>cs\<close> of its session thread: the client is subscribed to open keys only, and its
  list holds the keys it asked for and did not give up. The list is not changed by the turns of a
  disconnect, which drops it as a whole at its end.
\<close>

definition keys_known ::
  "int \<Rightarrow> (int \<Rightarrow> client) \<Rightarrow> table_command list \<Rightarrow> shared \<Rightarrow> bool" where
  "keys_known fd cl cs s \<longleftrightarrow> (\<forall>x. fdNotif (guest s x) = fdNotif (cl x)) \<and>
     (\<forall>k. fdNotif (cl fd) \<in> set (subscribers (tbl s) k) \<longrightarrow> k \<in> set (open_keys (subscriptions (cl fd)) cs)) \<and>
     set (subscriptions (guest s fd)) =
       set (open_keys (subscriptions (cl fd)) (filter (\<lambda>c. \<not> is_release c) cs))"

lemma own_command_known:
  assumes "good D s" and "command_fits D fd c" and "session_command c" and "keys_known fd cl cs s"
    and "run_table_command c fd (Table (tbl s), kern s, snapshots s, guest s) =
      Inr (Table (tbl s'), kern s', snapshots s', guest s')"
  shows "keys_known fd cl (cs @ [c]) s'"
proof -
  let ?ks = "subscriptions (cl fd)" and ?f = "fdNotif (cl fd)"
  have s: "sound_table (tbl s)" "fd \<in> guests D" using assms(1-3) by (auto simp: good_def command_fits_def)
  have f: "fdNotif (guest s fd) = ?f" using assms(4) by (simp add: keys_known_def)
  have listed: "?f \<in> set (subscribers (tbl s) k) \<Longrightarrow> k \<in> set (subscriptions (guest s fd))" for k
    using assms(4) open_keys_listed [of ?ks cs] by (auto simp: keys_known_def)
  note effect = session_command_effect [OF assms(1) s(2)]
  show ?thesis
  proof (cases c)
    case (SubscribeCmd key)
    then have k: "request_key_ok key" "valid_key key" using assms(2) by (simp_all add: command_fits_def request_key_ok_def)
    have s': "tbl s' = subscribed ?f key (tbl s)" "guest s' = (guest s)(fd :=
        if ?f \<in> set (subscribers (tbl s) key) then guest s fd
        else (guest s fd)\<lparr>subscriptions := key # subscriptions (guest s fd)\<rparr>)"
      using effect(1) [OF k(1)] assms(5) SubscribeCmd f by auto
    show ?thesis
      using assms(4) listed [of key]
      by (auto simp: keys_known_def s' SubscribeCmd open_keys_append subscribed(3) [OF k(2) s(1)] split: if_splits)
  next
    case (UnsubscribeCmd key)
    then have k: "request_key_ok key" "valid_key key" using assms(2) by (simp_all add: command_fits_def request_key_ok_def)
    have s': "tbl s' = unsubscribed ?f key (tbl s)" "guest s' = (guest s)(fd :=
        (guest s fd)\<lparr>subscriptions := remove_subscription key (subscriptions (guest s fd))\<rparr>)"
      using effect(2) [OF k(1)] assms(5) UnsubscribeCmd f by auto
    show ?thesis
      using assms(4)
      by (auto simp: keys_known_def s' UnsubscribeCmd open_keys_append unsubscribed(3) [OF k(2) s(1)]
          remove_subscription_eq split: if_splits)
  next
    case (ReleaseCmd key)
    then have k: "valid_key key" using assms(2) by (simp add: command_fits_def)
    have s': "tbl s' = unsubscribed ?f key (tbl s)" "guest s' = guest s"
      using effect(3) [OF k] assms(5) ReleaseCmd f by auto
    show ?thesis
      using assms(4)
      by (auto simp: keys_known_def s' ReleaseCmd open_keys_append unsubscribed(3) [OF k s(1)] split: if_splits)
  qed (use assms(3) in simp_all)
qed

lemma job_command_known:
  assumes "good D s" and "command_fits D g c" and "\<not> session_command c" and "keys_known fd cl cs s"
    and "run_table_command c g (Table (tbl s), kern s, snapshots s, guest s) =
      Inr (Table (tbl s'), kern s', snapshots s', guest s')"
  shows "keys_known fd cl cs s'" and "keys_known fd cl (cs @ [c]) s'"
proof -
  have "wf_table (tbl s)" "command_ok c" using assms(1,2) by (simp_all add: good_def sound_table_def command_fits_def)
  then have e: "set (subscribers (tbl s') j) \<subseteq> set (subscribers (tbl s) j)" "guest s' = guest s" for j
    using job_command_subscribers [OF assms(5,3)] by blast+
  then show known: "keys_known fd cl cs s'" using assms(4) by (auto simp: keys_known_def dest: subsetD)
  have "open_keys ks [c] = ks" for ks using assms(3) by (cases c) simp_all
  moreover have "\<not> is_release c" using assms(3) by (cases c) simp_all
  ultimately show "keys_known fd cl (cs @ [c]) s'"
    using known by (simp add: keys_known_def open_keys_append)
qed

lemma other_command_known:
  assumes "good D s" and "command_fits D g c" and "session_command c" and "keys_known fd cl cs s"
    and "g \<noteq> fd" and "fdNotif (cl g) \<noteq> fdNotif (cl fd)"
    and "run_table_command c g (Table (tbl s), kern s, snapshots s, guest s) =
      Inr (Table (tbl s'), kern s', snapshots s', guest s')"
  shows "keys_known fd cl cs s'"
proof -
  have s: "sound_table (tbl s)" "g \<in> guests D" using assms(1-3) by (auto simp: good_def command_fits_def)
  have g: "fdNotif (guest s g) = fdNotif (cl g)" using assms(4) by (simp add: keys_known_def)
  note effect = session_command_effect [OF assms(1) s(2)]
  show ?thesis
  proof (cases c)
    case (SubscribeCmd key)
    then have k: "request_key_ok key" "valid_key key" using assms(2) by (simp_all add: command_fits_def request_key_ok_def)
    have "tbl s' = subscribed (fdNotif (cl g)) key (tbl s)" "guest s' fd = guest s fd"
      "fdNotif (guest s' x) = fdNotif (guest s x)" for x
      using effect(1) [OF k(1)] assms(5,7) SubscribeCmd g by (auto split: if_splits)
    then show ?thesis
      using assms(4,6) by (auto simp: keys_known_def subscribed(3) [OF k(2) s(1)] split: if_splits)
  next
    case (UnsubscribeCmd key)
    then have k: "request_key_ok key" "valid_key key" using assms(2) by (simp_all add: command_fits_def request_key_ok_def)
    have "tbl s' = unsubscribed (fdNotif (cl g)) key (tbl s)" "guest s' fd = guest s fd"
      "fdNotif (guest s' x) = fdNotif (guest s x)" for x
      using effect(2) [OF k(1)] assms(5,7) UnsubscribeCmd g by auto
    then show ?thesis
      using assms(4) by (auto simp: keys_known_def unsubscribed(3) [OF k(2) s(1)] split: if_splits)
  next
    case (ReleaseCmd key)
    then have k: "valid_key key" using assms(2) by (simp add: command_fits_def)
    have "tbl s' = unsubscribed (fdNotif (cl g)) key (tbl s)" "guest s' = guest s"
      using effect(3) [OF k] assms(7) ReleaseCmd g by auto
    then show ?thesis
      using assms(4) by (auto simp: keys_known_def unsubscribed(3) [OF k s(1)] split: if_splits)
  qed (use assms(3) in simp_all)
qed

lemma serial_known:
  assumes "good D s" and "keys_known fd cl [] s"
    and "\<forall>(g, c) \<in> set order. command_fits D g c \<and>
      (session_command c \<longrightarrow> g \<noteq> fd \<longrightarrow> fdNotif (cl g) \<noteq> fdNotif (cl fd))"
  shows "\<exists>s'. run_serially order (Table (tbl s), kern s, snapshots s, guest s) =
      Inr (Table (tbl s'), kern s', snapshots s', guest s') \<and> good D s' \<and>
      keys_known fd cl (commands_of order fd) s'"
  using assms(3)
proof (induction order rule: rev_induct)
  case Nil
  then show ?case using assms(1,2) by (auto simp: run_serially_def)
next
  case (snoc x order)
  obtain g c where x: "x = (g, c)" by (cases x)
  have fits: "command_fits D g c" and other: "session_command c \<Longrightarrow> g \<noteq> fd \<Longrightarrow> fdNotif (cl g) \<noteq> fdNotif (cl fd)"
    using snoc.prems x by auto
  obtain s1 where 1: "run_serially order (Table (tbl s), kern s, snapshots s, guest s) =
      Inr (Table (tbl s1), kern s1, snapshots s1, guest s1)" "good D s1"
      "keys_known fd cl (commands_of order fd) s1"
    using snoc by auto
  obtain e where e: "for_each access_run (map (Pair g) (command_turns c)) s1 = Inr e"
    using acc.list_runs [OF 1(2) command_admissible [OF fits]] by blast
  obtain s' where 2: "run_table_command c g (Table (tbl s1), kern s1, snapshots s1, guest s1) =
      Inr (Table (tbl s'), kern s', snapshots s', guest s')" "good D s'"
    using command_is_its_accesses [OF 1(2) fits e] by blast
  have "keys_known fd cl (commands_of (order @ [(g, c)]) fd) s'"
    using own_command_known [OF 1(2) _ _ 1(3)] other_command_known [OF 1(2) fits _ 1(3)]
      job_command_known [OF 1(2) fits _ 1(3) 2(1)] fits 2(1) other
    by (cases "session_command c"; cases "g = fd") simp_all
  then show ?case
    using 1(1) 2 x by (auto simp: run_serially_def for_each_append)
qed

subsection \<open>The client that leaves\<close>

text \<open>
  C3: A session thread serves the requests of its client and then its disconnect, while job
  threads and other session threads run in any interleaving: at the end the keys that the
  disconnect freed are those of the list of the client, and no key has the client among its
  subscribers.
\<close>

theorem leaving_client_unsubscribed:
  assumes "jobs_ok jobs ht w cl" and "conc_step\<^sup>*\<^sup>* (start_jobs jobs ht w cl) (s, ts)" and "all_done ts"
    and "(fd, reqs @ map ReleaseCmd ks) \<in> set jobs" and "\<forall>c \<in> set reqs. \<not> is_release c"
    and "set ks = set (open_keys (subscriptions (cl fd)) reqs)"
    and "\<forall>k. fdNotif (cl fd) \<in> set (subscribers ht k) \<longrightarrow> k \<in> set (subscriptions (cl fd))"
    and "\<forall>(g, cs) \<in> set jobs. g \<noteq> fd \<and> serves cs \<longrightarrow> fdNotif (cl g) \<noteq> fdNotif (cl fd)"
  shows "set (subscriptions (guest s fd)) = set ks \<and> fdNotif (cl fd) \<notin> targets (tbl s)"
proof -
  let ?D = "scope_of jobs" and ?S = "fst (start_jobs jobs ht w cl)"
  obtain order w' bs cl' where o: "run_serially order (Table ht, w, \<lambda>_. [], cl) = Inr (Table (tbl s), w', bs, cl')"
    "fst ` set order \<subseteq> fst ` set jobs"
    "\<forall>(g, cs) \<in> set jobs. commands_of order g = cs \<and> cl' g = guest s g"
    using serializable_run [OF assms(1-3)] by fast
  have S: "good ?D ?S" "tbl ?S = ht" "kern ?S = w" "snapshots ?S = (\<lambda>_. [])" "guest ?S = cl"
    using start_system [OF assms(1)] by (auto simp: system_ok_def start_jobs_def)
  have jobs: "command_fits ?D g c \<and> (session_command c \<longrightarrow> g \<noteq> fd \<longrightarrow> fdNotif (cl g) \<noteq> fdNotif (cl fd))"
    if gc: "(g, c) \<in> set order" for g c
  proof -
    obtain cs where cs: "(g, cs) \<in> set jobs" using gc o(2) by force
    have "c \<in> set (commands_of order g)" using gc by (force simp: commands_of_def)
    then have c: "c \<in> set cs" using o(3) cs by auto
    have ok: "command_ok c" using assms(1) cs c by (auto simp: jobs_ok_def)
    have srv: "session_command c \<Longrightarrow> serves cs" using c by (auto simp: serves_def)
    have "g \<in> fst ` set jobs" using cs by force
    then have "command_fits ?D g c" using ok srv cs by (auto simp: command_fits_def scope_of_def)
    then show ?thesis using srv assms(8) cs by blast
  qed
  have "keys_known fd cl [] ?S" using assms(7) S by (simp add: keys_known_def)
  moreover have "\<forall>(g, c) \<in> set order. command_fits ?D g c \<and>
      (session_command c \<longrightarrow> g \<noteq> fd \<longrightarrow> fdNotif (cl g) \<noteq> fdNotif (cl fd))"
    using jobs by blast
  ultimately obtain s' where
    s': "tbl s' = tbl s" "guest s' = cl'" "good ?D s'" "keys_known fd cl (commands_of order fd) s'"
    using serial_known [OF S(1), of fd cl order] o(1) S(2-5) by auto
  have cs: "commands_of order fd = reqs @ map ReleaseCmd ks" "cl' fd = guest s fd" using o(3) assms(4) by auto
  have "filter (\<lambda>c. \<not> is_release c) (commands_of order fd) = reqs"
    using assms(5) by (simp add: cs(1) filter_empty_conv)
  moreover have "set (open_keys (subscriptions (cl fd)) (commands_of order fd)) = {}"
    by (simp add: cs(1) open_keys_append open_keys_released assms(6))
  moreover have "wf_table (tbl s)" using s'(1,3) by (simp add: good_def sound_table_def)
  ultimately show ?thesis
    using s' cs(2) assms(6) by (simp add: keys_known_def targets_iff)
qed

subsection \<open>An instance\<close>

definition leaving_jobs :: "(int \<times> table_command list) list" where
  "leaving_jobs =
     [(1, [WriteCmd [''b''] [''2''], DeleteCmd [''a'']]),
      (0, [SubscribeCmd ''a'', SubscribeCmd ''b'', UnsubscribeCmd ''a''] @ map ReleaseCmd [''b''])]"

lemma leaving_jobs_ok: "jobs_ok leaving_jobs sample_table quiet_world sample_guests"
  by (simp add: jobs_ok_def leaving_jobs_def healthy_def sample_guests_def request_key_ok_def MAX_STRING_SIZE_def
      valid_key_ConsI)

lemma leaving_jobs_lower: "\<forall>(fd, cs) \<in> set leaving_jobs. \<forall>c \<in> set cs. lower_command c"
  by (simp add: leaving_jobs_def lower_command_def lowercase_key_def)

theorem leaving_client_unsubscribed_witness:
  "\<exists>s ts. conc_step\<^sup>*\<^sup>* (start_jobs leaving_jobs sample_table quiet_world sample_guests) (s, ts) \<and>
    all_done ts \<and> set (subscriptions (guest s 0)) = {''b''} \<and> 9 \<notin> targets (tbl s)"
proof -
  obtain s ts where run:
    "conc_step\<^sup>*\<^sup>* (start_jobs leaving_jobs sample_table quiet_world sample_guests) (s, ts)" "all_done ts"
    using lower_finish [OF start_ok [OF leaving_jobs_ok leaving_jobs_lower]] by blast
  have "9 \<notin> set (subscribers sample_table k)" for k
    using targets_iff [of sample_table 9] by auto
  then have "set (subscriptions (guest s 0)) = set [''b''] \<and> fdNotif (sample_guests 0) \<notin> targets (tbl s)"
    by (intro leaving_client_unsubscribed [OF leaving_jobs_ok run,
          of 0 "[SubscribeCmd ''a'', SubscribeCmd ''b'', UnsubscribeCmd ''a'']"])
      (auto simp: leaving_jobs_def sample_guests_def serves_def)
  then show ?thesis using run by (intro exI [of _ s] exI [of _ ts]) (simp add: sample_guests_def)
qed

end
