(* ===== verification/SessionErrors.thy ===== *)
theory SessionErrors
  imports Clients
begin

section \<open>Subscriptions when memory runs out\<close>

text \<open>
  \<open>kvs_subscribe\<close> changes two places, the subscribers of the key and the list of the client, and the
  second change needs memory of its own. This theory follows its two error branches for a key that
  exists, and a disconnect after the second one.
\<close>

lemma subscribe_search_alloc:
  assumes "distinct (map nkey b)" and "bucket_map b k = Some n" and "fd \<notin> set (nsubs n)"
    and "alloc w = (ok, w1)"
  shows "subscribe_search b k fd w = (if ok then 0 else - 1, RESULT_KEY_EXISTS,
    if ok then set_node k (\<lambda>n. if fd \<in> set (nsubs n) then n else n\<lparr>nsubs := nsubs n @ [fd]\<rparr>) b else b, w1)"
  using assms
proof (induction b)
  case Nil
  then show ?case by simp
next
  case (Cons m b)
  show ?case
  proof (cases "nkey m = k")
    case True
    then have "k \<notin> nkey ` set b" using Cons.prems by auto
    then show ?thesis
      using True Cons.prems set_node_absent by (auto simp: add_subscriber_def set_node_def)
  next
    case False
    then show ?thesis using Cons by (auto simp: set_node_def)
  qed
qed

lemma subscribe_known_key:
  assumes "kvs_table s = Table ht" and "sound_table ht" and "valid_key key"
    and "length key \<le> MAX_STRING_SIZE" and "client_at s p = Some c" and "w_lockres w = []"
    and "node_of ht key = Some n" and "fdNotif c \<notin> set (subscribers ht key)" and "healthy w (fdResp c)"
  defines "u \<equiv> \<lambda>rest. w\<lparr>w_allocs := rest, w_locks := w_locks w @ lock_pair key\<rparr>"
  shows "w_allocs w = False # rest \<Longrightarrow> kvs_subscribe key (Some p) s w = Inr (0, s,
      (u rest)\<lparr>w_out := (w_out w)(fdResp c := w_out w (fdResp c) @ [OP_CODE_SUBSCRIBE, RESULT_KEY_EXISTS])\<rparr>)"
    and "w_allocs w = True # False # rest \<Longrightarrow> kvs_subscribe key (Some p) s w =
      Inr (- 1, s\<lparr>kvs_table := Table (subscribed (fdNotif c) key ht)\<rparr>, u rest)"
proof -
  have wf: "wf_table ht" using assms(2) by (simp add: sound_table_def)
  let ?b = "buckets ht ! nat (hash key)"
  have d: "distinct (map nkey ?b)"
    using wf_table_bucket [OF wf assms(3)] by (simp add: wf_bucket_def)
  let ?w1 = "w\<lparr>w_locks := w_locks w @ [WrLock (Bucket (nat (hash key)))]\<rparr>"
  have n: "bucket_map ?b key = Some n" "fdNotif c \<notin> set (nsubs n)"
    using assms(7,8) by (simp_all add: node_of_bucket [OF assms(3)] subscribers_def)
  note search = subscribe_search_alloc [OF d n, of ?w1]
  have ne: "key \<noteq> []" "\<not> hash key < 0" using assms(3) valid_key_nonempty by simp_all
  show "kvs_subscribe key (Some p) s w = Inr (0, s,
      (u rest)\<lparr>w_out := (w_out w)(fdResp c := w_out w (fdResp c) @ [OP_CODE_SUBSCRIBE, RESULT_KEY_EXISTS])\<rparr>)"
    if al: "w_allocs w = False # rest"
  proof -
    have s: "s\<lparr>kvs_table := Table ht\<rparr> = s"
      using assms(1) by simp
    have h: "healthy (u rest) (fdResp c)" using assms(9) by (simp add: healthy_def u_def)
    have "alloc ?w1 = (False, ?w1\<lparr>w_allocs := rest\<rparr>)" using al by (simp add: alloc_def)
    from search [OF this] show ?thesis
      using assms(1,4-6) ne s write_to_resp_pipe_healthy [OF h]
      by (simp add: kvs_subscribe_def deref_def Let_def u_def lock_pair_def bucket_of_def)
  qed
  show "kvs_subscribe key (Some p) s w =
      Inr (- 1, s\<lparr>kvs_table := Table (subscribed (fdNotif c) key ht)\<rparr>, u rest)"
    if al: "w_allocs w = True # False # rest"
  proof -
    let ?w2 = "?w1\<lparr>w_allocs := False # rest\<rparr>"
    have "alloc ?w1 = (True, ?w2)" using al by (simp add: alloc_def)
    from search [OF this] show ?thesis
      using assms(1,4-6) ne
      by (simp add: kvs_subscribe_def deref_def Let_def u_def lock_pair_def bucket_of_def alloc_def
          subscribed_def modify_node_def)
  qed
qed

text \<open>
  C38: A subscription to an existing key: when no memory is left for the new subscriber, the
  client is told that the key exists, but it is not subscribed. When the memory runs out one step
  later, the client is subscribed but the key is not in its list and no answer is sent; and after
  its disconnect, with its object and its pipes gone, its descriptor is still among the
  subscribers of the key.
\<close>

theorem subscription_without_memory:
  assumes "sessions_ok s" and "kvs_table s = Table ht" and "live s p c" and "valid_key key"
    and "length key \<le> MAX_STRING_SIZE" and "w_lockres w = []" and "node_of ht key \<noteq> None"
    and "fdNotif c \<notin> set (subscribers ht key)" and "key \<notin> set (subscriptions c)"
    and "distinct [fdReq c, fdNotif c, fdResp c]" and "fdReq c \<in> set (w_open w)"
    and "fdNotif c \<in> set (w_open w)" and "healthy w (fdResp c)"
  shows "(w_allocs w = [False] \<longrightarrow> (\<exists>w'. kvs_subscribe key (Some p) s w = Inr (0, s, w') \<and>
      w_out w' (fdResp c) = w_out w (fdResp c) @ [OP_CODE_SUBSCRIBE, RESULT_KEY_EXISTS])) \<and>
    (w_allocs w = [True, False] \<longrightarrow> (\<exists>s1 w1 s2 w2 ht'. kvs_subscribe key (Some p) s w = Inr (- 1, s1, w1) \<and>
      live s1 p c \<and> w_out w1 = w_out w \<and> kvs_disconnect (Some p) s1 w1 = Inr (s2, w2) \<and>
      client_at s2 p = None \<and> fdNotif c \<notin> set (w_open w2) \<and>
      kvs_table s2 = Table ht' \<and> fdNotif c \<in> set (subscribers ht' key)))"
proof -
  have sound: "sound_table ht" and slots: "slots_ok s"
    using assms(1,2) by (auto elim!: sessions_okE)
  have at: "client_at s p = Some c" using assms(3) by (simp add: live_def)
  obtain n where n: "node_of ht key = Some n" using assms(7) by blast
  note run = subscribe_known_key [OF assms(2) sound assms(4,5) at assms(6) n assms(8,13)]
  have "\<exists>s1 w1 s2 w2 ht'. kvs_subscribe key (Some p) s w = Inr (- 1, s1, w1) \<and>
      live s1 p c \<and> w_out w1 = w_out w \<and> kvs_disconnect (Some p) s1 w1 = Inr (s2, w2) \<and>
      client_at s2 p = None \<and> fdNotif c \<notin> set (w_open w2) \<and>
      kvs_table s2 = Table ht' \<and> fdNotif c \<in> set (subscribers ht' key)"
    if al: "w_allocs w = [True, False]"
  proof -
    let ?ht = "subscribed (fdNotif c) key ht"
    let ?s1 = "s\<lparr>kvs_table := Table ?ht\<rparr>"
    let ?w1 = "w\<lparr>w_allocs := [], w_locks := w_locks w @ lock_pair key\<rparr>"
    note sub = subscribed [OF assms(4) sound, of "fdNotif c"]
    have l: "live ?s1 p c" using assms(3) by simp
    have valid: "\<And>k. k \<in> set (subscriptions c) \<Longrightarrow> valid_key k"
      using slots assms(3) unfolding slots_ok_iff by blast
    obtain ht' where ht': "unsubscribe_all (Some p) (subscriptions c) (?s1, ?w1) =
        Inr (?s1\<lparr>kvs_table := Table ht'\<rparr>, ?w1\<lparr>w_locks := w_locks ?w1 @ concat (map lock_pair (subscriptions c))\<rparr>)"
      "subscribers ht' = (\<lambda>k. if k \<in> set (subscriptions c) then removeAll (fdNotif c) (subscribers ?ht k)
         else subscribers ?ht k)"
      using unsubscribe_all_eq [of ?s1 ?ht "subscriptions c" p c ?w1] sub(1) valid l assms(6)
      by (auto simp: calm_def live_def)
    have slots1: "slots_ok ?s1" using slots by simp
    obtain i where i: "i < MAX_SESSION_COUNT" "connectedClients ?s1 ! i = Some p" and
      dis: "kvs_disconnect (Some p) ?s1 ?w1 = Inr (dropped i p (?s1\<lparr>kvs_table := Table ht'\<rparr>), ?w1\<lparr>
        w_locks := w_locks ?w1 @ concat (map lock_pair (subscriptions c)),
        w_open := removeAll (fdResp c) (removeAll (fdNotif c) (removeAll (fdReq c) (w_open ?w1))),
        w_out := (w_out ?w1)(fdResp c := w_out ?w1 (fdResp c) @ [OP_CODE_DISCONNECT, CHR ''0''])\<rparr>)"
      using kvs_disconnect_from [OF slots1 l ht'(1) assms(10)] assms(11-13)
      by (auto simp: healthy_def)
    have "slots_ok (?s1\<lparr>kvs_table := Table ht'\<rparr>)" using slots by simp
    note dr = dropped [OF this i(1), of p]
    have "client_at (dropped i p (?s1\<lparr>kvs_table := Table ht'\<rparr>)) p = None"
      "kvs_table (dropped i p (?s1\<lparr>kvs_table := Table ht'\<rparr>)) = Table ht'"
      using dr(3,4) i(2) by simp_all
    moreover have "fdNotif c \<in> set (subscribers ht' key)"
      using ht'(2) sub(3) assms(7-9) by simp
    ultimately show ?thesis
      using run(2) [OF al] dis l by (intro exI conjI) (assumption | simp)+
  qed
  moreover have "\<exists>w'. kvs_subscribe key (Some p) s w = Inr (0, s, w') \<and>
      w_out w' (fdResp c) = w_out w (fdResp c) @ [OP_CODE_SUBSCRIBE, RESULT_KEY_EXISTS]"
    if "w_allocs w = [False]" using run(1) [OF that] by simp
  ultimately show ?thesis by blast
qed

subsection \<open>An instance\<close>

definition fresh_client :: client where
  "fresh_client = \<lparr>fdReq = 5, fdResp = 6, fdNotif = 7, subscriptions = []\<rparr>"

definition fresh_table :: hash_table where
  "fresh_table = \<lparr>buckets = (replicate TABLE_SIZE [])[0 := [\<lparr>nkey = ''a'', nvalue = Some ''1'', nsubs = []\<rparr>]]\<rparr>"

definition fresh_server :: server where
  "fresh_server =
     \<lparr>kvs_table = Table fresh_table, clients = [Some fresh_client], connectedClients = [Some 0, None]\<rparr>"

lemma fresh_server_facts:
  "sessions_ok fresh_server" "node_of fresh_table ''a'' \<noteq> None" "subscribers fresh_table ''a'' = []"
  "kvs_table fresh_server = Table fresh_table" "live fresh_server 0 fresh_client"
  by (code_simp, code_simp, code_simp) (simp_all add: fresh_server_def live_def client_at_def)

theorem subscription_without_memory_witness:
  "\<exists>s1 w1 s2 w2 ht'. kvs_subscribe ''a'' (Some 0) fresh_server (session_world\<lparr>w_allocs := [True, False]\<rparr>) =
      Inr (- 1, s1, w1) \<and> w_out w1 6 = [] \<and> kvs_disconnect (Some 0) s1 w1 = Inr (s2, w2) \<and>
    client_at s2 0 = None \<and> 7 \<notin> set (w_open w2) \<and> kvs_table s2 = Table ht' \<and>
    7 \<in> set (subscribers ht' ''a'')"
proof -
  let ?w = "session_world\<lparr>w_allocs := [True, False]\<rparr>"
  have "w_lockres ?w = []" "healthy ?w (fdResp fresh_client)"
    by (simp_all add: healthy_def fresh_client_def session_world_def quiet_world_def)
  then show ?thesis
    using subscription_without_memory [of fresh_server fresh_table 0 fresh_client "''a''" ?w] fresh_server_facts
    by (auto simp: fresh_client_def MAX_STRING_SIZE_def)
qed

end
