(* ===== verification/JobDirectory.thy ===== *)
theory JobDirectory
  imports Jobs
begin

section \<open>The loop over the directory of a job thread (server/main.c, process\_thread)\<close>

text \<open>
  The outer loop of a job thread: the names of the directory entries it gets, the paths it builds
  from them in buffers of 256 bytes, opening and closing the two files, and the run of each job
  file. \<open>files\<close> is what the job files hold. The result has the shared state of the thread and the
  output files it wrote, each with its text.
\<close>

record job_thread =
  t_job :: job
  t_outputs :: "(string \<times> string) list"

subsection \<open>File names\<close>

definition is_job_name :: "string \<Rightarrow> bool" where
  "is_job_name d_name =
     (let len = length d_name in
      \<not> (len < 4 \<or> strcmp (drop (len - 4) d_name) ''.job'' \<noteq> 0))"

text \<open>The path of an entry; \<open>None\<close> when \<open>snprintf\<close> would have needed more than the buffer.\<close>

definition job_path :: "string \<Rightarrow> string \<Rightarrow> string option" where
  "job_path directory_path d_name =
     (let text = directory_path @ ''/'' @ d_name in
      if length text \<ge> MAX_JOB_FILE_NAME_SIZE then None else Some (snprintf MAX_JOB_FILE_NAME_SIZE text))"

definition base_path :: "string \<Rightarrow> string" where
  "base_path filePath = take (length filePath - 4) filePath"

text \<open>The size passed to \<open>snprintf\<close> is four more than the size of the buffer.\<close>

definition out_path :: "string \<Rightarrow> string" where
  "out_path filePath = snprintf (MAX_JOB_FILE_NAME_SIZE + 4) (base_path filePath @ ''.out'')"

subsection \<open>One file and the loop\<close>

text \<open>Closing at the end of a file: the second is not closed when the first cannot be.\<close>

definition close_files :: "world \<Rightarrow> int \<Rightarrow> int \<Rightarrow> world" where
  "close_files w fd fdOut =
     (case sys_close w fd of
        (r, w1) \<Rightarrow> if r < 0 then w1 else snd (sys_close w1 fdOut))"

text \<open>A file that cannot be opened ends the thread: the flag says whether the loop goes on.\<close>

definition process_file ::
  "(string \<Rightarrow> string) \<Rightarrow> string \<Rightarrow> job_thread \<Rightarrow> (bool \<times> job_thread) res option" where
  "process_file files filePath th =
     (let st = t_job th in
      case sys_open (j_world st) filePath of
        (fd, w1) \<Rightarrow>
          if fd < 0 then Some (Inr (False, th\<lparr>t_job := st\<lparr>j_world := w1\<rparr>\<rparr>))
          else (case sys_open w1 (out_path filePath) of
            (fdOut, w2) \<Rightarrow>
              if fdOut = - 1 then Some (Inr (False, th\<lparr>t_job := st\<lparr>j_world := w2\<rparr>\<rparr>))
              else (case job_loop filePath fdOut
                      (st\<lparr>j_world := w2, j_input := files filePath, fileBackups := 1\<rparr>) of
                None \<Rightarrow> None
              | Some r \<Rightarrow> Some (bindE r (\<lambda>st'.
                  Inr (True, th\<lparr>t_job := st'\<lparr>j_world := close_files (j_world st') fd fdOut\<rparr>,
                    t_outputs := t_outputs th @
                      [(out_path filePath, drop (length (w_out w2 fdOut)) (w_out (j_world st') fdOut))]\<rparr>))))))"

text \<open>The loop; the result has the entries that are left in the shared directory stream.\<close>

fun process_thread ::
  "(string \<Rightarrow> string) \<Rightarrow> string \<Rightarrow> string list \<Rightarrow> job_thread \<Rightarrow>
    (string list \<times> job_thread) res option" where
  "process_thread files directory_path [] th = Some (Inr ([], th))"
| "process_thread files directory_path (d_name # entries) th =
     (if \<not> is_job_name d_name then process_thread files directory_path entries th
      else (case job_path directory_path d_name of
        None \<Rightarrow> process_thread files directory_path entries th
      | Some filePath \<Rightarrow>
          (case process_file files filePath th of
             None \<Rightarrow> None
           | Some (Inl e) \<Rightarrow> Some (Inl e)
           | Some (Inr (go_on, th')) \<Rightarrow>
               if go_on then process_thread files directory_path entries th' else Some (Inr (entries, th')))))"
subsection \<open>The output path fits its buffer\<close>

lemma out_path_text:
  assumes "job_path dir name = Some filePath"
  shows "out_path filePath = base_path filePath @ ''.out''" and "length (out_path filePath) < MAX_JOB_FILE_NAME_SIZE + 1"
  using assms
  by (auto simp: job_path_def out_path_def base_path_def snprintf_def MAX_JOB_FILE_NAME_SIZE_def Let_def
      split: if_splits)

lemma job_path_text:
  assumes "job_path dir name = Some filePath"
  shows "filePath = dir @ ''/'' @ name" and "length filePath < MAX_JOB_FILE_NAME_SIZE"
  using assms
  by (auto simp: job_path_def snprintf_def MAX_JOB_FILE_NAME_SIZE_def Let_def split: if_splits)

lemma is_job_name_text: "is_job_name name \<longleftrightarrow> (\<exists>stem. name = stem @ ''.job'')"
proof
  assume "is_job_name name"
  then have "name = take (length name - 4) name @ ''.job''"
    by (metis append_take_drop_id is_job_name_def strcmp_eq_0)
  then show "\<exists>stem. name = stem @ ''.job''" ..
qed (auto simp: is_job_name_def)

text \<open>
  The path of an output file is the path of the job file with its extension replaced, and it fits
  its array of 256 bytes although snprintf is told that the array has 260.
\<close>

theorem out_path_fits:
  assumes "job_path directory_path d_name = Some filePath" and "is_job_name d_name"
  shows "\<exists>stem. d_name = stem @ ''.job'' \<and> out_path filePath = directory_path @ ''/'' @ stem @ ''.out'' \<and>
    length (out_path filePath) < MAX_JOB_FILE_NAME_SIZE"
proof -
  obtain stem where "d_name = stem @ ''.job''" using assms(2) by (auto simp: is_job_name_text)
  moreover note job_path_text [OF assms(1)] out_path_text(1) [OF assms(1)]
  ultimately show ?thesis by (intro exI [of _ stem]) (auto simp: base_path_def)
qed

text \<open>The names of the backups of a file.\<close>

lemma digit_char:
  assumes "d < 10"
  shows "is_digit (char_of (48 + d))" and "digit_value (char_of (48 + d)) = d"
  using assms by (simp_all add: is_digit_def digit_value_def less_eq_char_def)

lemma decimal_text_digits: "\<forall>c \<in> set (decimal_text n). is_digit c"
proof (induction n rule: decimal_text.induct)
  case (1 n)
  then show ?case
    using digit_char(1) [of n] digit_char(1) [of "n mod 10"]
    by (auto simp: decimal_text.simps [of n])
qed

text \<open>Printing a number and reading its digits gives it back.\<close>

lemma decimal_decimal_text [simp]: "decimal (decimal_text n) = n"
proof (induction n rule: decimal_text.induct)
  case (1 n)
  then show ?case
    using digit_char(2) [of n] digit_char(2) [of "n mod 10"]
    by (auto simp: decimal_text.simps [of n] decimal_def)
qed

lemma length_decimal_text: "n < 10 ^ Suc d \<Longrightarrow> length (decimal_text n) \<le> Suc d"
proof (induction n arbitrary: d rule: decimal_text.induct)
  case (1 n)
  show ?case
  proof (cases "n < 10")
    case True
    then show ?thesis by (simp add: decimal_text.simps [of n])
  next
    case False
    then obtain d' where d: "d = Suc d'" using "1.prems" by (cases d) auto
    have "n div 10 < 10 ^ Suc d'" using "1.prems" d by (simp add: less_mult_imp_div_less)
    from "1.IH" [OF False this] show ?thesis using False d by (simp add: decimal_text.simps [of n])
  qed
qed

text \<open>Two words that end before a character that neither has are equal when their texts are.\<close>

lemma terminated_eq:
  assumes "take k (xs @ c # us) = take k (ys @ c # vs)" and "length xs \<le> k" and "length ys \<le> k"
    and "c \<notin> set xs" and "c \<notin> set ys"
  shows "xs = ys"
  using assms
proof (induction xs arbitrary: ys k)
  case Nil
  then show ?case by (cases ys; cases k) auto
next
  case (Cons x xs)
  then show ?case by (cases ys; cases k) auto
qed

lemma backup_names_injective:
  assumes "length filePath < MAX_JOB_FILE_NAME_SIZE" and "i < 1000" and "j < 1000"
    and "bck_path filePath i = bck_path filePath j"
  shows "i = j"
proof -
  let ?base = "take (length filePath - 4) filePath"
  have len: "length (decimal_text i) \<le> 3" "length (decimal_text j) \<le> 3"
    using length_decimal_text [of _ 2] assms(2,3) by (simp_all add: numeral_3_eq_3)
  obtain k where k: "255 - length (?base @ ''-'') = k" "3 \<le> k"
    using assms(1) by (simp add: MAX_JOB_FILE_NAME_SIZE_def)
  have suc: "255 - (length filePath - 4) = Suc k" using k assms(1) by simp
  have "take (Suc k) (''-'' @ decimal_text i @ ''.bck'') = take (Suc k) (''-'' @ decimal_text j @ ''.bck'')"
    using assms(4) suc by (simp add: bck_path_def snprintf_def MAX_JOB_FILE_NAME_SIZE_def)
  then have "take k (decimal_text i @ ''.bck'') = take k (decimal_text j @ ''.bck'')" by simp
  moreover have "CHR ''.'' \<notin> set (decimal_text n)" for n
    using decimal_text_digits [of n] by (auto simp: is_digit_def less_eq_char_def)
  ultimately have "decimal_text i = decimal_text j"
    using terminated_eq [of k "decimal_text i" "CHR ''.''" "''bck''" "decimal_text j" "''bck''"] len k(2)
    by simp
  then have "decimal (decimal_text i) = decimal (decimal_text j)" by simp
  then show ?thesis by simp
qed
subsection \<open>What a directory of job files means\<close>

text \<open>The paths of the job files among the entries, in their order.\<close>

fun job_paths :: "string \<Rightarrow> string list \<Rightarrow> string list" where
  "job_paths directory_path [] = []"
| "job_paths directory_path (d_name # entries) =
     (case (is_job_name d_name, job_path directory_path d_name) of
        (True, Some filePath) \<Rightarrow> filePath # job_paths directory_path entries
      | _ \<Rightarrow> job_paths directory_path entries)"

text \<open>The map and the output files after the scripts in the files of a list of paths.\<close>

fun paths_map ::
  "(string \<Rightarrow> script_cmd list) \<Rightarrow> (string \<Rightarrow> string option) \<Rightarrow> string list \<Rightarrow> (string \<Rightarrow> string option)" where
  "paths_map scripts m [] = m"
| "paths_map scripts m (p # ps) = paths_map scripts (script_map m (scripts p)) ps"

fun paths_out ::
  "(string \<Rightarrow> script_cmd list) \<Rightarrow> (string \<Rightarrow> string option) \<Rightarrow> string list \<Rightarrow> (string \<times> string) list" where
  "paths_out scripts m [] = []"
| "paths_out scripts m (p # ps) =
     (out_path p, script_out m (scripts p)) # paths_out scripts (script_map m (scripts p)) ps"

definition thread_ready :: "job_thread \<Rightarrow> hash_table \<Rightarrow> bool" where
  "thread_ready th ht \<longleftrightarrow> j_table (t_job th) = Table ht \<and> sound_table ht \<and> calm (j_world (t_job th)) \<and>
     targets ht \<subseteq> set (w_open (j_world (t_job th))) \<and> (\<forall>fd. w_wsched (j_world (t_job th)) fd = [])"

definition opens :: "job_thread \<Rightarrow> string \<Rightarrow> bool" where
  "opens th path \<longleftrightarrow> w_canopen (j_world (t_job th)) path"

lemma sys_open_fresh:
  assumes "w_canopen w path"
  obtains fd where "sys_open w path = (fd, w\<lparr>w_open := fd # w_open w\<rparr>)" "0 \<le> fd" "fd \<notin> set (w_open w)"
  using assms fresh_fd_free [of "w_open w"] fresh_fd_nonneg [of "w_open w"] that
  by (simp add: sys_open_def Let_def)

lemma close_files_opened:
  assumes "w_open w = fdOut # fd # fds" and "fd \<notin> set fds" and "fdOut \<notin> set (fd # fds)"
  shows "close_files w fd fdOut = w\<lparr>w_open := fds\<rparr>"
  using assms by (auto simp: close_files_def sys_close_def)

text \<open>The state in which a file of a script is started.\<close>

lemma open_files_ready:
  assumes "thread_ready th ht" and "opens th filePath" and "opens th (out_path filePath)"
  obtains fd fdOut w1 where
    "sys_open (j_world (t_job th)) filePath = (fd, w1)" and "0 \<le> fd"
    and "sys_open w1 (out_path filePath) =
      (fdOut, (j_world (t_job th))\<lparr>w_open := fdOut # fd # w_open (j_world (t_job th))\<rparr>)" and "0 \<le> fdOut"
    and "fd \<notin> set (w_open (j_world (t_job th)))" and "fdOut \<notin> set (fd # w_open (j_world (t_job th)))"
    and "job_ready ((t_job th)\<lparr>j_world := (j_world (t_job th))\<lparr>w_open := fdOut # fd # w_open (j_world (t_job th))\<rparr>,
      j_input := bytes, fileBackups := 1\<rparr>) ht fdOut"
proof -
  let ?w = "j_world (t_job th)"
  note ready = assms(1) [unfolded thread_ready_def]
  obtain fd where fd: "sys_open ?w filePath = (fd, ?w\<lparr>w_open := fd # w_open ?w\<rparr>)" "0 \<le> fd" "fd \<notin> set (w_open ?w)"
    using sys_open_fresh assms(2) unfolding opens_def by blast
  let ?w1 = "?w\<lparr>w_open := fd # w_open ?w\<rparr>"
  obtain fdOut where fdOut: "sys_open ?w1 (out_path filePath) = (fdOut, ?w1\<lparr>w_open := fdOut # w_open ?w1\<rparr>)"
    "0 \<le> fdOut" "fdOut \<notin> set (w_open ?w1)"
    using sys_open_fresh [of ?w1 "out_path filePath"] assms(3) unfolding opens_def by auto
  have "job_ready ((t_job th)\<lparr>j_world := ?w\<lparr>w_open := fdOut # fd # w_open ?w\<rparr>,
      j_input := bytes, fileBackups := 1\<rparr>) ht fdOut"
    using ready fdOut by (auto simp: job_ready_def calm_def healthy_def)
  with fd fdOut show thesis by (intro that [of fd ?w1 fdOut]) simp_all
qed

lemma process_file_run:
  assumes "thread_ready th ht" and "opens th filePath" and "opens th (out_path filePath)"
    and "\<forall>c \<in> set (scripts filePath). cmd_ok c" and "files filePath = concat (map cmd_text (scripts filePath))"
  shows "\<exists>th' ht'. process_file files filePath th = Some (Inr (True, th')) \<and> thread_ready th' ht' \<and>
    opens th' = opens th \<and> kvs_map ht' = script_map (kvs_map ht) (scripts filePath) \<and>
    targets ht' \<subseteq> targets ht \<and> same_files (j_world (t_job th)) (j_world (t_job th')) \<and> t_outputs th' = t_outputs th @ [(out_path filePath, script_out (kvs_map ht) (scripts filePath))]"
proof -
  let ?w = "j_world (t_job th)"
  note ready = assms(1) [unfolded thread_ready_def]
  obtain fd fdOut w1 where o: "sys_open ?w filePath = (fd, w1)" "0 \<le> fd"
    "sys_open w1 (out_path filePath) = (fdOut, ?w\<lparr>w_open := fdOut # fd # w_open ?w\<rparr>)" "0 \<le> fdOut"
    "fd \<notin> set (w_open ?w)" "fdOut \<notin> set (fd # w_open ?w)"
    "job_ready ((t_job th)\<lparr>j_world := ?w\<lparr>w_open := fdOut # fd # w_open ?w\<rparr>,
      j_input := files filePath, fileBackups := 1\<rparr>) ht fdOut"
    by (rule open_files_ready [OF assms(1-3)])
  let ?w2 = "?w\<lparr>w_open := fdOut # fd # w_open ?w\<rparr>"
  let ?st = "(t_job th)\<lparr>j_world := ?w2, j_input := files filePath, fileBackups := 1\<rparr>"
  obtain st' ht' where run: "job_loop filePath fdOut ?st = Some (Inr st')" "job_ready st' ht' fdOut"
    "kvs_map ht' = script_map (kvs_map ht) (scripts filePath)" "targets ht' \<subseteq> targets ht"
    "same_files ?w2 (j_world st')"
    "w_out (j_world st') fdOut = w_out ?w2 fdOut @ script_out (kvs_map ht) (scripts filePath)"
    using job_file_run [OF o(7) assms(4), of filePath] assms(5) by auto
  have closed: "close_files (j_world st') fd fdOut = (j_world st')\<lparr>w_open := w_open ?w\<rparr>"
    using run(5) o(5,6) by (intro close_files_opened) (simp_all add: same_files_def)
  let ?th = "th\<lparr>t_job := st'\<lparr>j_world := (j_world st')\<lparr>w_open := w_open ?w\<rparr>\<rparr>,
    t_outputs := t_outputs th @ [(out_path filePath, script_out (kvs_map ht) (scripts filePath))]\<rparr>"
  have "process_file files filePath th = Some (Inr (True, ?th))"
    using o run(1,6) closed by (simp add: process_file_def Let_def)
  moreover have "thread_ready ?th ht'"
    using ready run(2,4,5) by (auto simp: thread_ready_def job_ready_def same_files_def calm_def)
  moreover have "opens ?th = opens th" using run(5) by (simp add: opens_def fun_eq_iff same_files_def)
  moreover have "same_files ?w (j_world (t_job ?th))" using run(5) by (simp add: same_files_def)
  ultimately show ?thesis using run(3,4) by (intro exI [of _ ?th] exI [of _ ht']) simp
qed

lemma job_directory_run:
  assumes "thread_ready th ht"
    and "\<forall>p \<in> set (job_paths directory_path entries). opens th p \<and> opens th (out_path p) \<and>
      (\<forall>c \<in> set (scripts p). cmd_ok c) \<and> files p = concat (map cmd_text (scripts p))"
  shows "\<exists>th' ht'. process_thread files directory_path entries th = Some (Inr ([], th')) \<and> thread_ready th' ht' \<and>
    kvs_map ht' = paths_map scripts (kvs_map ht) (job_paths directory_path entries) \<and>
    targets ht' \<subseteq> targets ht \<and> same_files (j_world (t_job th)) (j_world (t_job th')) \<and>
    t_outputs th' = t_outputs th @ paths_out scripts (kvs_map ht) (job_paths directory_path entries)"
  using assms
proof (induction entries arbitrary: th ht)
  case Nil
  then show ?case by auto
next
  case (Cons d_name entries)
  show ?case
  proof (cases "is_job_name d_name \<and> job_path directory_path d_name \<noteq> None")
    case False
    then have skip: "process_thread files directory_path (d_name # entries) th =
        process_thread files directory_path entries th"
      "job_paths directory_path (d_name # entries) = job_paths directory_path entries"
      by (auto split: option.splits bool.splits)
    show ?thesis unfolding skip by (rule Cons.IH [OF Cons.prems(1)]) (use Cons.prems(2) skip in simp)
  next
    case True
    then obtain p where p: "job_path directory_path d_name = Some p" by blast
    then have paths: "job_paths directory_path (d_name # entries) = p # job_paths directory_path entries"
      using True by simp
    obtain th1 ht1 where one: "process_file files p th = Some (Inr (True, th1))" "thread_ready th1 ht1"
      "opens th1 = opens th" "kvs_map ht1 = script_map (kvs_map ht) (scripts p)"
      "t_outputs th1 = t_outputs th @ [(out_path p, script_out (kvs_map ht) (scripts p))]"
      "targets ht1 \<subseteq> targets ht" "same_files (j_world (t_job th)) (j_world (t_job th1))"
      using process_file_run [OF Cons.prems(1), of p scripts files] Cons.prems(2) paths by auto
    have rest: "\<forall>p \<in> set (job_paths directory_path entries). opens th1 p \<and> opens th1 (out_path p) \<and>
      (\<forall>c \<in> set (scripts p). cmd_ok c) \<and> files p = concat (map cmd_text (scripts p))"
      using Cons.prems(2) paths one(3) by simp
    have eq: "process_thread files directory_path (d_name # entries) th =
        process_thread files directory_path entries th1"
      using True p one(1) by simp
    obtain th' ht' where "process_thread files directory_path entries th1 = Some (Inr ([], th'))" "thread_ready th' ht'"
      "kvs_map ht' = paths_map scripts (kvs_map ht1) (job_paths directory_path entries)" "targets ht' \<subseteq> targets ht1"
      "same_files (j_world (t_job th1)) (j_world (t_job th'))"
      "t_outputs th' = t_outputs th1 @ paths_out scripts (kvs_map ht1) (job_paths directory_path entries)"
      using Cons.IH [OF one(2) rest] by blast
    then show ?thesis
      unfolding paths eq using one(4-6) same_files_trans [OF one(7)]
      by (intro exI [of _ th'] exI [of _ ht']) auto
  qed
qed

text \<open>
  C8: A job thread alone on a directory, whose job files hold printed lists of commands and can be
  opened, works through the entries in their order: entries that are no job files or whose path is
  too long are skipped, the abstract map is changed by the scripts one after the other, every
  output file gets exactly the text its script prints, and the descriptors that are open at the
  end are those that were open at the start.
\<close>

theorem job_directory_meaning:
  assumes "thread_ready th ht"
    and "\<forall>p \<in> set (job_paths directory_path entries). opens th p \<and> opens th (out_path p) \<and>
      (\<forall>c \<in> set (scripts p). cmd_ok c) \<and> files p = concat (map cmd_text (scripts p))"
  shows "\<exists>th' ht'. process_thread files directory_path entries th = Some (Inr ([], th')) \<and> thread_ready th' ht' \<and>
    kvs_map ht' = paths_map scripts (kvs_map ht) (job_paths directory_path entries) \<and>
    t_outputs th' = t_outputs th @ paths_out scripts (kvs_map ht) (job_paths directory_path entries) \<and>
    w_open (j_world (t_job th')) = w_open (j_world (t_job th))"
  using job_directory_run [OF assms] by (auto simp: same_files_def)

text \<open>
  The first 999 backups of a job file have different names, even when the path is so long that the
  name of the backup is cut.
\<close>

theorem backup_names_distinct:
  assumes "length filePath < MAX_JOB_FILE_NAME_SIZE" and "i < 1000" and "j < 1000" and "i \<noteq> j"
  shows "bck_path filePath i \<noteq> bck_path filePath j"
  using backup_names_injective [OF assms(1-3)] assms(4) by blast

subsection \<open>Instances\<close>

definition sample_thread :: job_thread where
  "sample_thread = \<lparr>t_job = sample_job [] [], t_outputs = []\<rparr>"

definition job_texts :: "string \<Rightarrow> script_cmd list" where
  "job_texts path = (if path = ''d/x.job'' then [DoWrite [(''b'', ''2'')]] else [DoRead [''b'']])"

theorem job_directory_meaning_witness:
  "\<exists>th'. process_thread (\<lambda>p. concat (map cmd_text (job_texts p))) ''d'' [''x.job'', ''notes'', ''y.job'']
      (sample_thread\<lparr>t_job := (sample_job [] [])\<lparr>j_world := quiet_world\<lparr>w_open := [0, 1, 2, 7]\<rparr>\<rparr>\<rparr>) =
      Some (Inr ([], th')) \<and>
    t_outputs th' = [(''d/x.out'', []), (''d/y.out'', ''[(b,2)]'' @ [newline])] \<and>
    w_open (j_world (t_job th')) = [0, 1, 2, 7]"
proof -
  let ?th = "sample_thread\<lparr>t_job := (sample_job [] [])\<lparr>j_world := quiet_world\<lparr>w_open := [0, 1, 2, 7]\<rparr>\<rparr>\<rparr>"
  let ?files = "\<lambda>p. concat (map cmd_text (job_texts p))"
  have ready: "thread_ready ?th sample_table"
    by (simp add: thread_ready_def calm_def quiet_world_def)
  have paths: "job_paths ''d'' [''x.job'', ''notes'', ''y.job''] = [''d/x.job'', ''d/y.job'']"
    by (simp add: is_job_name_def job_path_def snprintf_def MAX_JOB_FILE_NAME_SIZE_def Let_def)
  have ok: "\<forall>p \<in> set (job_paths ''d'' [''x.job'', ''notes'', ''y.job'']). opens ?th p \<and> opens ?th (out_path p) \<and>
      (\<forall>c \<in> set (job_texts p). cmd_ok c) \<and> ?files p = concat (map cmd_text (job_texts p))"
    unfolding paths
    by (simp add: opens_def quiet_world_def job_texts_def MAX_WRITE_SIZE_def plain_def fits_def
        separators_def valid_key_ConsI)
  obtain th' where run: "process_thread ?files ''d'' [''x.job'', ''notes'', ''y.job''] ?th = Some (Inr ([], th'))"
    "t_outputs th' = t_outputs ?th @ paths_out job_texts (kvs_map sample_table) [''d/x.job'', ''d/y.job'']"
    "w_open (j_world (t_job th')) = w_open (j_world (t_job ?th))"
    using job_directory_meaning [OF ready ok] unfolding paths by blast
  have "paths_out job_texts (kvs_map sample_table) [''d/x.job'', ''d/y.job''] =
      [(''d/x.out'', []), (''d/y.out'', ''[(b,2)]'' @ [newline])]"
    by (simp add: job_texts_def out_path_def base_path_def snprintf_def MAX_JOB_FILE_NAME_SIZE_def read_line_def)
  then show ?thesis using run by (simp add: sample_thread_def)
qed

theorem out_path_fits_witness:
  "length (out_path (replicate 247 CHR ''x'' @ ''/a.job'')) < MAX_JOB_FILE_NAME_SIZE"
  using out_path_fits [of "replicate 247 CHR ''x''" "''a.job''" "replicate 247 CHR ''x'' @ ''/a.job''"]
  by (simp add: is_job_name_def job_path_def snprintf_def MAX_JOB_FILE_NAME_SIZE_def Let_def)

theorem backup_names_distinct_witness:
  "bck_path (replicate 251 CHR ''x'' @ ''.job'') 998 \<noteq> bck_path (replicate 251 CHR ''x'' @ ''.job'') 999"
  by (rule backup_names_distinct) (simp_all add: MAX_JOB_FILE_NAME_SIZE_def)

end
