(* ===== verification/ClientApi.thy ===== *)
theory ClientApi
  imports CommonIO
begin

section \<open>The client's side of the protocol (client/api.c, client/main.c)\<close>

text \<open>
  The messages of a client: a request is its code and, for a subscription, the key in a field of 41
  bytes that is filled with zeros. What the program prints on its standard output is returned as
  text. Creating and removing the pipes in the file system is left out.
\<close>

subsection \<open>Messages\<close>

text \<open>\<open>fill_with_nulls\<close>: what the buffer of \<open>size\<close> bytes holds afterwards.\<close>

definition fill_with_nulls :: "string \<Rightarrow> nat \<Rightarrow> string" where
  "fill_with_nulls src len_buf =
     (let len = (if length src > len_buf then len_buf else length src)
      in take len src @ replicate (len_buf - len) NUL)"

definition connect_message :: "string \<Rightarrow> string \<Rightarrow> string \<Rightarrow> string" where
  "connect_message req_pipe_path resp_pipe_path notif_pipe_path =
     [OP_CODE_CONNECT] @ fill_with_nulls req_pipe_path MAX_PIPE_PATH_LENGTH
       @ fill_with_nulls resp_pipe_path MAX_PIPE_PATH_LENGTH
       @ fill_with_nulls notif_pipe_path MAX_PIPE_PATH_LENGTH"

definition write_connect_message ::
  "world \<Rightarrow> int \<Rightarrow> string \<Rightarrow> string \<Rightarrow> string \<Rightarrow> int \<times> world" where
  "write_connect_message w fdServerPipe req_pipe_path resp_pipe_path notif_pipe_path =
     write_all w fdServerPipe (connect_message req_pipe_path resp_pipe_path notif_pipe_path)"

text \<open>The response: the return value, \<open>*result\<close> where it is stored, the line printed.\<close>

definition op_name :: "char \<Rightarrow> string" where
  "op_name code =
     (if code = OP_CODE_CONNECT then ''connect''
      else if code = OP_CODE_DISCONNECT then ''disconnect''
      else if code = OP_CODE_SUBSCRIBE then ''subscribe''
      else if code = OP_CODE_UNSUBSCRIBE then ''unsubscribe''
      else ''unknown'')"

definition response_line :: "char \<Rightarrow> char \<Rightarrow> string" where
  "response_line code result =
     ''Server returned '' @ [result] @ '' for operation: '' @ op_name code @ [newline]"

definition read_server_response :: "world \<Rightarrow> int \<Rightarrow> char \<Rightarrow> int \<times> char option \<times> string \<times> world" where
  "read_server_response w fdResponsePipe expected_OP_Code =
     (case read_all w fdResponsePipe 1 False of
        (r, buf, readingError, w1) \<Rightarrow>
          if r \<le> 0 then (1, None, [], w1)
          else if hd buf \<noteq> expected_OP_Code then (1, None, [], w1)
          else (case read_all w1 fdResponsePipe 1 readingError of
            (r', buf', _, w2) \<Rightarrow>
              if r' \<le> 0 then (1, None, [], w2)
              else (0, Some (hd buf'), response_line expected_OP_Code (hd buf'), w2)))"

subsection \<open>Requests\<close>

text \<open>
  The request functions use the two pipes of the session through a channel: \<open>send\<close> is a call of
  \<open>write_all\<close> on the request pipe, \<open>respond\<close> a call of \<open>read_server_response\<close> on the response pipe,
  which is \<open>None\<close> when the bytes it waits for never come. With \<open>pipe_channel\<close> the responses are
  already there or their pipe is closed; ClientSession has the channel whose other end is the session
  thread of the server.
\<close>

record 'w channel =
  send :: "'w \<Rightarrow> string \<Rightarrow> int \<times> 'w"
  respond :: "'w \<Rightarrow> char \<Rightarrow> (int \<times> char option \<times> string \<times> 'w) option"

definition pipe_channel :: "int \<Rightarrow> int \<Rightarrow> world channel" where
  "pipe_channel fdRequestPipe fdResponsePipe =
     \<lparr>send = (\<lambda>w bs. write_all w fdRequestPipe bs),
      respond = (\<lambda>w opcode. Some (read_server_response w fdResponsePipe opcode))\<rparr>"

definition write_correct_size :: "'w channel \<Rightarrow> 'w \<Rightarrow> string \<Rightarrow> nat \<Rightarrow> int \<times> 'w" where
  "write_correct_size ch w message len_buf = send ch w (fill_with_nulls message len_buf)"

definition client_subscribe :: "'w channel \<Rightarrow> 'w \<Rightarrow> string \<Rightarrow> (int \<times> string \<times> 'w) option" where
  "client_subscribe ch w key =
     (case send ch w [OP_CODE_SUBSCRIBE] of
        (r, w1) \<Rightarrow> if r = - 1 then Some (0, [], w1)
          else (case write_correct_size ch w1 key KEY_MESSAGE_SIZE of
            (r', w2) \<Rightarrow> if r' = - 1 then Some (0, [], w2)
              else (case respond ch w2 OP_CODE_SUBSCRIBE of
                None \<Rightarrow> None
              | Some (_, _, printed, w3) \<Rightarrow> Some (1, printed, w3))))"

definition client_unsubscribe :: "'w channel \<Rightarrow> 'w \<Rightarrow> string \<Rightarrow> (int \<times> string \<times> 'w) option" where
  "client_unsubscribe ch w key =
     (case send ch w [OP_CODE_UNSUBSCRIBE] of
        (r, w1) \<Rightarrow> if r = - 1 then Some (1, [], w1)
          else (case write_correct_size ch w1 key KEY_MESSAGE_SIZE of
            (r', w2) \<Rightarrow> if r' = - 1 then Some (1, [], w2)
              else (case respond ch w2 OP_CODE_UNSUBSCRIBE of
                None \<Rightarrow> None
              | Some (_, _, printed, w3) \<Rightarrow> Some (0, printed, w3))))"

text \<open>\<open>join_fails\<close> is whether joining the notification thread fails.\<close>

definition client_disconnect :: "'w channel \<Rightarrow> 'w \<Rightarrow> bool \<Rightarrow> (int \<times> string \<times> 'w) option" where
  "client_disconnect ch w join_fails =
     (case send ch w [OP_CODE_DISCONNECT] of
        (r1, w1) \<Rightarrow>
          (let error1 = (if r1 = - 1 then 1 else 0 :: int) in
           case respond ch w1 OP_CODE_DISCONNECT of
             None \<Rightarrow> None
           | Some (r2, _, printed, w2) \<Rightarrow>
               (let error2 = (if r2 = 1 then 1 else error1)
                in Some (if join_fails then 1 else error2, printed, w2))))"

subsection \<open>The notification thread\<close>

text \<open>
  A buffer of 41 bytes, \<open>None\<close> where nothing was stored yet. Printing it reads up to the first zero.
  \<open>read_all\<close> keeps the rest of the buffer when it stores fewer bytes.
\<close>

type_synonym buffer = "char option list"

fun printed_string :: "buffer \<Rightarrow> string res" where
  "printed_string [] = Inl OutOfBounds"
| "printed_string (None # rest) = Inl Uninitialised"
| "printed_string (Some c # rest) =
     (if c = NUL then Inr [] else bindE (printed_string rest) (\<lambda>s. Inr (c # s)))"

definition stored :: "string \<Rightarrow> buffer \<Rightarrow> buffer" where
  "stored bs buffer = map Some bs @ drop (length bs) buffer"

text \<open>
  The thread: fuel for the loop, \<open>readError\<close> and the two buffers, the text printed so far. It gives
  \<open>None\<close> when the fuel ends before the thread does. \<open>terminate\<close> is \<open>terminate_pipes\<close>.
\<close>

definition terminate_pipes :: "world \<Rightarrow> int \<Rightarrow> int \<Rightarrow> int \<Rightarrow> world" where
  "terminate_pipes w fdRequestPipe fdResponsePipe fdNotification =
     snd (sys_close (snd (sys_close (snd (sys_close w fdRequestPipe)) fdNotification)) fdResponsePipe)"

text \<open>One round of the loop: whether the thread ended, and the state it leaves.\<close>

type_synonym notif_state = "bool \<times> buffer \<times> buffer \<times> string \<times> world"

definition notif_round :: "int \<times> int \<times> int \<Rightarrow> notif_state \<Rightarrow> (bool \<times> notif_state) res" where
  "notif_round fds st =
     (case (fds, st) of ((fdReq, fdResp, fdNotif), (readError, key, val, out, w)) \<Rightarrow>
       (case read_all w fdNotif KEY_MESSAGE_SIZE readError of
          (status, kb, readError1, w1) \<Rightarrow>
            if status = PIPES_CLOSED
            then Inr (True, readError1, key, val, out, terminate_pipes w1 fdReq fdResp fdNotif)
            else (case read_all w1 fdNotif KEY_MESSAGE_SIZE readError1 of
              (status', vb, readError2, w2) \<Rightarrow>
                let key' = stored kb key in
                if status' = PIPES_CLOSED
                then Inr (True, readError2, key', val, out, terminate_pipes w2 fdReq fdResp fdNotif)
                else
                  (let val' = stored vb val in
                   bindE (printed_string key') (\<lambda>k. bindE (printed_string val') (\<lambda>v.
                     Inr (False, readError2, key', val', out @ ''('' @ k @ '','' @ v @ '')'' @ [newline], w2)))))))"

fun notif_loop ::
  "nat \<Rightarrow> int \<times> int \<times> int \<Rightarrow> bool \<Rightarrow> buffer \<Rightarrow> buffer \<Rightarrow> string \<Rightarrow> world \<Rightarrow>
   (string \<times> world) res option" where
  "notif_loop 0 fds readError key val out w = None"
| "notif_loop (Suc fuel) fds readError key val out w =
     (case notif_round fds (readError, key, val, out, w) of
        Inl e \<Rightarrow> Some (Inl e)
      | Inr (over, readError1, key1, val1, out1, w1) \<Rightarrow>
          if over then Some (Inr (out1, w1)) else notif_loop fuel fds readError1 key1 val1 out1 w1)"

text \<open>The state after a number of rounds, if the thread does not end before.\<close>

fun notif_rounds :: "nat \<Rightarrow> int \<times> int \<times> int \<Rightarrow> notif_state \<Rightarrow> notif_state option" where
  "notif_rounds 0 fds st = Some st"
| "notif_rounds (Suc n) fds st =
     (case notif_round fds st of Inr (False, st1) \<Rightarrow> notif_rounds n fds st1 | _ \<Rightarrow> None)"

definition process_notif_thread ::
  "nat \<Rightarrow> int \<times> int \<times> int \<Rightarrow> world \<Rightarrow> (string \<times> world) res option" where
  "process_notif_thread fuel fds w =
     notif_loop fuel fds False (replicate KEY_MESSAGE_SIZE None) (replicate KEY_MESSAGE_SIZE None) [] w"
subsection \<open>Lemmas\<close>

lemma length_fill_with_nulls [simp]: "length (fill_with_nulls s n) = n"
  by (simp add: fill_with_nulls_def)

lemma c_str_fill:
  assumes "NUL \<notin> set s" and "length s \<le> n"
  shows "c_str (fill_with_nulls s n) = s"
proof (cases "n - length s")
  case 0
  then show ?thesis using assms by (simp add: fill_with_nulls_def)
next
  case (Suc m)
  then show ?thesis using assms by (simp add: fill_with_nulls_def)
qed

lemma NUL_fill: "length s < n \<Longrightarrow> NUL \<in> set (fill_with_nulls s n)"
  by (simp add: fill_with_nulls_def)

definition request_bytes :: "char \<Rightarrow> string \<Rightarrow> string" where
  "request_bytes opcode key = opcode # fill_with_nulls key KEY_MESSAGE_SIZE"

lemma write_request:
  assumes "healthy w fd"
  shows "write_all w fd [opcode] = (1, w\<lparr>w_out := (w_out w)(fd := w_out w fd @ [opcode])\<rparr>)"
    and "write_all (w\<lparr>w_out := (w_out w)(fd := w_out w fd @ [opcode])\<rparr>) fd (fill_with_nulls key KEY_MESSAGE_SIZE) =
      (1, w\<lparr>w_out := (w_out w)(fd := w_out w fd @ request_bytes opcode key)\<rparr>)"
proof -
  show "write_all w fd [opcode] = (1, w\<lparr>w_out := (w_out w)(fd := w_out w fd @ [opcode])\<rparr>)"
    using assms by (rule write_all_healthy)
  have "healthy (w\<lparr>w_out := (w_out w)(fd := w_out w fd @ [opcode])\<rparr>) fd"
    using assms by (simp add: healthy_def)
  then show "write_all (w\<lparr>w_out := (w_out w)(fd := w_out w fd @ [opcode])\<rparr>) fd
      (fill_with_nulls key KEY_MESSAGE_SIZE) = (1, w\<lparr>w_out := (w_out w)(fd := w_out w fd @ request_bytes opcode key)\<rparr>)"
    by (simp add: write_all_healthy request_bytes_def)
qed

lemma read_response:
  assumes "fd \<in> set (w_open w)" and "w_rsched w fd = []" and "w_in w fd = opcode # result # rest"
  shows "read_server_response w fd opcode =
    (0, Some result, response_line opcode result, w\<lparr>w_in := (w_in w)(fd := rest)\<rparr>)"
proof -
  let ?w = "w\<lparr>w_in := (w_in w)(fd := result # rest)\<rparr>"
  have "read_all w fd 1 False = (1, [opcode], False, ?w)"
    using read_all_regular [of fd w 1] assms by simp
  moreover have "read_all ?w fd 1 False = (1, [result], False, w\<lparr>w_in := (w_in w)(fd := rest)\<rparr>)"
    using read_all_regular [of fd ?w 1] assms by simp
  ultimately show ?thesis by (simp add: read_server_response_def)
qed

text \<open>
  With working pipes and a response of the expected code waiting, the request functions of the
  client write exactly the bytes of their message, consume exactly the response, print it and
  return their success value.
\<close>

theorem client_requests_correct:
  assumes "healthy w fdReq" and "fdResp \<in> set (w_open w)" and "w_rsched w fdResp = []"
    and "w_in w fdResp = opcode # result # rest"
  shows "(opcode = OP_CODE_SUBSCRIBE \<longrightarrow> client_subscribe (pipe_channel fdReq fdResp) w key =
      Some (1, response_line opcode result,
       w\<lparr>w_out := (w_out w)(fdReq := w_out w fdReq @ request_bytes opcode key),
         w_in := (w_in w)(fdResp := rest)\<rparr>)) \<and>
    (opcode = OP_CODE_UNSUBSCRIBE \<longrightarrow> client_unsubscribe (pipe_channel fdReq fdResp) w key =
      Some (0, response_line opcode result,
       w\<lparr>w_out := (w_out w)(fdReq := w_out w fdReq @ request_bytes opcode key),
         w_in := (w_in w)(fdResp := rest)\<rparr>)) \<and>
    (opcode = OP_CODE_DISCONNECT \<longrightarrow> client_disconnect (pipe_channel fdReq fdResp) w join_fails =
      Some (if join_fails then 1 else 0, response_line opcode result,
       w\<lparr>w_out := (w_out w)(fdReq := w_out w fdReq @ [opcode]),
         w_in := (w_in w)(fdResp := rest)\<rparr>))"
proof -
  have response: "read_server_response (w\<lparr>w_out := f\<rparr>) fdResp c =
      (0, Some result, response_line c result, w\<lparr>w_out := f, w_in := (w_in w)(fdResp := rest)\<rparr>)"
    if "opcode = c" for f c
    using read_response [of fdResp "w\<lparr>w_out := f\<rparr>" opcode result rest] assms(2-4) that by simp
  show ?thesis
    by (intro conjI impI)
      (simp_all add: client_subscribe_def client_unsubscribe_def client_disconnect_def
        pipe_channel_def write_correct_size_def
        write_request [OF assms(1)] response)
qed

theorem client_requests_correct_witness:
  "client_subscribe (pipe_channel 1 0) (quiet_world\<lparr>w_in := (\<lambda>_. ''31'')\<rparr>) ''a'' =
    Some (1, ''Server returned 1 for operation: subscribe'' @ [newline],
     quiet_world\<lparr>w_out := (\<lambda>_. [])(1 := request_bytes (CHR ''3'') ''a''),
       w_in := (\<lambda>_. ''31'')(0 := [])\<rparr>)"
  using client_requests_correct [of "quiet_world\<lparr>w_in := (\<lambda>_. ''31'')\<rparr>" 1 0 "CHR ''3''" "CHR ''1''" "[]" "''a''"]
  by (simp add: healthy_def quiet_world_def protocol_codes response_line_def op_name_def)

subsection \<open>What the notification thread prints\<close>

lemma printed_string_c_str: "NUL \<in> set bs \<Longrightarrow> printed_string (map Some bs @ rest) = Inr (c_str bs)"
  by (induction bs) (auto simp: c_str_def)

lemma length_stored: "length bs \<le> length buf \<Longrightarrow> length (stored bs buf) = length buf"
  by (simp add: stored_def)

definition notif_text :: "string \<times> string \<Rightarrow> string" where
  "notif_text m = ''('' @ c_str (fst m) @ '','' @ c_str (snd m) @ '')'' @ [newline]"

definition message :: "string \<times> string \<Rightarrow> bool" where
  "message m \<longleftrightarrow> length (fst m) = KEY_MESSAGE_SIZE \<and> length (snd m) = KEY_MESSAGE_SIZE \<and>
     NUL \<in> set (fst m) \<and> NUL \<in> set (snd m)"

lemma read_all_eof:
  assumes "fd \<in> set (w_open w)" and "w_rsched w fd = []" and "w_in w fd = []" and "0 < n"
  shows "read_all w fd n False = (0, [], False, w)"
proof -
  have "(w_in w)(fd := []) = w_in w" using assms(3) by auto
  then show ?thesis
    using assms by (simp add: read_all_def read_all_from.simps sys_read_regular)
qed

lemma notif_loop_messages:
  assumes "fdNotif \<in> set (w_open w)" and "w_rsched w fdNotif = []"
    and "w_in w fdNotif = concat (map (\<lambda>m. fst m @ snd m) ms)" and "\<forall>m \<in> set ms. message m"
    and "length ms < fuel"
  shows "notif_loop fuel (fdReq, fdResp, fdNotif) False key val out w =
    Some (Inr (out @ concat (map notif_text ms),
      terminate_pipes (w\<lparr>w_in := (w_in w)(fdNotif := [])\<rparr>) fdReq fdResp fdNotif))"
  using assms
proof (induction ms arbitrary: fuel key val out w)
  case Nil
  then obtain f where "fuel = Suc f" by (cases fuel) auto
  moreover have "(w_in w)(fdNotif := []) = w_in w" using Nil by auto
  ultimately show ?case
    using Nil by (simp add: notif_round_def read_all_eof KEY_MESSAGE_SIZE_def PIPES_CLOSED_def)
next
  case (Cons m ms)
  obtain kb vb where m: "m = (kb, vb)" by fastforce
  obtain f where f: "fuel = Suc f" "length ms < f" using Cons.prems(5) by (cases fuel) auto
  have len: "length kb = KEY_MESSAGE_SIZE" "length vb = KEY_MESSAGE_SIZE"
    and nul: "NUL \<in> set kb" "NUL \<in> set vb" using Cons.prems(4) m by (simp_all add: message_def)
  let ?rest = "concat (map (\<lambda>m. fst m @ snd m) ms)"
  let ?w1 = "w\<lparr>w_in := (w_in w)(fdNotif := vb @ ?rest)\<rparr>"
  let ?w2 = "w\<lparr>w_in := (w_in w)(fdNotif := ?rest)\<rparr>"
  have pos: "KEY_MESSAGE_SIZE \<noteq> 0" by (simp add: KEY_MESSAGE_SIZE_def)
  have r1: "read_all w fdNotif KEY_MESSAGE_SIZE False = (1, kb, False, ?w1)"
    using read_all_regular [of fdNotif w KEY_MESSAGE_SIZE] Cons.prems(1-3) len m pos by simp
  have r2: "read_all ?w1 fdNotif KEY_MESSAGE_SIZE False = (1, vb, False, ?w2)"
    using read_all_regular [of fdNotif ?w1 KEY_MESSAGE_SIZE] Cons.prems(1,2) len pos by simp
  have p: "printed_string (stored kb key) = Inr (c_str kb)"
    "printed_string (stored vb val) = Inr (c_str vb)"
    using nul by (simp_all add: stored_def printed_string_c_str)
  have IH: "notif_loop f (fdReq, fdResp, fdNotif) False (stored kb key) (stored vb val)
      (out @ notif_text m) ?w2 =
    Some (Inr ((out @ notif_text m) @ concat (map notif_text ms),
      terminate_pipes (?w2\<lparr>w_in := (w_in ?w2)(fdNotif := [])\<rparr>) fdReq fdResp fdNotif))"
    by (rule Cons.IH) (use Cons.prems f in auto)
  have t: "notif_text m = ''('' @ c_str kb @ '','' @ c_str vb @ '')'' @ [newline]"
    by (simp add: notif_text_def m)
  have "notif_loop fuel (fdReq, fdResp, fdNotif) False key val out w =
      notif_loop f (fdReq, fdResp, fdNotif) False (stored kb key) (stored vb val)
        (out @ notif_text m) ?w2"
    unfolding t by (simp add: f(1) notif_round_def r1 r2 p PIPES_CLOSED_def)
  then show ?case using IH by (simp add: fun_upd_def cong: if_cong)
qed

text \<open>
  From a notification pipe that delivers complete messages and is then closed, the notification
  thread prints the key and value of each message in order and then releases the pipes.
\<close>

theorem notif_thread_prints:
  assumes "fdNotif \<in> set (w_open w)" and "w_rsched w fdNotif = []"
    and "w_in w fdNotif = concat (map (\<lambda>m. fst m @ snd m) ms)" and "\<forall>m \<in> set ms. message m"
    and "length ms < fuel"
  shows "process_notif_thread fuel (fdReq, fdResp, fdNotif) w =
    Some (Inr (concat (map notif_text ms),
      terminate_pipes (w\<lparr>w_in := (w_in w)(fdNotif := [])\<rparr>) fdReq fdResp fdNotif))"
  unfolding process_notif_thread_def using notif_loop_messages [OF assms] by simp

theorem notif_thread_prints_witness:
  "\<exists>w'. process_notif_thread 2 (1, 2, 0)
      (quiet_world\<lparr>w_in := (\<lambda>_. fill_with_nulls ''a'' 41 @ fill_with_nulls ''1'' 41)\<rparr>) =
    Some (Inr (''(a,1)'' @ [newline], w'))"
proof -
  let ?m = "(fill_with_nulls ''a'' 41, fill_with_nulls ''1'' 41)"
  have "notif_text ?m = ''(a,1)'' @ [newline]" by (simp add: notif_text_def c_str_fill)
  moreover have "message ?m" by (simp add: message_def KEY_MESSAGE_SIZE_def NUL_fill)
  ultimately show ?thesis
    using notif_thread_prints [of 0 "quiet_world\<lparr>w_in := (\<lambda>_. fst ?m @ snd ?m)\<rparr>" "[?m]" 2 1 2]
    by (simp add: quiet_world_def)
qed

text \<open>The state of the kernel after the interrupted read: one outcome less, and nothing read.\<close>

definition interrupted :: "world \<Rightarrow> int \<Rightarrow> world" where
  "interrupted w fd = w\<lparr>w_rsched := (w_rsched w)(fd := tl (w_rsched w fd))\<rparr>"

lemma read_all_interrupted:
  assumes "fd \<in> set (w_open w)" and "w_rsched w fd = Interrupted # rs" and "0 < n"
  shows "read_all w fd n False = (- 1, [], True, interrupted w fd)"
  using assms by (simp add: read_all_def read_all_from.simps sys_read_def interrupted_def Let_def)

lemma read_all_after_error: "read_all w fd n True = (- 1, [], True, w)"
  by (simp add: read_all_def)

definition repeated :: "nat \<Rightarrow> string \<Rightarrow> string" where
  "repeated n s = concat (replicate n s)"

lemma notif_round_spin:
  assumes "printed_string key = Inr k" and "printed_string val = Inr v"
  shows "notif_round (fdReq, fdResp, fdNotif) (True, key, val, out, w) =
    Inr (False, True, key, val, out @ ''('' @ k @ '','' @ v @ '')'' @ [newline], w)"
  using assms by (simp add: notif_round_def read_all_after_error PIPES_CLOSED_def stored_def)

lemma notif_rounds_spin:
  assumes "printed_string key = Inr k" and "printed_string val = Inr v"
  shows "notif_rounds n (fdReq, fdResp, fdNotif) (True, key, val, out, w) =
    Some (True, key, val, out @ repeated n (''('' @ k @ '','' @ v @ '')'' @ [newline]), w)"
  by (induction n arbitrary: out) (simp_all add: notif_round_spin [OF assms] repeated_def)

lemma notif_round_interrupted:
  assumes "fdNotif \<in> set (w_open w)" and "w_rsched w fdNotif = Interrupted # rs"
  shows "notif_round (fdReq, fdResp, fdNotif) (False, key, val, out, w) =
    bindE (printed_string key) (\<lambda>k. bindE (printed_string val) (\<lambda>v.
      Inr (False, True, key, val, out @ ''('' @ k @ '','' @ v @ '')'' @ [newline], interrupted w fdNotif)))"
  using read_all_interrupted [OF assms, of KEY_MESSAGE_SIZE]
  by (simp add: notif_round_def read_all_after_error KEY_MESSAGE_SIZE_def PIPES_CLOSED_def stored_def)

text \<open>
  C40: When a signal interrupts the first read of a round and both buffers hold the strings of an
  earlier message, the notification thread never ends: every later round prints that message once
  more and reads nothing. When it interrupts the first round of the thread, buffers that were
  never written are printed.
\<close>

theorem notif_thread_spins_after_interrupt:
  assumes "fdNotif \<in> set (w_open w)" and "w_rsched w fdNotif = Interrupted # rs"
  shows "(printed_string key = Inr k \<and> printed_string val = Inr v \<longrightarrow>
      notif_loop fuel (fdReq, fdResp, fdNotif) False key val out w = None \<and>
      notif_rounds (Suc n) (fdReq, fdResp, fdNotif) (False, key, val, out, w) =
        Some (True, key, val, out @ repeated (Suc n) (''('' @ k @ '','' @ v @ '')'' @ [newline]),
          w\<lparr>w_rsched := (w_rsched w)(fdNotif := rs)\<rparr>)) \<and>
    process_notif_thread (Suc fuel) (fdReq, fdResp, fdNotif) w = Some (Inl Uninitialised)"
proof (intro conjI impI)
  assume "printed_string key = Inr k \<and> printed_string val = Inr v"
  then have bufs: "printed_string key = Inr k" "printed_string val = Inr v" by simp_all
  note first = notif_round_interrupted [OF assms]
  have none: "notif_loop fuel (fdReq, fdResp, fdNotif) True key val out w = None" for fuel out w
    by (induction fuel arbitrary: out) (simp_all add: notif_round_spin [OF bufs])
  show "notif_loop fuel (fdReq, fdResp, fdNotif) False key val out w = None"
    by (cases fuel) (simp_all add: first bufs none)
  show "notif_rounds (Suc n) (fdReq, fdResp, fdNotif) (False, key, val, out, w) =
      Some (True, key, val, out @ repeated (Suc n) (''('' @ k @ '','' @ v @ '')'' @ [newline]),
        w\<lparr>w_rsched := (w_rsched w)(fdNotif := rs)\<rparr>)"
    using assms(2) by (simp add: first bufs notif_rounds_spin [OF bufs] repeated_def interrupted_def)
next
  have "printed_string (replicate KEY_MESSAGE_SIZE None) = Inl Uninitialised"
    by (simp add: KEY_MESSAGE_SIZE_def eval_nat_numeral)
  then show "process_notif_thread (Suc fuel) (fdReq, fdResp, fdNotif) w = Some (Inl Uninitialised)"
    by (simp add: process_notif_thread_def notif_round_interrupted [OF assms])
qed

theorem notif_thread_spins_after_interrupt_witness:
  "notif_loop 1000 (1, 2, 0) False (map Some (fill_with_nulls ''a'' 41)) (map Some (fill_with_nulls ''1'' 41))
     [] (quiet_world\<lparr>w_rsched := (\<lambda>_. [Interrupted])\<rparr>) = None \<and>
   (\<exists>st. notif_rounds 2 (1, 2, 0) (False, map Some (fill_with_nulls ''a'' 41), map Some (fill_with_nulls ''1'' 41),
     [], quiet_world\<lparr>w_rsched := (\<lambda>_. [Interrupted])\<rparr>) = Some st \<and>
     fst (snd (snd (snd st))) = ''(a,1)'' @ [newline] @ ''(a,1)'' @ [newline]) \<and>
   process_notif_thread 1001 (1, 2, 0) (quiet_world\<lparr>w_rsched := (\<lambda>_. [Interrupted])\<rparr>) = Some (Inl Uninitialised)"
proof -
  have p: "printed_string (map Some (fill_with_nulls s 41)) = Inr s" if "NUL \<notin> set s" "length s < 41" for s
    using printed_string_c_str [of "fill_with_nulls s 41" "[]"] that by (simp add: NUL_fill c_str_fill)
  have two: "(2 :: nat) = Suc 1" and fuel: "(1001 :: nat) = Suc 1000" by simp_all
  let ?w = "quiet_world\<lparr>w_rsched := (\<lambda>_. [Interrupted])\<rparr>"
  have w: "0 \<in> set (w_open ?w)" "w_rsched ?w 0 = Interrupted # []" by (simp_all add: quiet_world_def)
  show ?thesis
    unfolding two fuel
    using notif_thread_spins_after_interrupt [OF w, where k = "''a''" and v = "''1''" and fuel = 1000 and n = 1 and
        fdReq = 1 and fdResp = 2 and out = "[]" and key = "map Some (fill_with_nulls ''a'' 41)" and
        val = "map Some (fill_with_nulls ''1'' 41)"]
    by (simp add: p repeated_def)
qed

end
