(* ===== verification/Requests.thy ===== *)
theory Requests
  imports Clients ClientApi
begin

section \<open>The server's side of the protocol (server/main.c)\<close>

text \<open>
  Reading a connect message, serving one request, and the loop of a session thread from a
  successful \<open>kvs_connect\<close> on. \<open>disconnectControl\<close> is the flag that the handler of \<open>SIGUSR1\<close> sets;
  it is an argument, since a session only reads it.
\<close>

subsection \<open>The connect message\<close>

text \<open>
  \<open>strncpy dst src n\<close> copies up to the first zero and fills the rest of the \<open>n\<close> bytes with zeros;
  \<open>dst[n] = 0\<close> follows. The arguments give the sizes of the objects behind \<open>opcode\<close> and the three
  path buffers; the result is the return value, the code and the three paths.
\<close>

definition copied_path :: "nat \<Rightarrow> string \<Rightarrow> string res" where
  "copied_path pipe_size src =
     (if pipe_size < MAX_PIPE_PATH_LENGTH + 1 then Inl OutOfBounds
      else Inr (c_str (take MAX_PIPE_PATH_LENGTH src)))"

definition read_connect_message ::
  "nat \<Rightarrow> nat \<Rightarrow> int \<Rightarrow> world \<Rightarrow> (int \<times> (char \<times> string \<times> string \<times> string) option \<times> world) res" where
  "read_connect_message opcode_size pipe_size fdServerPipe w =
     (case read_all w fdServerPipe (MAX_PIPE_PATH_LENGTH * 3 + 1) False of
        (r, buffer, reading_error, w1) \<Rightarrow>
          if r \<le> 0 \<or> reading_error then Inr (1, None, w1)
          else if opcode_size < 2 then Inl OutOfBounds
          else if hd buffer \<noteq> OP_CODE_CONNECT then Inr (1, None, w1)
          else bindE (copied_path pipe_size (drop 1 buffer)) (\<lambda>req.
            bindE (copied_path pipe_size (drop (1 + MAX_PIPE_PATH_LENGTH) buffer)) (\<lambda>resp.
              bindE (copied_path pipe_size (drop (1 + MAX_PIPE_PATH_LENGTH * 2) buffer)) (\<lambda>notif.
                Inr (0, Some (hd buffer, req, resp, notif), w1)))))"

text \<open>The sizes that \<open>process_host_thread\<close> passes: one \<open>char\<close> and three arrays of 40.\<close>

definition host_read_connect ::
  "int \<Rightarrow> world \<Rightarrow> (int \<times> (char \<times> string \<times> string \<times> string) option \<times> world) res" where
  "host_read_connect = read_connect_message 1 MAX_PIPE_PATH_LENGTH"

subsection \<open>One request\<close>

text \<open>The key field is used as a C string: 41 bytes without a zero run over its end.\<close>

definition key_field :: "string \<Rightarrow> string res" where
  "key_field buffer = (if NUL \<in> set buffer then Inr (c_str buffer) else Inl OutOfBounds)"

definition give_up ::
  "bool \<Rightarrow> client_ptr \<Rightarrow> server \<Rightarrow> world \<Rightarrow> (int \<times> server \<times> world) res" where
  "give_up disconnectControl ptr s w =
     (if disconnectControl then Inr (1, s, w)
      else bindE (kvs_disconnect ptr s w) (\<lambda>(s', w'). Inr (1, s', w')))"

definition manage_request ::
  "bool \<Rightarrow> client_ptr \<Rightarrow> char \<Rightarrow> server \<Rightarrow> world \<Rightarrow> (int \<times> server \<times> world) res" where
  "manage_request disconnectControl ptr opcode s w =
     (if opcode = OP_CODE_CONNECT then Inr (0, s, w)
      else if opcode = OP_CODE_DISCONNECT then
        bindE (kvs_disconnect ptr s w) (\<lambda>(s', w'). Inr (1, s', w'))
      else if opcode = OP_CODE_SUBSCRIBE then
        bindE (deref_client s ptr) (\<lambda>client.
          (case read_all w (fdReq client) KEY_MESSAGE_SIZE False of
             (r, buffer, _, w1) \<Rightarrow>
               if r \<le> 0 then give_up disconnectControl ptr s w1
               else bindE (key_field buffer) (\<lambda>key.
                 bindE (kvs_subscribe key ptr s w1) (\<lambda>(r', s2, w2).
                   if r' \<noteq> 0 then give_up disconnectControl ptr s2 w2
                   else Inr (0, s2, w2)))))
      else if opcode = OP_CODE_UNSUBSCRIBE then
        bindE (deref_client s ptr) (\<lambda>client.
          (case read_all w (fdReq client) KEY_MESSAGE_SIZE False of
             (r, buffer, _, w1) \<Rightarrow>
               if r \<le> 0 then give_up disconnectControl ptr s w1
               else bindE (key_field buffer) (\<lambda>key.
                 bindE (kvs_unsubscribe key ptr s w1) (\<lambda>(_, s2, w2). Inr (0, s2, w2)))))
      else give_up disconnectControl ptr s w)"

subsection \<open>The session loop\<close>

definition CLIENT_TERMINATED :: int where "CLIENT_TERMINATED = 1"

text \<open>
  The loop of \<open>process_client_thread\<close> over the requests of one client. \<open>session_turn\<close> is its body:
  whether the session is over, the flag \<open>readingError\<close> that is kept from one turn to the next, and the
  state. The loop has fuel; \<open>None\<close> says that the fuel ended before the session.
\<close>

definition session_turn ::
  "bool \<Rightarrow> client_ptr \<Rightarrow> bool \<Rightarrow> server \<Rightarrow> world \<Rightarrow> (bool \<times> bool \<times> server \<times> world) res" where
  "session_turn disconnectControl ptr readingError s w =
     bindE (deref_client s ptr) (\<lambda>client.
       (case read_all w (fdReq client) 1 readingError of
          (status, buf, readingError1, w1) \<Rightarrow>
            if disconnectControl then Inr (True, readingError1, s, w1)
            else if status \<noteq> 1 then
              bindE (kvs_disconnect ptr s w1) (\<lambda>(s2, w2). Inr (True, readingError1, s2, w2))
            else bindE (manage_request disconnectControl ptr (hd buf) s w1) (\<lambda>(clientStatus, s2, w2).
              Inr (clientStatus = CLIENT_TERMINATED, readingError1, s2, w2))))"

fun session_loop ::
  "nat \<Rightarrow> bool \<Rightarrow> client_ptr \<Rightarrow> bool \<Rightarrow> server \<Rightarrow> world \<Rightarrow> (server \<times> world) res option" where
  "session_loop 0 disconnectControl ptr readingError s w = None"
| "session_loop (Suc fuel) disconnectControl ptr readingError s w =
     (case session_turn disconnectControl ptr readingError s w of
        Inl e \<Rightarrow> Some (Inl e)
      | Inr (over, readingError1, s1, w1) \<Rightarrow>
          if over then Some (Inr (s1, w1))
          else session_loop fuel disconnectControl ptr readingError1 s1 w1)"

text \<open>One turn of \<open>process_client_thread\<close>, for the pipes of the message it took from the buffer.\<close>

definition serve_client ::
  "nat \<Rightarrow> bool \<Rightarrow> string \<times> string \<times> string \<Rightarrow> server \<Rightarrow> world \<Rightarrow> (server \<times> world) res option" where
  "serve_client fuel disconnectControl paths s w =
     (case paths of (reqPath, respPath, notifPath) \<Rightarrow>
       (case kvs_connect reqPath respPath notifPath None s w of
          Inl e \<Rightarrow> Some (Inl e)
        | Inr (status, ptr, s1, w1) \<Rightarrow>
            if status \<noteq> 0 then
              (if status = - 1 then Some (Inr (s1, w1)) else Some (kvs_disconnect ptr s1 w1))
            else session_loop fuel disconnectControl ptr False s1 w1))"
subsection \<open>The connect message arrives\<close>

lemma copied_path:
  assumes "MAX_PIPE_PATH_LENGTH < pipe_size" and "NUL \<notin> set path" and "length path \<le> MAX_PIPE_PATH_LENGTH"
  shows "copied_path pipe_size (fill_with_nulls path MAX_PIPE_PATH_LENGTH @ rest) = Inr path"
  using assms by (simp add: copied_path_def c_str_fill)

lemma read_connect_bytes:
  assumes "fd \<in> set (w_open w)" and "w_rsched w fd = []"
    and "w_in w fd = connect_message req resp notif @ rest"
  shows "read_all w fd (MAX_PIPE_PATH_LENGTH * 3 + 1) False =
    (1, connect_message req resp notif, False, w\<lparr>w_in := (w_in w)(fd := rest)\<rparr>)"
proof -
  have "length (connect_message req resp notif) = MAX_PIPE_PATH_LENGTH * 3 + 1"
    by (simp add: connect_message_def)
  then show ?thesis
    using read_all_regular [of fd w "MAX_PIPE_PATH_LENGTH * 3 + 1"] assms by simp
qed

text \<open>
  C39: A connect message with paths of up to 40 characters is read back as the same three paths
  when the buffers of the reader have room for a terminator; with the buffers that the host thread
  passes, every such message overruns them.
\<close>

theorem connect_message_roundtrip:
  assumes "fd \<in> set (w_open w)" and "w_rsched w fd = []"
    and "w_in w fd = connect_message req resp notif @ rest"
    and "\<forall>path \<in> {req, resp, notif}. NUL \<notin> set path \<and> length path \<le> MAX_PIPE_PATH_LENGTH"
  shows "(MAX_PIPE_PATH_LENGTH < pipe_size \<and> 1 < opcode_size \<longrightarrow>
      read_connect_message opcode_size pipe_size fd w =
        Inr (0, Some (OP_CODE_CONNECT, req, resp, notif), w\<lparr>w_in := (w_in w)(fd := rest)\<rparr>)) \<and>
    host_read_connect fd w = Inl OutOfBounds"
proof -
  have d: "drop 1 (connect_message req resp notif) =
      fill_with_nulls req MAX_PIPE_PATH_LENGTH @ fill_with_nulls resp MAX_PIPE_PATH_LENGTH @
      fill_with_nulls notif MAX_PIPE_PATH_LENGTH"
    "drop (1 + MAX_PIPE_PATH_LENGTH) (connect_message req resp notif) =
      fill_with_nulls resp MAX_PIPE_PATH_LENGTH @ fill_with_nulls notif MAX_PIPE_PATH_LENGTH"
    "drop (1 + MAX_PIPE_PATH_LENGTH * 2) (connect_message req resp notif) =
      fill_with_nulls notif MAX_PIPE_PATH_LENGTH @ []"
    "hd (connect_message req resp notif) = OP_CODE_CONNECT"
    by (simp_all add: connect_message_def)
  have "read_connect_message opcode_size pipe_size fd w =
      Inr (0, Some (OP_CODE_CONNECT, req, resp, notif), w\<lparr>w_in := (w_in w)(fd := rest)\<rparr>)"
    if "MAX_PIPE_PATH_LENGTH < pipe_size" "1 < opcode_size"
    unfolding read_connect_message_def read_connect_bytes [OF assms(1-3)] prod.case d
    using that assms(4) by (simp add: copied_path del: append_Nil2)
  moreover have "host_read_connect fd w = Inl OutOfBounds"
    unfolding host_read_connect_def read_connect_message_def read_connect_bytes [OF assms(1-3)]
    by simp
  ultimately show ?thesis by blast
qed

subsection \<open>A session from its requests to its responses\<close>

datatype client_request = Subscribe string | Unsubscribe string

fun request_key :: "client_request \<Rightarrow> string" where
  "request_key (Subscribe k) = k"
| "request_key (Unsubscribe k) = k"

text \<open>What the client's functions write for a request.\<close>

fun client_bytes :: "client_request \<Rightarrow> string" where
  "client_bytes (Subscribe k) = request_bytes OP_CODE_SUBSCRIBE k"
| "client_bytes (Unsubscribe k) = request_bytes OP_CODE_UNSUBSCRIBE k"

definition session_input :: "client_request list \<Rightarrow> string" where
  "session_input rs = concat (map client_bytes rs) @ [OP_CODE_DISCONNECT]"

definition proper_key :: "string \<Rightarrow> bool" where
  "proper_key k \<longleftrightarrow> valid_key k \<and> length k \<le> MAX_STRING_SIZE \<and> NUL \<notin> set k"

text \<open>
  The responses as a function of which keys exist and which of them the client is subscribed to.
\<close>

fun responses :: "(string \<Rightarrow> bool) \<Rightarrow> string set \<Rightarrow> client_request list \<Rightarrow> string" where
  "responses known subs [] = [OP_CODE_DISCONNECT, CHR ''0'']"
| "responses known subs (Subscribe k # rs) =
     OP_CODE_SUBSCRIBE # (if known k then CHR ''1'' else CHR ''0'') #
     responses known (if known k then insert k subs else subs) rs"
| "responses known subs (Unsubscribe k # rs) =
     OP_CODE_UNSUBSCRIBE # (if k \<in> subs then CHR ''0'' else CHR ''1'') #
     responses known (subs - {k}) rs"

text \<open>One step of the specification: the result of a request, and the subscriptions after it.\<close>

fun request_result :: "(string \<Rightarrow> bool) \<Rightarrow> string set \<Rightarrow> client_request \<Rightarrow> char" where
  "request_result known subs (Subscribe k) = (if known k then CHR ''1'' else CHR ''0'')"
| "request_result known subs (Unsubscribe k) = (if k \<in> subs then CHR ''0'' else CHR ''1'')"

fun subs_after :: "(string \<Rightarrow> bool) \<Rightarrow> string set \<Rightarrow> client_request \<Rightarrow> string set" where
  "subs_after known subs (Subscribe k) = (if known k then insert k subs else subs)"
| "subs_after known subs (Unsubscribe k) = subs - {k}"

lemma responses_step:
  "responses known subs (r # rs) =
     [hd (client_bytes r), request_result known subs r] @ responses known (subs_after known subs r) rs"
  by (cases r) (simp_all add: request_bytes_def)

definition client_subs :: "int \<Rightarrow> hash_table \<Rightarrow> string set" where
  "client_subs fd ht = {k. fd \<in> set (subscribers ht k)}"

text \<open>The state in which a session waits for its next request.\<close>

definition session_ready :: "server \<Rightarrow> world \<Rightarrow> nat \<Rightarrow> client \<Rightarrow> bool" where
  "session_ready s w p c \<longleftrightarrow> sessions_ok s \<and> live s p c \<and> calm w \<and>
     distinct [fdReq c, fdNotif c, fdResp c] \<and> fdReq c \<in> set (w_open w) \<and>
     fdNotif c \<in> set (w_open w) \<and> healthy w (fdResp c) \<and> w_rsched w (fdReq c) = []"

lemma read_key:
  assumes "fd \<in> set (w_open w)" and "w_rsched w fd = []"
    and "w_in w fd = fill_with_nulls k KEY_MESSAGE_SIZE @ rest" and "proper_key k"
  shows "read_all w fd KEY_MESSAGE_SIZE False =
      (1, fill_with_nulls k KEY_MESSAGE_SIZE, False, w\<lparr>w_in := (w_in w)(fd := rest)\<rparr>)"
    and "key_field (fill_with_nulls k KEY_MESSAGE_SIZE) = Inr k"
proof -
  have k: "NUL \<notin> set k" "length k < KEY_MESSAGE_SIZE"
    using assms(4) by (simp_all add: proper_key_def MAX_STRING_SIZE_def KEY_MESSAGE_SIZE_def)
  show "read_all w fd KEY_MESSAGE_SIZE False =
      (1, fill_with_nulls k KEY_MESSAGE_SIZE, False, w\<lparr>w_in := (w_in w)(fd := rest)\<rparr>)"
    using read_all_regular [of fd w KEY_MESSAGE_SIZE] assms(1-3) by (simp add: KEY_MESSAGE_SIZE_def)
  show "key_field (fill_with_nulls k KEY_MESSAGE_SIZE) = Inr k"
    using k by (simp add: key_field_def NUL_fill c_str_fill)
qed

lemma gone_trans:
  assumes "kvs_table s = Table ht" "kvs_table s1 = Table ht1" "kvs_map ht1 = kvs_map ht"
    and "\<And>k. removeAll (fdNotif c) (subscribers ht1 k) = removeAll (fdNotif c) (subscribers ht k)"
    and "gone p (c\<lparr>subscriptions := ks\<rparr>) s1 s'"
  shows "gone p c s s'"
  using assms by (auto simp: gone_def split: table_ptr.splits)
text \<open>The state after one request, and the response it sent.\<close>

definition served ::
  "server \<Rightarrow> world \<Rightarrow> nat \<Rightarrow> client \<Rightarrow> hash_table \<Rightarrow> string \<Rightarrow> string set \<Rightarrow> string \<Rightarrow> server \<Rightarrow> world \<Rightarrow> bool" where
  "served s w p c ht rest subs response s' w' \<longleftrightarrow>
     (\<exists>ks ht'. session_ready s' w' p (c\<lparr>subscriptions := ks\<rparr>) \<and> kvs_table s' = Table ht' \<and>
        kvs_map ht' = kvs_map ht \<and> client_subs (fdNotif c) ht' = subs \<and>
        (\<forall>k. removeAll (fdNotif c) (subscribers ht' k) = removeAll (fdNotif c) (subscribers ht k))) \<and>
     w_out w' (fdResp c) = w_out w (fdResp c) @ response \<and> w_in w' (fdReq c) = rest \<and>
     w_open w' = w_open w"

lemma session_ready_frame:
  assumes "session_ready s w p c" and "sessions_ok s'" and "live s' p (c\<lparr>subscriptions := ks\<rparr>)"
    and "w_allocs w' = w_allocs w" "w_lockres w' = w_lockres w" "w_open w' = w_open w"
    and "w_wsched w' = w_wsched w" "w_rsched w' = w_rsched w"
  shows "session_ready s' w' p (c\<lparr>subscriptions := ks\<rparr>)"
  using assms by (simp add: session_ready_def calm_def healthy_def)

lemma ready_read:
  assumes "session_ready s w p c" and "w_in w (fdReq c) = fill_with_nulls k KEY_MESSAGE_SIZE @ rest"
    and "proper_key k"
  shows "read_all w (fdReq c) KEY_MESSAGE_SIZE False =
      (1, fill_with_nulls k KEY_MESSAGE_SIZE, False, w\<lparr>w_in := (w_in w)(fdReq c := rest)\<rparr>)"
    and "deref_client s (Some p) = Inr c"
  using read_key(1) [of "fdReq c" w k rest] assms by (simp_all add: session_ready_def live_def)

lemma manage_subscribe:
  assumes "session_ready s w p c" and "kvs_table s = Table ht" and "proper_key k"
    and "w_in w (fdReq c) = fill_with_nulls k KEY_MESSAGE_SIZE @ rest"
  shows "\<exists>s' w'. manage_request False (Some p) OP_CODE_SUBSCRIBE s w = Inr (0, s', w') \<and>
    served s w p c ht rest
      (if kvs_map ht k \<noteq> None then insert k (client_subs (fdNotif c) ht) else client_subs (fdNotif c) ht)
      [OP_CODE_SUBSCRIBE, if kvs_map ht k \<noteq> None then CHR ''1'' else CHR ''0''] s' w'"
proof -
  let ?w1 = "w\<lparr>w_in := (w_in w)(fdReq c := rest)\<rparr>"
  have ok: "sessions_ok s" "live s p c" and w1: "calm ?w1" "healthy ?w1 (fdResp c)"
    using assms(1) by (simp_all add: session_ready_def calm_def healthy_def)
  have k: "valid_key k" "length k \<le> MAX_STRING_SIZE" using assms(3) by (simp_all add: proper_key_def)
  have sound: "sound_table ht" using ok(1) assms(2) by (simp add: sessions_ok_iff)
  have none: "kvs_map ht k = None \<longleftrightarrow> node_of ht k = None" by (rule kvs_map_None [OF sound])
  let ?res = "if node_of ht k = None then RESULT_KEY_DOESNT_EXIST else RESULT_KEY_EXISTS"
  let ?w2 = "?w1\<lparr>w_locks := w_locks ?w1 @ lock_pair k,
      w_out := (w_out ?w1)(fdResp c := w_out ?w1 (fdResp c) @ [OP_CODE_SUBSCRIBE, ?res])\<rparr>"
  obtain s' ht' ks where run: "kvs_subscribe k (Some p) s ?w1 = Inr (0, s', ?w2)"
    "sessions_ok s'" "kvs_table s' = Table ht'" "kvs_map ht' = kvs_map ht"
    "subscribers ht' =
      (if node_of ht k = None \<or> fdNotif c \<in> set (subscribers ht k) then subscribers ht
       else (subscribers ht)(k := subscribers ht k @ [fdNotif c]))"
    "live s' p (c\<lparr>subscriptions := ks\<rparr>)"
    using kvs_subscribe_run [OF ok(1) assms(2) ok(2) k w1] by blast
  have "manage_request False (Some p) OP_CODE_SUBSCRIBE s w = Inr (0, s', ?w2)"
    using ready_read [OF assms(1,4,3)] read_key(2) [OF _ _ assms(4,3)] run(1) assms(1)
    by (simp add: manage_request_def protocol_codes session_ready_def)
  moreover have "session_ready s' ?w2 p (c\<lparr>subscriptions := ks\<rparr>)"
    by (rule session_ready_frame [OF assms(1) run(2,6)]) simp_all
  moreover have "client_subs (fdNotif c) ht' =
      (if kvs_map ht k \<noteq> None then insert k (client_subs (fdNotif c) ht) else client_subs (fdNotif c) ht)"
    unfolding client_subs_def run(5) none by auto
  moreover have "\<forall>j. removeAll (fdNotif c) (subscribers ht' j) = removeAll (fdNotif c) (subscribers ht j)"
    unfolding run(5) by simp
  ultimately show ?thesis
    using run(3,4)
    by (intro exI [of _ s'] exI [of _ ?w2])
      (auto simp: served_def none RESULT_KEY_EXISTS_def RESULT_KEY_DOESNT_EXIST_def)
qed

lemma manage_unsubscribe:
  assumes "session_ready s w p c" and "kvs_table s = Table ht" and "proper_key k"
    and "w_in w (fdReq c) = fill_with_nulls k KEY_MESSAGE_SIZE @ rest"
  shows "\<exists>s' w'. manage_request False (Some p) OP_CODE_UNSUBSCRIBE s w = Inr (0, s', w') \<and>
    served s w p c ht rest (client_subs (fdNotif c) ht - {k})
      [OP_CODE_UNSUBSCRIBE, if k \<in> client_subs (fdNotif c) ht then CHR ''0'' else CHR ''1''] s' w'"
proof -
  let ?w1 = "w\<lparr>w_in := (w_in w)(fdReq c := rest)\<rparr>"
  have ok: "sessions_ok s" "live s p c" and w1: "calm ?w1" "healthy ?w1 (fdResp c)"
    using assms(1) by (simp_all add: session_ready_def calm_def healthy_def)
  have k: "valid_key k" "length k \<le> MAX_STRING_SIZE" using assms(3) by (simp_all add: proper_key_def)
  let ?res = "if fdNotif c \<in> set (subscribers ht k) then CHR ''0'' else CHR ''1''"
  let ?w2 = "?w1\<lparr>w_locks := w_locks ?w1 @ lock_pair k,
      w_out := (w_out ?w1)(fdResp c := w_out ?w1 (fdResp c) @ [OP_CODE_UNSUBSCRIBE, ?res])\<rparr>"
  obtain s' ht' ks where run: "kvs_unsubscribe k (Some p) s ?w1 = Inr (0, s', ?w2)"
    "sessions_ok s'" "kvs_table s' = Table ht'" "kvs_map ht' = kvs_map ht"
    "subscribers ht' = (subscribers ht)(k := removeAll (fdNotif c) (subscribers ht k))"
    "live s' p (c\<lparr>subscriptions := ks\<rparr>)"
    using kvs_unsubscribe_run [OF ok(1) assms(2) ok(2) k w1] by blast
  have "manage_request False (Some p) OP_CODE_UNSUBSCRIBE s w = Inr (0, s', ?w2)"
    using ready_read [OF assms(1,4,3)] read_key(2) [OF _ _ assms(4,3)] run(1) assms(1)
    by (simp add: manage_request_def protocol_codes session_ready_def)
  moreover have "session_ready s' ?w2 p (c\<lparr>subscriptions := ks\<rparr>)"
    by (rule session_ready_frame [OF assms(1) run(2,6)]) simp_all
  moreover have "client_subs (fdNotif c) ht' = client_subs (fdNotif c) ht - {k}"
    unfolding client_subs_def run(5) by auto
  moreover have "\<forall>j. removeAll (fdNotif c) (subscribers ht' j) = removeAll (fdNotif c) (subscribers ht j)"
    unfolding run(5) by simp
  ultimately show ?thesis
    using run(3,4)
    by (intro exI [of _ s'] exI [of _ ?w2]) (auto simp: served_def client_subs_def)
qed
lemma session_read_opcode:
  assumes "session_ready s w p c" and "w_in w (fdReq c) = opcode # rest"
  shows "read_all w (fdReq c) 1 False = (1, [opcode], False, w\<lparr>w_in := (w_in w)(fdReq c := rest)\<rparr>)"
    and "deref_client s (Some p) = Inr c"
    and "session_ready s (w\<lparr>w_in := (w_in w)(fdReq c := rest)\<rparr>) p c"
  using read_all_regular [of "fdReq c" w 1] assms
  by (simp_all add: session_ready_def live_def calm_def healthy_def)

lemma session_step:
  assumes "session_ready s w p c" and "kvs_table s = Table ht"
    and "w_in w (fdReq c) = client_bytes r @ rest" and "proper_key (request_key r)"
  shows "\<exists>s' w'. session_turn False (Some p) False s w = Inr (False, False, s', w') \<and>
    served s w p c ht rest (subs_after (\<lambda>k. kvs_map ht k \<noteq> None) (client_subs (fdNotif c) ht) r)
      [hd (client_bytes r), request_result (\<lambda>k. kvs_map ht k \<noteq> None) (client_subs (fdNotif c) ht) r] s' w'"
proof -
  obtain opcode k where r: "client_bytes r = opcode # fill_with_nulls k KEY_MESSAGE_SIZE"
    "request_key r = k" "r = Subscribe k \<and> opcode = OP_CODE_SUBSCRIBE \<or>
       r = Unsubscribe k \<and> opcode = OP_CODE_UNSUBSCRIBE"
    by (cases r) (simp_all add: request_bytes_def)
  let ?w1 = "w\<lparr>w_in := (w_in w)(fdReq c := fill_with_nulls k KEY_MESSAGE_SIZE @ rest)\<rparr>"
  have "w_in w (fdReq c) = opcode # fill_with_nulls k KEY_MESSAGE_SIZE @ rest"
    using assms(3) r(1) by simp
  note rd = session_read_opcode [OF assms(1) this]
  have in1: "w_in ?w1 (fdReq c) = fill_with_nulls k KEY_MESSAGE_SIZE @ rest" by simp
  have k: "proper_key k" using assms(4) r(2) by simp
  let ?known = "\<lambda>k. kvs_map ht k \<noteq> None"
  let ?S = "client_subs (fdNotif c) ht"
  let ?subs = "subs_after ?known ?S r" and ?resp = "[hd (client_bytes r), request_result ?known ?S r]"
  obtain s' w' where m: "manage_request False (Some p) opcode s ?w1 = Inr (0, s', w')"
    "served s ?w1 p c ht rest ?subs ?resp s' w'"
  proof (cases "r = Subscribe k")
    case True
    then have op: "opcode = OP_CODE_SUBSCRIBE" using r(3) by auto
    show ?thesis
      using manage_subscribe [OF rd(3) assms(2) k in1] True op r(1)
      by (elim exE conjE) (rule that, auto)
  next
    case False
    then have op: "r = Unsubscribe k" "opcode = OP_CODE_UNSUBSCRIBE" using r(3) by auto
    show ?thesis
      using manage_unsubscribe [OF rd(3) assms(2) k in1] op r(1)
      by (elim exE conjE) (rule that, auto)
  qed
  have "session_turn False (Some p) False s w = Inr (False, False, s', w')"
    using rd(1,2) m(1) by (simp add: session_turn_def CLIENT_TERMINATED_def)
  moreover have "served s w p c ht rest ?subs ?resp s' w'" using m(2) by (simp add: served_def)
  ultimately show ?thesis by blast
qed

lemma session_last_step:
  assumes "session_ready s w p c" and "w_in w (fdReq c) = OP_CODE_DISCONNECT # rest"
  shows "\<exists>s' w'. session_turn False (Some p) False s w = Inr (True, False, s', w') \<and>
    sessions_ok s' \<and> gone p c s s' \<and>
    w_out w' (fdResp c) = w_out w (fdResp c) @ [OP_CODE_DISCONNECT, CHR ''0''] \<and>
    w_in w' (fdReq c) = rest \<and> set (w_open w') = set (w_open w) - {fdReq c, fdNotif c, fdResp c}"
proof -
  note rd = session_read_opcode [OF assms]
  let ?w1 = "w\<lparr>w_in := (w_in w)(fdReq c := rest)\<rparr>"
  have hyps: "sessions_ok s" "live s p c" "calm ?w1" "distinct [fdReq c, fdNotif c, fdResp c]"
    "fdReq c \<in> set (w_open ?w1)" "fdNotif c \<in> set (w_open ?w1)" "healthy ?w1 (fdResp c)"
    using rd(3) unfolding session_ready_def by blast+
  obtain s' w' where run: "kvs_disconnect (Some p) s ?w1 = Inr (s', w')" "sessions_ok s'" "gone p c s s'"
    and w': "w_out w' = (w_out ?w1)(fdResp c := w_out ?w1 (fdResp c) @ [OP_CODE_DISCONNECT, CHR ''0''])"
      "set (w_open w') = set (w_open ?w1) - {fdReq c, fdNotif c, fdResp c}" "w_in w' = w_in ?w1"
    using kvs_disconnect_run [OF hyps] by (elim exE conjE) (rule that)
  have "session_turn False (Some p) False s w = Inr (True, False, s', w')"
    using rd(1,2) run(1) by (simp add: session_turn_def manage_request_def protocol_codes CLIENT_TERMINATED_def)
  then show ?thesis using run(2,3) w' by (intro exI [of _ s'] exI [of _ w']) simp
qed

lemma session_run:
  assumes "session_ready s w p c" and "kvs_table s = Table ht"
    and "w_in w (fdReq c) = session_input rs @ rest" and "\<forall>r \<in> set rs. proper_key (request_key r)"
    and "length rs < fuel"
  shows "\<exists>s' w'. session_loop fuel False (Some p) False s w = Some (Inr (s', w')) \<and>
    sessions_ok s' \<and> gone p c s s' \<and>
    w_out w' (fdResp c) = w_out w (fdResp c) @
      responses (\<lambda>k. kvs_map ht k \<noteq> None) (client_subs (fdNotif c) ht) rs \<and>
    w_in w' (fdReq c) = rest \<and>
    set (w_open w') = set (w_open w) - {fdReq c, fdNotif c, fdResp c}"
  using assms
proof (induction rs arbitrary: fuel s w c ht)
  case Nil
  obtain f where f: "fuel = Suc f" using Nil.prems(5) by (cases fuel) auto
  have "w_in w (fdReq c) = OP_CODE_DISCONNECT # rest" using Nil.prems(3) by (simp add: session_input_def)
  from session_last_step [OF Nil.prems(1) this] show ?case by (auto simp: f)
next
  case (Cons r rs)
  obtain f where f: "fuel = Suc f" "length rs < f" using Cons.prems(5) by (cases fuel) auto
  have input: "w_in w (fdReq c) = client_bytes r @ (session_input rs @ rest)"
    using Cons.prems(3) by (simp add: session_input_def)
  have k: "proper_key (request_key r)" using Cons.prems(4) by simp
  define subs where "subs = subs_after (\<lambda>k. kvs_map ht k \<noteq> None) (client_subs (fdNotif c) ht) r"
  define resp where
    "resp = [hd (client_bytes r), request_result (\<lambda>k. kvs_map ht k \<noteq> None) (client_subs (fdNotif c) ht) r]"
  have resp: "responses (\<lambda>k. kvs_map ht k \<noteq> None) (client_subs (fdNotif c) ht) (r # rs) =
       resp @ responses (\<lambda>k. kvs_map ht k \<noteq> None) subs rs"
    unfolding resp_def subs_def by (rule responses_step)
  obtain s1 w1 where step: "session_turn False (Some p) False s w = Inr (False, False, s1, w1)"
    and served: "served s w p c ht (session_input rs @ rest) subs resp s1 w1"
    using session_step [OF Cons.prems(1,2) input k] unfolding subs_def resp_def by blast
  obtain ks ht1 where s1: "session_ready s1 w1 p (c\<lparr>subscriptions := ks\<rparr>)" "kvs_table s1 = Table ht1"
    "kvs_map ht1 = kvs_map ht" "client_subs (fdNotif c) ht1 = subs"
    "\<And>k. removeAll (fdNotif c) (subscribers ht1 k) = removeAll (fdNotif c) (subscribers ht k)"
    and w1: "w_out w1 (fdResp c) = w_out w (fdResp c) @ resp"
    "w_in w1 (fdReq c) = session_input rs @ rest" "w_open w1 = w_open w"
    using served unfolding served_def by blast
  let ?c = "c\<lparr>subscriptions := ks\<rparr>"
  have "\<exists>s' w'. session_loop f False (Some p) False s1 w1 = Some (Inr (s', w')) \<and>
    sessions_ok s' \<and> gone p ?c s1 s' \<and>
    w_out w' (fdResp ?c) = w_out w1 (fdResp ?c) @
      responses (\<lambda>k. kvs_map ht1 k \<noteq> None) (client_subs (fdNotif ?c) ht1) rs \<and>
    w_in w' (fdReq ?c) = rest \<and>
    set (w_open w') = set (w_open w1) - {fdReq ?c, fdNotif ?c, fdResp ?c}"
    by (rule Cons.IH [OF s1(1,2)]) (use w1 Cons.prems(4) f(2) in simp_all)
  then obtain s' w' where IH: "session_loop f False (Some p) False s1 w1 = Some (Inr (s', w'))"
    "sessions_ok s'" "gone p ?c s1 s'"
    "w_out w' (fdResp c) = w_out w1 (fdResp c) @ responses (\<lambda>k. kvs_map ht k \<noteq> None) subs rs"
    "w_in w' (fdReq c) = rest" "set (w_open w') = set (w_open w1) - {fdReq c, fdNotif c, fdResp c}"
    using s1(3,4) by auto
  have "gone p c s s'" by (rule gone_trans [OF Cons.prems(2) s1(2,3,5) IH(3)])
  then show ?case
    using step IH w1 resp f(1) by (intro exI [of _ s'] exI [of _ w']) simp
qed

text \<open>
  C4: For every list of subscribe and unsubscribe requests with well-formed keys, followed by a
  disconnect, the loop of a session thread ends, and the bytes on the response pipe are the
  responses of an abstract specification: a subscription is answered by whether the key exists, an
  unsubscription by whether the client was subscribed. Afterwards the client has left no slot, no
  object and no subscription, and its descriptors are closed.
\<close>

theorem session_transcript:
  assumes "session_ready s w p c" and "kvs_table s = Table ht"
    and "w_in w (fdReq c) = session_input rs @ rest" and "\<forall>r \<in> set rs. proper_key (request_key r)"
    and "length rs < fuel"
  shows "\<exists>s' w'. session_loop fuel False (Some p) False s w = Some (Inr (s', w')) \<and>
    sessions_ok s' \<and> gone p c s s' \<and>
    w_out w' (fdResp c) = w_out w (fdResp c) @
      responses (\<lambda>k. kvs_map ht k \<noteq> None) (client_subs (fdNotif c) ht) rs \<and>
    w_in w' (fdReq c) = rest \<and>
    set (w_open w') = set (w_open w) - {fdReq c, fdNotif c, fdResp c}"
  using assms by (rule session_run)
subsection \<open>A restart meets a session\<close>

text \<open>
  C36: The restart frees the objects of all connected clients while the session threads keep their
  pointers: a thread that comes back to its loop after the restart follows a pointer to a freed
  object, in every state of the flag.
\<close>

theorem restart_frees_client_in_use:
  assumes "sessions_ok s" and "calm w" and "live s p c"
  shows "\<exists>s' w'. clean_all_clients s w = Inr (s', w') \<and>
    session_loop (Suc fuel) disconnectControl (Some p) readingError s' w' = Some (Inl UseAfterFree)"
proof -
  obtain s' w' where "clean_all_clients s w = Inr (s', w')"
    "\<forall>p. Some p \<in> set (connectedClients s) \<longrightarrow> client_at s' p = None"
    using clean_all_clients_run [OF assms(1,2)] by blast
  then show ?thesis using assms(3) by (simp add: live_def session_turn_def deref_client_def)
qed

theorem restart_frees_client_in_use_witness:
  "\<exists>s' w'. clean_all_clients sample_server session_world = Inr (s', w') \<and>
    session_loop 1 True (Some 0) False s' w' = Some (Inl UseAfterFree)"
  using restart_frees_client_in_use [of sample_server session_world 0 sample_client 0 True False]
  by simp

subsection \<open>Instances\<close>

theorem connect_message_roundtrip_witness:
  "host_read_connect 0 (quiet_world\<lparr>w_in := (\<lambda>_. connect_message ''/tmp/req1'' ''/tmp/resp1'' ''/tmp/notif1'')\<rparr>) =
    Inl OutOfBounds"
  using connect_message_roundtrip [of 0
      "quiet_world\<lparr>w_in := (\<lambda>_. connect_message ''/tmp/req1'' ''/tmp/resp1'' ''/tmp/notif1'')\<rparr>"
      "''/tmp/req1''" "''/tmp/resp1''" "''/tmp/notif1''" "[]"]
  by (simp add: MAX_PIPE_PATH_LENGTH_def)

theorem session_transcript_witness:
  "\<exists>s' w'. session_loop 4 False (Some 0) False sample_server (session_world\<lparr>w_in := (\<lambda>_.
      session_input [Subscribe ''b'', Unsubscribe ''a'', Subscribe ''a''])\<rparr>) = Some (Inr (s', w')) \<and>
    sessions_ok s' \<and> gone 0 sample_client sample_server s' \<and> w_out w' 6 = ''30403120''"
proof -
  let ?rs = "[Subscribe ''b'', Unsubscribe ''a'', Subscribe ''a'']"
  let ?w = "session_world\<lparr>w_in := (\<lambda>_. session_input ?rs)\<rparr>"
  have ready: "session_ready sample_server ?w 0 sample_client"
    by (simp add: session_ready_def calm_def healthy_def session_world_def quiet_world_def)
  have keys: "\<forall>r \<in> set ?rs. proper_key (request_key r)" by (simp add: proper_key_def MAX_STRING_SIZE_def)
  have len: "length ?rs < 4" by simp
  have input: "w_in ?w (fdReq sample_client) = session_input ?rs @ []" by simp
  obtain s' w' where run: "session_loop 4 False (Some 0) False sample_server ?w = Some (Inr (s', w'))"
    "sessions_ok s'" "gone 0 sample_client sample_server s'" and
    out: "w_out w' (fdResp sample_client) = w_out ?w (fdResp sample_client) @
      responses (\<lambda>k. kvs_map sample_table k \<noteq> None) (client_subs (fdNotif sample_client) sample_table) ?rs"
    using session_transcript [OF ready sample_server_facts(1) input keys len]
    by (elim exE conjE) (rule that)
  have "w_out w' 6 = ''30403120''"
    using out by (simp add: client_subs_def protocol_codes)
  then show ?thesis using run by blast
qed

end
