(* ===== verification/HostQueue.thy ===== *)
theory HostQueue
  imports Requests
begin

section \<open>The host thread and the queue of connections (server/main.c)\<close>

text \<open>
  The host thread reads connect messages and passes them to the session threads through a ring of
  two pointers guarded by two semaphores; \<open>SIGUSR1\<close> makes it drop all clients. The threads
  interleave, so this part is a step relation. An entry of the ring is a null pointer at the start,
  points to a message after \<open>ring_put\<close>, and dangles after \<open>ring_take\<close> has freed the message.
\<close>

type_synonym paths = "string \<times> string \<times> string"

datatype entry = NoEntry | Entry paths | FreedEntry

record ring =
  clientsBuffer :: "entry list"
  in_index :: nat
  out_index :: nat

definition advance :: "nat \<Rightarrow> nat" where
  "advance i = (if i + 1 = MAX_SESSION_COUNT then 0 else i + 1)"

definition ring_put :: "paths \<Rightarrow> ring \<Rightarrow> ring" where
  "ring_put m r =
     r\<lparr>clientsBuffer := (clientsBuffer r)[in_index r := Entry m], in_index := advance (in_index r)\<rparr>"

definition ring_take :: "ring \<Rightarrow> (paths \<times> ring) res" where
  "ring_take r =
     (case clientsBuffer r ! out_index r of
        NoEntry \<Rightarrow> Inl NullDeref
      | FreedEntry \<Rightarrow> Inl UseAfterFree
      | Entry m \<Rightarrow> Inr (m, r\<lparr>clientsBuffer := (clientsBuffer r)[out_index r := FreedEntry],
                          out_index := advance (out_index r)\<rparr>))"

definition ring_init :: ring where
  "ring_init = \<lparr>clientsBuffer = replicate MAX_SESSION_COUNT NoEntry, in_index = 0, out_index = 0\<rparr>"

subsection \<open>The contract of a bounded queue\<close>

text \<open>
  \<open>contents q ms\<close>: the queue holds the messages \<open>ms\<close>, the oldest first. The laws say when adding and
  taking are defined; that it is first in, first out follows for every sequence of operations.
\<close>

datatype 'a queue_op = Put 'a | Take

locale bounded_queue =
  fixes put :: "'a \<Rightarrow> 'q \<Rightarrow> 'q"
    and get :: "'q \<Rightarrow> ('a \<times> 'q) res"
    and contents :: "'q \<Rightarrow> 'a list \<Rightarrow> bool"
    and capacity :: nat
  assumes put_law: "contents q ms \<Longrightarrow> length ms < capacity \<Longrightarrow> contents (put m q) (ms @ [m])"
    and get_law: "contents q (m # ms) \<Longrightarrow> \<exists>q'. get q = Inr (m, q') \<and> contents q' ms"
begin

fun run :: "'a queue_op list \<Rightarrow> 'q \<Rightarrow> ('a list \<times> 'q) res" where
  "run [] q = Inr ([], q)"
| "run (Put m # ops) q = run ops (put m q)"
| "run (Take # ops) q =
     bindE (get q) (\<lambda>(m, q1). bindE (run ops q1) (\<lambda>(out, q2). Inr (m # out, q2)))"

text \<open>A sequence is allowed from \<open>n\<close> messages when it never takes from an empty or fills a full queue.\<close>

fun allowed :: "nat \<Rightarrow> 'a queue_op list \<Rightarrow> bool" where
  "allowed n [] = True"
| "allowed n (Put m # ops) \<longleftrightarrow> n < capacity \<and> allowed (Suc n) ops"
| "allowed n (Take # ops) \<longleftrightarrow> 0 < n \<and> allowed (n - 1) ops"

fun puts :: "'a queue_op list \<Rightarrow> 'a list" where
  "puts [] = []"
| "puts (Put m # ops) = m # puts ops"
| "puts (Take # ops) = puts ops"

lemma run_fifo:
  assumes "contents q ms" and "allowed (length ms) ops"
  shows "\<exists>out q' ms'. run ops q = Inr (out, q') \<and> contents q' ms' \<and> ms @ puts ops = out @ ms'"
  using assms
proof (induction ops arbitrary: q ms)
  case Nil
  then show ?case by auto
next
  case (Cons op ops)
  show ?case
  proof (cases op)
    case (Put m)
    then have "contents (put m q) (ms @ [m])" "allowed (length (ms @ [m])) ops"
      using Cons.prems put_law by simp_all
    from Cons.IH [OF this] show ?thesis using Put by simp
  next
    case Take
    then obtain m ms1 where ms: "ms = m # ms1" using Cons.prems(2) by (cases ms) auto
    then obtain q1 where q1: "get q = Inr (m, q1)" "contents q1 ms1"
      using get_law Cons.prems(1) by blast
    have "allowed (length ms1) ops" using Cons.prems(2) Take ms by simp
    from Cons.IH [OF q1(2) this] show ?thesis using Take ms q1(1) by auto
  qed
qed

end

subsection \<open>The ring keeps the contract\<close>

definition ring_holds :: "ring \<Rightarrow> paths list \<Rightarrow> bool" where
  "ring_holds r ms \<longleftrightarrow> length (clientsBuffer r) = MAX_SESSION_COUNT \<and>
     in_index r < MAX_SESSION_COUNT \<and> out_index r < MAX_SESSION_COUNT \<and>
     length ms \<le> MAX_SESSION_COUNT \<and> in_index r = (out_index r + length ms) mod MAX_SESSION_COUNT \<and>
     (\<forall>i < length ms. clientsBuffer r ! ((out_index r + i) mod MAX_SESSION_COUNT) = Entry (ms ! i))"

lemma advance_mod: "i < MAX_SESSION_COUNT \<Longrightarrow> advance i = (i + 1) mod MAX_SESSION_COUNT"
  by (auto simp: advance_def MAX_SESSION_COUNT_def)

lemma ring_holds_init: "ring_holds ring_init []"
  by (simp add: ring_holds_def ring_init_def MAX_SESSION_COUNT_def)

lemma ring_index_cases: "i < MAX_SESSION_COUNT \<longleftrightarrow> i = 0 \<or> i = Suc 0"
  by (auto simp: MAX_SESSION_COUNT_def)

lemma three_mod_two: "Suc (Suc (Suc 0)) mod Suc (Suc 0) = Suc 0" "\<not> Suc (Suc 0) dvd Suc (Suc (Suc 0))"
  by (simp_all add: mod_Suc dvd_eq_mod_eq_0)

lemma ring_put_law:
  assumes "ring_holds r ms" and "length ms < MAX_SESSION_COUNT"
  shows "ring_holds (ring_put m r) (ms @ [m])"
proof -
  obtain a b where buf: "clientsBuffer r = [a, b]"
    using assms(1) by (auto simp: ring_holds_def MAX_SESSION_COUNT_def numeral_2_eq_2 length_Suc_conv)
  have o: "out_index r = 0 \<or> out_index r = Suc 0"
    using assms(1) ring_index_cases by (auto simp: ring_holds_def)
  have "ms = [] \<or> (\<exists>x. ms = [x])"
    using assms(2) by (cases ms) (auto simp: MAX_SESSION_COUNT_def)
  then show ?thesis
    using assms(1) o buf
    by (auto simp: ring_holds_def ring_put_def advance_def MAX_SESSION_COUNT_def numeral_2_eq_2
        less_Suc_eq three_mod_two)
qed

lemma ring_take_law:
  assumes "ring_holds r (m # ms)"
  shows "\<exists>r'. ring_take r = Inr (m, r') \<and> ring_holds r' ms"
proof -
  obtain a b where buf: "clientsBuffer r = [a, b]"
    using assms(1) by (auto simp: ring_holds_def MAX_SESSION_COUNT_def numeral_2_eq_2 length_Suc_conv)
  have o: "out_index r = 0 \<or> out_index r = Suc 0"
    using assms(1) ring_index_cases by (auto simp: ring_holds_def)
  have "ms = [] \<or> (\<exists>x. ms = [x])"
    using assms by (cases ms) (auto simp: ring_holds_def MAX_SESSION_COUNT_def)
  then show ?thesis
    using assms(1) o buf
    by (auto simp: ring_holds_def ring_take_def advance_def MAX_SESSION_COUNT_def numeral_2_eq_2
        less_Suc_eq three_mod_two)
qed

interpretation ring: bounded_queue ring_put ring_take ring_holds MAX_SESSION_COUNT
  by unfold_locales (simp_all add: ring_put_law ring_take_law)
subsection \<open>Threads, semaphores and the signal\<close>

text \<open>
  The places of the host thread: before \<open>sem_wait\<close>, between it and the test of \<open>restartClients\<close>, and
  in \<open>read_connect_message\<close>. A session thread is idle, serves a client, or has crashed.
\<close>

datatype host_place = AtWait | Acquired | Reading

datatype worker = Idle | Serving paths | Crashed

record host =
  h_ring :: ring
  readSem :: nat
  writeSem :: nat
  disconnectControl :: bool
  restartClients :: bool
  h_place :: host_place
  workers :: "worker list"

text \<open>
  The events. \<open>Signal\<close> carries whether the previous one was still pending; \<open>SignalBlocked\<close> is a signal
  that finds the host thread blocked in \<open>sem_wait\<close>, which then returns -1 without taking a token, and
  the source does not test its result.
\<close>

datatype event =
  Acquire | Check | Restart | Accept paths | Reject | NoMemory | TakeBy nat paths | Crash nat fault |
  Done nat | Signal bool | SignalBlocked

definition handle_SIGUSR1 :: "host \<Rightarrow> host" where
  "handle_SIGUSR1 s =
     s\<lparr>disconnectControl := True, restartClients := True, writeSem := writeSem s + 1\<rparr>"

inductive host_step :: "host \<Rightarrow> event \<Rightarrow> host \<Rightarrow> bool" where
  acquire: "h_place s = AtWait \<Longrightarrow> 0 < writeSem s \<Longrightarrow>
    host_step s Acquire (s\<lparr>writeSem := writeSem s - 1, h_place := Acquired\<rparr>)"
| check: "h_place s = Acquired \<Longrightarrow> \<not> restartClients s \<Longrightarrow>
    host_step s Check (s\<lparr>h_place := Reading\<rparr>)"
| restart: "h_place s = Acquired \<Longrightarrow> restartClients s \<Longrightarrow>
    host_step s Restart (s\<lparr>restartClients := False, h_place := AtWait\<rparr>)"
| accept: "h_place s = Reading \<Longrightarrow>
    host_step s (Accept m) (s\<lparr>disconnectControl := False, h_ring := ring_put m (h_ring s),
      readSem := readSem s + 1, h_place := AtWait\<rparr>)"
| reject: "h_place s = Reading \<Longrightarrow>
    host_step s Reject (s\<lparr>writeSem := writeSem s + 1, h_place := AtWait\<rparr>)"
| no_memory: "h_place s = Reading \<Longrightarrow>
    host_step s NoMemory (s\<lparr>disconnectControl := False, writeSem := writeSem s + 1, h_place := AtWait\<rparr>)"
| take: "i < length (workers s) \<Longrightarrow> workers s ! i = Idle \<Longrightarrow> 0 < readSem s \<Longrightarrow>
    ring_take (h_ring s) = Inr (m, r) \<Longrightarrow>
    host_step s (TakeBy i m) (s\<lparr>h_ring := r, readSem := readSem s - 1, writeSem := writeSem s + 1,
      workers := (workers s)[i := Serving m]\<rparr>)"
| crash: "i < length (workers s) \<Longrightarrow> workers s ! i = Idle \<Longrightarrow> 0 < readSem s \<Longrightarrow>
    ring_take (h_ring s) = Inl e \<Longrightarrow>
    host_step s (Crash i e) (s\<lparr>readSem := readSem s - 1, workers := (workers s)[i := Crashed]\<rparr>)"
| finish: "i < length (workers s) \<Longrightarrow> workers s ! i = Serving m \<Longrightarrow>
    host_step s (Done i) (s\<lparr>workers := (workers s)[i := Idle]\<rparr>)"
| signal: "\<not> (h_place s = AtWait \<and> writeSem s = 0) \<Longrightarrow> pending = restartClients s \<Longrightarrow>
    host_step s (Signal pending) (handle_SIGUSR1 s)"
| signal_blocked: "h_place s = AtWait \<Longrightarrow> writeSem s = 0 \<Longrightarrow>
    host_step s SignalBlocked ((handle_SIGUSR1 s)\<lparr>h_place := Acquired\<rparr>)"

inductive_cases host_stepE: "host_step s e s'"

inductive host_run :: "host \<Rightarrow> event list \<Rightarrow> host \<Rightarrow> bool" where
  run_nil: "host_run s [] s"
| run_step: "host_step s e s1 \<Longrightarrow> host_run s1 evs s2 \<Longrightarrow> host_run s (e # evs) s2"

definition host_start :: host where
  "host_start =
     \<lparr>h_ring = ring_init, readSem = 0, writeSem = MAX_SESSION_COUNT, disconnectControl = False,
      restartClients = False, h_place = AtWait, workers = replicate MAX_SESSION_COUNT Idle\<rparr>"

text \<open>The messages accepted and the messages taken, in order.\<close>

fun accepted :: "event list \<Rightarrow> paths list" where
  "accepted [] = []"
| "accepted (Accept m # evs) = m # accepted evs"
| "accepted (_ # evs) = accepted evs"

fun taken :: "event list \<Rightarrow> paths list" where
  "taken [] = []"
| "taken (TakeBy i m # evs) = m # taken evs"
| "taken (_ # evs) = taken evs"

text \<open>Signals one at a time: none while another is pending, none that interrupts \<open>sem_wait\<close>.\<close>

definition calm_event :: "event \<Rightarrow> bool" where
  "calm_event e \<longleftrightarrow> e \<noteq> SignalBlocked \<and> e \<noteq> Signal True"

text \<open>
  The token invariant: every token of the two semaphores is accounted for, a pending restart being
  worth one more.
\<close>

definition host_inv :: "host \<Rightarrow> paths list \<Rightarrow> bool" where
  "host_inv s q \<longleftrightarrow> ring_holds (h_ring s) q \<and> readSem s = length q \<and>
     readSem s + writeSem s + (if h_place s = AtWait then 0 else 1) =
       MAX_SESSION_COUNT + (if restartClients s then 1 else 0) \<and>
     (h_place s = Reading \<longrightarrow> readSem s < MAX_SESSION_COUNT)"

lemma host_inv_start: "host_inv host_start []"
  by (simp add: host_inv_def host_start_def ring_holds_init)

lemma host_step_inv:
  assumes "host_step s e s'" and "host_inv s q" and "calm_event e"
  shows "\<exists>q'. host_inv s' q' \<and> q @ accepted [e] = taken [e] @ q' \<and> (\<forall>i f. e \<noteq> Crash i f)"
  using assms
proof (induction rule: host_step.induct)
  case (accept s m)
  have "ring_holds (ring_put m (h_ring s)) (q @ [m])"
    using accept by (intro ring.put_law) (auto simp: host_inv_def)
  then show ?case using accept by (auto simp: host_inv_def)
next
  case (take i s m r)
  then obtain m' q1 where q: "q = m' # q1" by (cases q) (auto simp: host_inv_def)
  then have "ring_holds (h_ring s) (m' # q1)" using take.prems(1) by (simp add: host_inv_def)
  from ring_take_law [OF this] obtain r'
    where "ring_take (h_ring s) = Inr (m', r')" "ring_holds r' q1" by blast
  then show ?case using take q by (auto simp: host_inv_def)
next
  case (crash i s e)
  then obtain m' q1 where "q = m' # q1" by (cases q) (auto simp: host_inv_def)
  then have "ring_holds (h_ring s) (m' # q1)" using crash.prems(1) by (simp add: host_inv_def)
  from ring_take_law [OF this] show ?case using crash.hyps by auto
qed (auto simp: host_inv_def calm_event_def handle_SIGUSR1_def)

lemma accepted_Cons: "accepted (e # evs) = accepted [e] @ accepted evs"
  by (cases e) simp_all

lemma taken_Cons: "taken (e # evs) = taken [e] @ taken evs"
  by (cases e) simp_all

lemma host_run_inv:
  assumes "host_run s evs s'" and "host_inv s q" and "\<forall>e \<in> set evs. calm_event e"
  shows "\<exists>q'. host_inv s' q' \<and> q @ accepted evs = taken evs @ q' \<and> (\<forall>i f. Crash i f \<notin> set evs)"
  using assms
proof (induction arbitrary: q rule: host_run.induct)
  case (run_nil s)
  then show ?case by auto
next
  case (run_step s e s1 evs s2)
  obtain q1 where 1: "host_inv s1 q1" "q @ accepted [e] = taken [e] @ q1" "\<forall>i f. e \<noteq> Crash i f"
    using host_step_inv [OF run_step.hyps(1) run_step.prems(1)] run_step.prems(2) by auto
  obtain q2 where 2: "host_inv s2 q2" "q1 @ accepted evs = taken evs @ q2" "\<forall>i f. Crash i f \<notin> set evs"
    using run_step.IH [OF 1(1)] run_step.prems(2) by auto
  have "q @ accepted (e # evs) = taken (e # evs) @ q2"
    unfolding accepted_Cons [of e evs] taken_Cons [of e evs] using 1(2) 2(2)
    by (metis append.assoc)
  then show ?case using 1(3) 2(1,3) by auto
qed

text \<open>
  C21: However the host thread and the session threads interleave, and with restart signals that
  neither interrupt the wait of the host thread nor overlap, the session threads get the accepted
  connect messages in the order of acceptance, the ring holds the others, the reading semaphore
  counts them, and no thread reads an empty or freed entry.
\<close>

theorem connections_fifo:
  assumes "host_run host_start evs s" and "\<forall>e \<in> set evs. calm_event e"
  shows "\<exists>waiting. accepted evs = taken evs @ waiting \<and> readSem s = length waiting \<and>
    ring_holds (h_ring s) waiting \<and> readSem s \<le> MAX_SESSION_COUNT \<and> (\<forall>i f. Crash i f \<notin> set evs)"
  using host_run_inv [OF assms(1) host_inv_start assms(2)]
  by (auto simp: host_inv_def ring_holds_def)

text \<open>
  C35: One restart signal that interrupts the wait of the host thread for a free entry adds a
  token that no entry stands for: a run of the host thread and two session threads overwrites a
  message that waits in the ring and then lets a session thread read a freed one.
\<close>

theorem interrupted_wait_reuses_freed_message:
  "\<exists>evs s. host_run host_start evs s \<and>
    filter (\<lambda>e. \<not> calm_event e) evs = [SignalBlocked] \<and> (\<forall>b. Signal b \<notin> set evs) \<and>
    Crash 0 UseAfterFree \<in> set evs"
proof -
  let ?m = "\<lambda>c. ([c], [c], [c]) :: paths"
  let ?evs = "[Acquire, Check, Accept (?m CHR ''a''), Acquire, Check, Accept (?m CHR ''b''),
    SignalBlocked, Restart, Acquire, Check, Accept (?m CHR ''c''),
    TakeBy 0 (?m CHR ''c''), TakeBy 1 (?m CHR ''b''), Done 0, Crash 0 UseAfterFree]"
  have "\<exists>s. host_run host_start ?evs s"
    by (intro exI; (rule run_step, rule host_step.intros; simp add: host_start_def ring_init_def
        ring_put_def ring_take_def advance_def MAX_SESSION_COUNT_def handle_SIGUSR1_def numeral_2_eq_2)+;
        rule run_nil)
  then show ?thesis by (intro exI [of _ ?evs]) (simp add: calm_event_def)
qed
theorem connections_fifo_witness:
  "\<exists>s. host_run host_start [Acquire, Check, Accept (''a'', ''b'', ''c''), Acquire, Check,
      Accept (''d'', ''e'', ''f''), TakeBy 1 (''a'', ''b'', ''c''), Signal False] s \<and>
    ring_holds (h_ring s) [(''d'', ''e'', ''f'')]"
proof -
  let ?evs = "[Acquire, Check, Accept (''a'', ''b'', ''c''), Acquire, Check,
      Accept (''d'', ''e'', ''f''), TakeBy 1 (''a'', ''b'', ''c''), Signal False]"
  have "\<exists>s. host_run host_start ?evs s"
    by (intro exI; (rule run_step, rule host_step.intros; simp add: host_start_def ring_init_def
        ring_put_def ring_take_def advance_def MAX_SESSION_COUNT_def handle_SIGUSR1_def numeral_2_eq_2)+;
        rule run_nil)
  then obtain s where run: "host_run host_start ?evs s" ..
  moreover have "\<forall>e \<in> set ?evs. calm_event e" by (simp add: calm_event_def)
  ultimately obtain waiting where "accepted ?evs = taken ?evs @ waiting" "ring_holds (h_ring s) waiting"
    using connections_fifo [of ?evs s] by blast
  then show ?thesis using run by auto
qed

end
