(* ===== verification/ClientParser.thy ===== *)
theory ClientParser
  imports JobParser
begin

section \<open>The parser of client commands (client/parser.c)\<close>

text \<open>
  The client has its own copy of the parser. Here its buffers are modelled as the arrays they are:
  a buffer of characters that is updated by index, cells of a number buffer that were never written,
  and the library functions that read them up to a terminator. The lemmas show that the copy agrees
  with the parser of the job files, whose model keeps only the text, so the facts about that parser
  hold for the commands of a client as well.
\<close>

datatype client_command =
  CMD_DISCONNECT | CMD_SUBSCRIBE | CMD_UNSUBSCRIBE | CMD_DELAY | CMD_EMPTY | CMD_INVALID | EOC

subsection \<open>Words and numbers\<close>

text \<open>
  \<open>read_string\<close> with its buffer and index. Storing behind the end of the buffer is a fault.
\<close>

fun client_read_string_from :: "string \<Rightarrow> nat \<Rightarrow> string \<Rightarrow> (int \<times> string \<times> string) res" where
  "client_read_string_from [] i buffer =
     (if i < length buffer then Inr (- 1, buffer, []) else Inl OutOfBounds)"
| "client_read_string_from (ch # inp) i buffer =
     (if i < length buffer then
        (if ch = CHR '' '' then Inr (- 1, buffer, inp)
         else if ch = CHR '','' then Inr (0, buffer[i := NUL], inp)
         else if ch = CHR '')'' then Inr (1, buffer[i := NUL], inp)
         else if ch = CHR '']'' then Inr (2, buffer[i := NUL], inp)
         else client_read_string_from inp (i + 1) (buffer[i := ch]))
      else Inl OutOfBounds)"

definition client_read_string :: "string \<Rightarrow> string \<Rightarrow> (int \<times> string \<times> string) res" where
  "client_read_string buffer inp = client_read_string_from inp 0 buffer"

text \<open>
  \<open>strtoul\<close> on a buffer that starts with digits: it reads cells up to the first that is no digit.
\<close>

fun strtoul_digits :: "char option list \<Rightarrow> string res" where
  "strtoul_digits [] = Inl OutOfBounds"
| "strtoul_digits (None # cells) = Inl Uninitialised"
| "strtoul_digits (Some c # cells) =
     (if is_digit c then bindE (strtoul_digits cells) (\<lambda>ds. Inr (c # ds)) else Inr [])"

definition number_of ::
  "char option list \<Rightarrow> char \<Rightarrow> string \<Rightarrow> (int \<times> 32 word option \<times> char \<times> string) res" where
  "number_of buf next_char inp =
     bindE (strtoul_digits buf) (\<lambda>ds.
       let ul = decimal ds in
       if ul > UINT_MAX then Inr (1, None, next_char, inp)
       else Inr (0, Some (word_of_nat ul), next_char, inp))"

fun client_read_uint_from ::
  "string \<Rightarrow> nat \<Rightarrow> char option list \<Rightarrow> (int \<times> 32 word option \<times> char \<times> string) res" where
  "client_read_uint_from [] i buf = number_of buf NUL []"
| "client_read_uint_from (ch # inp) i buf =
     (if i \<ge> length buf then Inl OutOfBounds
      else if ch > CHR ''9'' \<or> ch < CHR ''0'' then number_of (buf[i := Some NUL]) ch inp
      else client_read_uint_from inp (i + 1) (buf[i := Some ch]))"

definition client_read_uint :: "string \<Rightarrow> (int \<times> 32 word option \<times> char \<times> string) res" where
  "client_read_uint inp = client_read_uint_from inp 0 (replicate 16 None)"

fun client_cleanup :: "string \<Rightarrow> string" where
  "client_cleanup [] = []"
| "client_cleanup (ch # inp) = (if ch \<noteq> newline then client_cleanup inp else inp)"

subsection \<open>The command word and its arguments\<close>

definition client_get_next :: "string \<Rightarrow> client_command \<times> string" where
  "client_get_next inp =
     (case file_read 1 inp of
        (b0, inp1) \<Rightarrow>
          if length b0 \<noteq> 1 then (EOC, inp1)
          else if b0 = ''S'' then
            (case file_read 9 inp1 of (b, r) \<Rightarrow>
               if length b \<noteq> 9 \<or> b0 @ b \<noteq> ''SUBSCRIBE '' then (CMD_INVALID, client_cleanup r)
               else (CMD_SUBSCRIBE, r))
          else if b0 = ''U'' then
            (case file_read 11 inp1 of (b, r) \<Rightarrow>
               if length b \<noteq> 11 \<or> b0 @ b \<noteq> ''UNSUBSCRIBE '' then (CMD_INVALID, client_cleanup r)
               else (CMD_UNSUBSCRIBE, r))
          else if b0 = ''D'' then
            (case file_read 5 inp1 of (b, r) \<Rightarrow>
               if length b \<noteq> 5 \<or> b0 @ b \<noteq> ''DELAY '' then
                 (case file_read 4 r of (b', r') \<Rightarrow>
                    if length b' \<noteq> 4 \<or> b0 @ b @ b' \<noteq> ''DISCONNECT'' then (CMD_INVALID, client_cleanup r')
                    else (case file_read 1 r' of (b'', r'') \<Rightarrow>
                      if length b'' \<noteq> 0 \<and> b'' \<noteq> [newline] then (CMD_INVALID, client_cleanup r'')
                      else (CMD_DISCONNECT, r'')))
               else (CMD_DELAY, r))
          else if b0 = ''#'' then (CMD_EMPTY, client_cleanup inp1)
          else if b0 = [newline] then (CMD_EMPTY, inp1)
          else (CMD_INVALID, client_cleanup inp1))"

text \<open>
  The loop of \<open>parse_list\<close>, with the word buffer and the keys stored so far: the last return value
  of \<open>read_string\<close> with the keys, or \<open>None\<close> for the early return of 0. \<open>strcpy\<close> copies the word up to
  its terminator.
\<close>

fun list_loop ::
  "nat \<Rightarrow> string \<Rightarrow> int \<Rightarrow> string list \<Rightarrow> string \<Rightarrow> ((int \<times> string list) option \<times> string) res" where
  "list_loop 0 key output keys inp = Inr (Some (output, keys), inp)"
| "list_loop (Suc left) key output keys inp =
     bindE (client_read_string key inp) (\<lambda>(output, key, inp1).
       if output < 0 \<or> output = 1 then Inr (None, client_cleanup inp1)
       else if output = 2 then Inr (Some (output, keys @ [c_str key]), inp1)
       else list_loop left key output (keys @ [c_str key]) inp1)"

definition parse_list :: "nat \<Rightarrow> string \<Rightarrow> string \<Rightarrow> (string list \<times> string) res" where
  "parse_list max_keys key inp =
     (case file_read 1 inp of (b, inp1) \<Rightarrow>
        if b \<noteq> ''['' then Inr ([], client_cleanup inp1)
        else bindE (list_loop max_keys key 2 [] inp1) (\<lambda>(res, inp2).
          (case res of
             None \<Rightarrow> Inr ([], inp2)
           | Some (output, keys) \<Rightarrow>
               if length keys = max_keys \<and> output \<noteq> 2 then Inr ([], client_cleanup inp2)
               else (case file_read 1 inp2 of (b', inp3) \<Rightarrow>
                 if b' \<noteq> [newline] \<and> b' \<noteq> [NUL] then Inr ([], client_cleanup inp3)
                 else Inr (keys, inp3)))))"

definition parse_delay :: "string \<Rightarrow> (int \<times> 32 word option \<times> string) res" where
  "parse_delay inp =
     bindE (client_read_uint inp) (\<lambda>(r, delay, ch, inp1).
       if r \<noteq> 0 then Inr (- 1, delay, client_cleanup inp1) else Inr (0, delay, inp1))"
subsection \<open>Agreement with the parser of job files\<close>

lemma client_cleanup_eq: "client_cleanup inp = cleanup inp"
  by (induction inp) simp_all

text \<open>The text in a buffer after its cell \<open>i\<close> was set to the terminator.\<close>

lemma c_str_terminate:
  assumes "i < length buffer"
  shows "c_str (buffer[i := NUL]) = c_str (take i buffer)"
proof -
  have "buffer[i := NUL] = take i buffer @ NUL # drop (Suc i) buffer"
    using assms by (rule upd_conv_take_nth_drop)
  then show ?thesis by (simp add: c_str_def takeWhile_tail)
qed

lemma take_store: "i < length buffer \<Longrightarrow> take (Suc i) (buffer[i := x]) = take i buffer @ [x]"
  by (simp add: take_Suc_conv_app_nth)

definition same_word ::
  "nat \<Rightarrow> (int \<times> string \<times> string) res \<Rightarrow> (int \<times> string \<times> string) res \<Rightarrow> bool" where
  "same_word n arr txt \<longleftrightarrow>
     (case txt of
        Inl e \<Rightarrow> arr = Inl e
      | Inr (r, s, rest) \<Rightarrow> \<exists>buffer. arr = Inr (r, buffer, rest) \<and> length buffer = n \<and>
          (0 \<le> r \<longrightarrow> c_str buffer = c_str s))"

lemma client_read_string_same:
  assumes "i \<le> length buffer"
  shows "same_word (length buffer) (client_read_string_from inp i buffer)
    (read_string_from (length buffer - i) (take i buffer) inp)"
  using assms
proof (induction inp i buffer rule: client_read_string_from.induct)
  case (1 i buffer)
  then show ?case by (cases "length buffer - i") (auto simp: same_word_def)
next
  case (2 ch inp i buffer)
  show ?case
  proof (cases "length buffer - i")
    case 0
    with 2 show ?thesis by (simp add: same_word_def)
  next
    case (Suc left)
    then have i: "i < length buffer" "length (buffer[i := ch]) - Suc i = left" by simp_all
    show ?thesis
    proof (cases "ch \<in> {CHR '' '', CHR '','', CHR '')'', CHR '']''}")
      case True
      then show ?thesis using i(1) Suc by (auto simp: same_word_def c_str_terminate)
    next
      case False
      then have "same_word (length (buffer[i := ch])) (client_read_string_from inp (i + 1) (buffer[i := ch]))
          (read_string_from (length (buffer[i := ch]) - (i + 1)) (take (i + 1) (buffer[i := ch])) inp)"
        by (intro "2.IH") (use i(1) in auto)
      then show ?thesis using False i Suc by (simp add: take_store)
    qed
  qed
qed

lemma client_read_string_eq:
  "same_word (length buffer) (client_read_string buffer inp) (read_string (length buffer) inp)"
  using client_read_string_same [of 0 buffer inp] by (simp add: client_read_string_def read_string_def)

text \<open>The loop over the words, against the loop of the job parser: the same keys and the same rest.\<close>

lemma list_loop_same:
  assumes "length key = 40"
  shows "case key_args_loop left keys inp of
      Inl e \<Rightarrow> list_loop left key r0 keys inp = Inl e
    | Inr (None, rest) \<Rightarrow> list_loop left key r0 keys inp = Inr (None, rest)
    | Inr (Some ks, rest) \<Rightarrow> \<exists>out. list_loop left key r0 keys inp = Inr (Some (out, ks), rest) \<and>
        (length ks < length keys + left \<longrightarrow> out = 2)"
  using assms
proof (induction left arbitrary: key r0 keys inp)
  case 0
  then show ?case by simp
next
  case (Suc left)
  have same: "same_word 40 (client_read_string key inp) (read_string 40 inp)"
    using client_read_string_eq [of key inp] Suc.prems by simp
  show ?case
  proof (cases "read_string 40 inp")
    case (Inl e)
    then show ?thesis using same by (simp add: same_word_def)
  next
    case (Inr w)
    then obtain r s rest where w: "read_string 40 inp = Inr (r, s, rest)" by (cases w) auto
    then obtain buf where buf: "client_read_string key inp = Inr (r, buf, rest)" "length buf = 40"
      "0 \<le> r \<longrightarrow> c_str buf = c_str s"
      using same by (auto simp: same_word_def)
    show ?thesis
    proof (cases "r < 0 \<or> r = 1 \<or> r = 2")
      case True
      then show ?thesis using w buf by (auto simp: client_cleanup_eq)
    next
      case False
      have "case key_args_loop left (keys @ [c_str s]) rest of
          Inl e \<Rightarrow> list_loop left buf r (keys @ [c_str s]) rest = Inl e
        | Inr (None, rest') \<Rightarrow> list_loop left buf r (keys @ [c_str s]) rest = Inr (None, rest')
        | Inr (Some ks, rest') \<Rightarrow> \<exists>out. list_loop left buf r (keys @ [c_str s]) rest =
            Inr (Some (out, ks), rest') \<and> (length ks < length (keys @ [c_str s]) + left \<longrightarrow> out = 2)"
        by (rule Suc.IH [OF buf(2)])
      then show ?thesis
        using False w buf by (simp split: sum.splits prod.splits option.splits)
    qed
  qed
qed
text \<open>
  C27: The list parser of the client, modelled with its buffer updated by index, returns what the
  one of the server, modelled on the text, returns: the same fault, the same keys or the same
  rejection, and the same unread rest. The only exception is a list of exactly the limit of keys
  that is followed by a line break or a zero byte, which the client accepts and the server
  rejects.
\<close>

theorem parse_list_agrees:
  assumes "length key = 40"
  shows "parse_list limit key inp = parse_read_delete limit inp \<or>
    (\<exists>ks rest. take 1 inp = ''['' \<and> key_args_loop limit [] (drop 1 inp) = Inr (Some ks, rest) \<and>
      length ks = limit \<and> take 1 rest \<in> {[newline], [NUL]} \<and>
      parse_list limit key inp = Inr (ks, drop 1 rest) \<and> parse_read_delete limit inp = Inr ([], cleanup rest))"
proof (cases "take 1 inp = ''[''")
  case False
  then show ?thesis by (simp add: parse_list_def parse_read_delete_def client_cleanup_eq)
next
  case True
  note same = list_loop_same [OF assms, where left = limit and keys = "[]" and inp = "drop 1 inp" and ?r0.0 = 2]
  show ?thesis
  proof (cases "key_args_loop limit [] (drop 1 inp)")
    case (Inl e)
    then show ?thesis using True same by (simp add: parse_list_def parse_read_delete_def)
  next
    case (Inr r)
    obtain res rest where r: "r = (res, rest)" by fastforce
    have skip: "cleanup (drop 1 rest) = cleanup rest" if "take 1 rest \<noteq> [newline]"
      using that by (cases rest) auto
    show ?thesis
    proof (cases res)
      case None
      then show ?thesis
        using True Inr r same by (simp add: parse_list_def parse_read_delete_def args_end_def)
    next
      case (Some ks)
      then obtain out where out: "list_loop limit key 2 [] (drop 1 inp) = Inr (Some (out, ks), rest)"
        "length ks < limit \<longrightarrow> out = 2"
        using same Inr r by auto
      have le: "length ks \<le> limit" using key_args_loop_fits [of limit "[]"] Inr r Some by fastforce
      show ?thesis
        using True Inr r Some out le skip
        by (cases "length ks = limit")
          (auto simp: parse_list_def parse_read_delete_def args_end_def client_cleanup_eq)
    qed
  qed
qed

lemma strtoul_digits_stored:
  assumes "\<forall>c \<in> set ds. is_digit c"
  shows "strtoul_digits (map Some ds) = Inl OutOfBounds"
    and "strtoul_digits (map Some ds @ None # cells) = Inl Uninitialised"
    and "\<not> is_digit c \<Longrightarrow> strtoul_digits (map Some ds @ Some c # cells) = Inr ds"
  using assms by (induction ds) simp_all

lemma client_read_uint_same:
  assumes "\<forall>c \<in> set ds. is_digit c" and "length ds \<le> 16"
  shows "client_read_uint_from inp (length ds) (map Some ds @ replicate (16 - length ds) None) =
    read_uint_from ds inp"
  using assms
proof (induction inp arbitrary: ds)
  case Nil
  then show ?case
    by (cases "16 - length ds") (simp_all add: number_of_def strtoul_digits_stored)
next
  case (Cons ch inp)
  have digit: "ch > CHR ''9'' \<or> ch < CHR ''0'' \<longleftrightarrow> \<not> is_digit ch" by (auto simp: is_digit_def)
  have nul: "\<not> is_digit NUL" by (simp add: is_digit_def less_eq_char_def)
  show ?case
  proof (cases "16 - length ds")
    case 0
    then show ?thesis by simp
  next
    case (Suc n)
    then have n: "n = 16 - length (ds @ [ch])" "length ds < 16" by simp_all
    then show ?thesis
      using Cons.IH [of "ds @ [ch]"] Cons.prems Suc digit nul
      by (simp add: list_update_append number_of_def strtoul_digits_stored Let_def)
  qed
qed

lemma client_read_uint_eq: "client_read_uint inp = read_uint inp"
  using client_read_uint_same [of "[]" inp] by (simp add: client_read_uint_def read_uint_def)

text \<open>
  The number parser of the client, modelled with its buffer of 16 cells some of which were never
  written, returns the same as the one of the server on every input, faults included, and
  parse_delay returns its number or skips the rest of the line.
\<close>

theorem client_number_agrees:
  "client_read_uint inp = read_uint inp \<and>
   parse_delay inp = bindE (read_uint inp) (\<lambda>(r, delay, ch, rest).
     if r = 0 then Inr (0, delay, rest) else Inr (- 1, delay, cleanup rest))"
  by (auto simp: parse_delay_def client_read_uint_eq client_cleanup_eq bindE_def split: sum.splits)

text \<open>The commands as a user types them.\<close>

definition client_line :: "string \<Rightarrow> string \<Rightarrow> string" where
  "client_line command key = command @ '' ['' @ key @ '']'' @ [newline]"

lemma client_key_text:
  assumes "plain k" and "length key = 40"
  shows "parse_list 1 key (''['' @ k @ '']'' @ [newline] @ rest) = Inr ([k], rest)"
proof -
  have "same_word 40 (client_read_string key (k @ CHR '']'' # newline # rest))
      (Inr (2, k, newline # rest))"
    using client_read_string_eq [of key "k @ CHR '']'' # newline # rest"] assms plain_read by simp
  then obtain buf where "client_read_string key (k @ CHR '']'' # newline # rest) = Inr (2, buf, newline # rest)"
    "c_str buf = c_str k" by (auto simp: same_word_def)
  moreover have "c_str k = k" using assms(1) by (simp add: plain_def fits_def)
  ultimately show ?thesis by (simp add: parse_list_def)
qed
text \<open>
  The commands of a user are read back: the word of each command, the key between brackets, and a
  delay of up to 15 digits that fits an unsigned int, each leaving the rest of the input for the
  next command.
\<close>

theorem client_commands_roundtrip:
  assumes "plain k" and "length key = 40" and "\<forall>c \<in> set ds. is_digit c" and "length ds \<le> 15"
    and "decimal ds \<le> UINT_MAX"
  shows "client_get_next (''SUBSCRIBE '' @ inp) = (CMD_SUBSCRIBE, inp) \<and>
    client_get_next (''UNSUBSCRIBE '' @ inp) = (CMD_UNSUBSCRIBE, inp) \<and>
    client_get_next (''DELAY '' @ inp) = (CMD_DELAY, inp) \<and>
    client_get_next (''DISCONNECT'' @ [newline] @ inp) = (CMD_DISCONNECT, inp) \<and>
    parse_list 1 key (''['' @ k @ '']'' @ [newline] @ rest) = Inr ([k], rest) \<and>
    parse_delay (ds @ newline # rest) = Inr (0, Some (word_of_nat (decimal ds)), rest)"
  using client_key_text [OF assms(1,2)] read_uint_text [OF assms(3,4)] assms(5)
  by (simp add: client_get_next_def parse_delay_def client_read_uint_eq)

theorem client_commands_roundtrip_witness:
  "client_get_next ''UNSUBSCRIBE [k1]'' = (CMD_UNSUBSCRIBE, ''[k1]'') \<and>
    parse_list 1 (replicate 40 NUL) (''['' @ ''k1'' @ '']'' @ [newline] @ ''#'') = Inr ([''k1''], ''#'') \<and>
    parse_delay (''25'' @ newline # []) = Inr (0, Some 25, [])"
proof -
  have "decimal ''25'' = 25" by code_simp
  moreover have "plain ''k1''" by (simp add: plain_def fits_def separators_def)
  moreover have "\<forall>c \<in> set ''25''. is_digit c" by (simp add: is_digit_def less_eq_char_def)
  ultimately show ?thesis
    using client_commands_roundtrip [of "''k1''" "replicate 40 NUL" "''25''" "''[k1]''" "''#''"]
      client_commands_roundtrip [of "''k1''" "replicate 40 NUL" "''25''" "''[k1]''" "[]"]
    by (simp add: UINT_MAX_def)
qed

theorem parse_list_agrees_witness:
  "parse_list 2 (replicate 40 NUL) (''[a]'' @ [newline]) = Inr ([''a''], []) \<and>
   parse_read_delete 1 (''[a]'' @ [newline]) = Inr ([], []) \<and>
   parse_list 1 (replicate 40 NUL) (''[a]'' @ [newline]) = Inr ([''a''], [])"
proof -
  have "plain ''a''" by (simp add: plain_def fits_def separators_def)
  then have two: "parse_read_delete 2 (''[a]'' @ [newline]) = Inr ([''a''], [])"
    using key_command_text [of "[''a'']" 2 "[]"] by (simp add: keys_text_def)
  have one: "parse_read_delete 1 (''[a]'' @ [newline]) = Inr ([], [])" by code_simp
  have "parse_list 1 (replicate 40 NUL) (''[a]'' @ [newline]) \<noteq> Inr ([], [])"
    using client_key_text [OF \<open>plain ''a''\<close>, of "replicate 40 NUL" "[]"] by simp
  then have "parse_list 1 (replicate 40 NUL) (''[a]'' @ [newline]) = Inr ([''a''], [])"
    using parse_list_agrees [of "replicate 40 NUL" 1 "''[a]'' @ [newline]"]
      client_key_text [OF \<open>plain ''a''\<close>, of "replicate 40 NUL" "[]"] one by simp
  moreover have "parse_list 2 (replicate 40 NUL) (''[a]'' @ [newline]) = Inr ([''a''], [])"
    using parse_list_agrees [of "replicate 40 NUL" 2 "''[a]'' @ [newline]"] two by auto
  ultimately show ?thesis using one by blast
qed

end
