(* ===== verification/ClientMain.thy ===== *)
theory ClientMain
  imports ClientParser Requests
begin

section \<open>The client program (client/main.c, client/api.c)\<close>

text \<open>
  Building the paths of the pipes, connecting, and the loop over the commands of the standard
  input, up to the return from \<open>main\<close>. The other thread of the client sets the flag
  \<open>serverDisconnected\<close> when it ends; the loop is given the values that its test sees. Joining that
  thread waits for its end: \<open>notif_ends\<close> says whether it ends, \<open>None\<close> that the program waits forever.
\<close>

subsection \<open>The paths of the pipes\<close>

text \<open>
  A path is built in an array of 256 zeros. The terminator is stored at the length of the path, to
  which the identifier was already appended, plus the length of the identifier.
\<close>

definition client_pipe_path :: "string \<Rightarrow> string \<Rightarrow> string res" where
  "client_pipe_path prefix_path client_id =
     (let path = prefix_path @ client_id in
      if length path + length client_id \<ge> 256 then Inl OutOfBounds else Inr path)"

subsection \<open>Connecting\<close>

text \<open>
  What the file system decides: whether the server pipe is accessible, which paths cannot be
  unlinked (for another reason than that they do not exist), and which pipes cannot be created.
  \<open>kvs_connect\<close> stores four descriptors through pointers; \<open>None\<close> is a descriptor not stored yet.
\<close>

record file_system =
  accessible :: "string \<Rightarrow> bool"
  unlink_fails :: "string \<Rightarrow> bool"
  mkfifo_fails :: "string \<Rightarrow> bool"

record descriptors =
  fdServer :: "int option"
  fdNotification :: "int option"
  fdRequest :: "int option"
  fdResponse :: "int option"

definition open_pipes ::
  "string \<Rightarrow> string \<Rightarrow> string \<Rightarrow> descriptors \<Rightarrow> world \<Rightarrow> int \<times> descriptors \<times> string \<times> world" where
  "open_pipes req_pipe_path resp_pipe_path notif_pipe_path ds w =
     (let (fdN, w1) = sys_open w notif_pipe_path; ds1 = ds\<lparr>fdNotification := Some fdN\<rparr> in
      if fdN < 0 then (1, ds1, [], w1)
      else
        (let (fdRq, w2) = sys_open w1 req_pipe_path; ds2 = ds1\<lparr>fdRequest := Some fdRq\<rparr> in
         if fdRq < 0 then (1, ds2, [], snd (sys_close w2 fdN))
         else
           (let (fdRs, w3) = sys_open w2 resp_pipe_path; ds3 = ds2\<lparr>fdResponse := Some fdRs\<rparr> in
            if fdRs < 0 then
              (let (r, w4) = sys_close w3 fdN in
               (1, ds3, [], if r \<noteq> 0 then w4 else snd (sys_close w4 fdRq)))
            else
              (let (_, _, printed, w4) = read_server_response w3 fdRs OP_CODE_CONNECT in
               (0, ds3, printed, w4)))))"

definition client_connect ::
  "file_system \<Rightarrow> string \<Rightarrow> string \<Rightarrow> string \<Rightarrow> string \<Rightarrow> world \<Rightarrow>
   int \<times> descriptors \<times> string \<times> world" where
  "client_connect fs req_pipe_path resp_pipe_path server_pipe_path notif_pipe_path w =
     (let ds = \<lparr>fdServer = None, fdNotification = None, fdRequest = None, fdResponse = None\<rparr>;
          pipes = [req_pipe_path, resp_pipe_path, notif_pipe_path] in
      if \<not> accessible fs server_pipe_path then (1, ds, [], w)
      else
        (let (fdS, w1) = sys_open w server_pipe_path; ds1 = ds\<lparr>fdServer := Some fdS\<rparr> in
         if fdS < 0 then (1, ds1, [], w1)
         else if list_ex (unlink_fails fs) pipes then (1, ds1, [], w1)
         else if list_ex (mkfifo_fails fs) pipes then (1, ds1, [], w1)
         else
           (let (sent, w2) = write_connect_message w1 fdS req_pipe_path resp_pipe_path notif_pipe_path in
            if sent = - 1 then (1, ds1, [], w2)
            else open_pipes req_pipe_path resp_pipe_path notif_pipe_path ds1 (snd (sys_close w2 fdS)))))"

subsection \<open>The loop over the commands\<close>

text \<open>\<open>c_word\<close> is what the word buffer of \<open>parse_list\<close> holds before a word is read.\<close>

record 'w client_main =
  c_input :: string
  c_world :: 'w
  c_printed :: string
  c_flags :: "bool list"
  c_word :: string

definition wait_line :: string where "wait_line = ''Waiting...'' @ [newline]"

definition disconnected_line :: string where
  "disconnected_line = ''Client was disconnected by the server. '' @ [newline]"

text \<open>A request function and its effect on the state; the state after a disconnect.\<close>

definition request_done :: "'w client_main \<Rightarrow> int \<times> string \<times> 'w \<Rightarrow> 'w client_main" where
  "request_done st res =
     (case res of (_, printed, w) \<Rightarrow> st\<lparr>c_world := w, c_printed := c_printed st @ printed\<rparr>)"

lemma length_client_cleanup: "length (client_cleanup inp) \<le> length inp"
  by (induction inp) (simp_all add: le_SucI)

lemma length_client_cleanup_drop: "length (client_cleanup (drop n inp)) \<le> length inp"
  using length_client_cleanup [of "drop n inp"] by simp

lemma client_get_next_shorter:
  assumes "client_get_next inp = (cmd, rest)" and "cmd \<noteq> EOC"
  shows "length rest < length inp"
proof -
  obtain b0 inp1 where inp: "inp = b0 # inp1"
    using assms by (cases inp) (auto simp: client_get_next_def)
  have "length rest \<le> length inp1"
    using assms(1) length_client_cleanup_drop [of _ inp1] length_client_cleanup [of inp1]
    by (auto simp: client_get_next_def inp simp del: drop_Suc split: if_splits)
  then show ?thesis by (simp add: inp)
qed

lemma parse_list_length:
  assumes "parse_list n key inp = Inr (ks, rest)"
  shows "length rest \<le> length inp"
proof -
  have word: "length r \<le> length i" if "client_read_string_from i j b = Inr (v, b', r)" for i j b v b' r
    using that by (induction i j b rule: client_read_string_from.induct) (auto split: if_splits intro: le_SucI)
  have loop: "length r \<le> length i" if "list_loop m k v ks i = Inr (res, r)" for m k v ks i res r
    using that
  proof (induction m arbitrary: k v ks i)
    case 0
    then show ?case by simp
  next
    case (Suc m)
    then obtain v1 k1 i1 where rd: "client_read_string k i = Inr (v1, k1, i1)" by auto
    then have "length i1 \<le> length i" using word by (simp add: client_read_string_def)
    with Suc.prems rd Suc.IH [of k1 v1 "ks @ [c_str k1]" i1] length_client_cleanup [of i1] show ?case
      by (auto split: if_splits)
  qed
  show ?thesis
    using assms loop length_client_cleanup_drop
    by (auto simp: parse_list_def simp del: drop_Suc split: if_splits option.splits
        dest!: loop) (meson diff_le_self length_client_cleanup length_client_cleanup_drop length_drop order_trans)+
qed
lemma parse_delay_length: "parse_delay inp = Inr (r, d, rest) \<Longrightarrow> length rest \<le> length inp"
  by (auto simp: parse_delay_def client_read_uint_eq read_uint_def split: if_splits
      dest!: read_uint_from_suffix suffix_length_le intro: order_trans [OF length_client_cleanup])

text \<open>
  The loop, from the test of the flag. At the end of the input the client disconnects and joins the
  other thread, whose end sets the flag, so the loop ends and the thread is joined again: the use of
  a thread identifier whose life is over.
\<close>

function client_loop ::
  "bool \<Rightarrow> 'w channel \<Rightarrow> 'w client_main \<Rightarrow> (int \<times> 'w client_main) res option" where
  "client_loop notif_ends ch st =
     (let flag = (c_flags st \<noteq> [] \<and> hd (c_flags st)); st0 = st\<lparr>c_flags := tl (c_flags st)\<rparr> in
      if flag then Some (Inr (0, st0\<lparr>c_printed := c_printed st0 @ disconnected_line\<rparr>))
      else
        (case client_get_next (c_input st0) of
           (cmd, rest) \<Rightarrow>
             (let st1 = st0\<lparr>c_input := rest\<rparr> in
              if cmd = CMD_DISCONNECT then
                (if \<not> notif_ends then None
                 else (case client_disconnect ch (c_world st1) False of
                   None \<Rightarrow> None
                 | Some res \<Rightarrow> Some (Inr (if fst res \<noteq> 0 then 1 else 0, request_done st1 res))))
              else if cmd = CMD_SUBSCRIBE then
                (case parse_list 1 (c_word st1) rest of
                   Inl e \<Rightarrow> Some (Inl e)
                 | Inr (keys, rest') \<Rightarrow>
                     (let st2 = st1\<lparr>c_input := rest'\<rparr> in
                      if length keys = 0 then client_loop notif_ends ch st2
                      else (case client_subscribe ch (c_world st2) (keys ! 0) of
                        None \<Rightarrow> None
                      | Some res \<Rightarrow> client_loop notif_ends ch (request_done st2 res))))
              else if cmd = CMD_UNSUBSCRIBE then
                (case parse_list 1 (c_word st1) rest of
                   Inl e \<Rightarrow> Some (Inl e)
                 | Inr (keys, rest') \<Rightarrow>
                     (let st2 = st1\<lparr>c_input := rest'\<rparr> in
                      if length keys = 0 then client_loop notif_ends ch st2
                      else (case client_unsubscribe ch (c_world st2) (keys ! 0) of
                        None \<Rightarrow> None
                      | Some res \<Rightarrow> client_loop notif_ends ch (request_done st2 res))))
              else if cmd = CMD_DELAY then
                (case parse_delay rest of
                   Inl e \<Rightarrow> Some (Inl e)
                 | Inr (r, delay, rest') \<Rightarrow>
                     (let st2 = st1\<lparr>c_input := rest'\<rparr> in
                      if r = - 1 then client_loop notif_ends ch st2
                      else (case delay of
                        None \<Rightarrow> Some (Inl Uninitialised)
                      | Some delay_ms \<Rightarrow> client_loop notif_ends ch
                          (if delay_ms > 0 then st2\<lparr>c_printed := c_printed st2 @ wait_line\<rparr> else st2))))
              else if cmd = EOC then
                (if \<not> notif_ends then None
                 else (case client_disconnect ch (c_world st1) False of
                   None \<Rightarrow> None
                 | Some _ \<Rightarrow> Some (Inl UseAfterFree)))
              else client_loop notif_ends ch st1)))"
  by pat_completeness auto
termination
proof (relation "measure (\<lambda>(_, _, st). length (c_input st))", goal_cases)
  case 1
  show ?case by simp
qed (auto simp: request_done_def dest!: client_get_next_shorter [OF sym] split: prod.splits
  dest!: parse_list_length parse_delay_length)
declare client_loop.simps [simp del]

subsection \<open>A whole session, from the text of the user to the text printed\<close>

fun request_text :: "client_request \<Rightarrow> string" where
  "request_text (Subscribe k) = ''SUBSCRIBE ['' @ k @ '']'' @ [newline]"
| "request_text (Unsubscribe k) = ''UNSUBSCRIBE ['' @ k @ '']'' @ [newline]"

definition session_text :: "client_request list \<Rightarrow> string" where
  "session_text rs = concat (map request_text rs) @ ''DISCONNECT'' @ [newline]"

text \<open>The lines printed for the responses of the specification.\<close>

fun result_lines :: "(string \<Rightarrow> bool) \<Rightarrow> string set \<Rightarrow> client_request list \<Rightarrow> string" where
  "result_lines known subs [] = response_line OP_CODE_DISCONNECT CHR ''0''"
| "result_lines known subs (Subscribe k # rs) =
     response_line OP_CODE_SUBSCRIBE (if known k then CHR ''1'' else CHR ''0'') @
     result_lines known (if known k then insert k subs else subs) rs"
| "result_lines known subs (Unsubscribe k # rs) =
     response_line OP_CODE_UNSUBSCRIBE (if k \<in> subs then CHR ''0'' else CHR ''1'') @
     result_lines known (subs - {k}) rs"

lemma client_word:
  "client_get_next (''SUBSCRIBE ['' @ inp) = (CMD_SUBSCRIBE, ''['' @ inp)"
  "client_get_next (''UNSUBSCRIBE ['' @ inp) = (CMD_UNSUBSCRIBE, ''['' @ inp)"
  "client_get_next (''DISCONNECT'' @ [newline] @ inp) = (CMD_DISCONNECT, inp)"
  by (simp_all add: client_get_next_def)

text \<open>
  A request over a channel: its code and its key field are sent, one after the other, and then a
  response is received and printed.
\<close>

definition answered :: "'w channel \<Rightarrow> 'w \<Rightarrow> client_request \<Rightarrow> string \<Rightarrow> 'w \<Rightarrow> bool" where
  "answered ch w r line w' \<longleftrightarrow>
     (\<exists>w1 w2 v x. send ch w [hd (client_bytes r)] = (1, w1) \<and> send ch w1 (tl (client_bytes r)) = (1, w2) \<and>
        respond ch w2 (hd (client_bytes r)) = Some (v, x, line, w'))"

lemma client_request_step:
  assumes "c_flags st = []" and "length (c_word st) = 40" and "plain (request_key r)"
    and "c_input st = request_text r @ inp" and "answered ch (c_world st) r line w'"
  shows "client_loop True ch st =
    client_loop True ch (st\<lparr>c_input := inp, c_world := w', c_printed := c_printed st @ line\<rparr>)"
proof -
  note key = client_key_text [of "request_key r" "c_word st" inp, OF assms(3,2)]
  have flags: "st\<lparr>c_flags := []\<rparr> = st" using assms(1) by simp
  obtain w1 w2 v x where ch: "send ch (c_world st) [hd (client_bytes r)] = (1, w1)"
    "send ch w1 (tl (client_bytes r)) = (1, w2)" "respond ch w2 (hd (client_bytes r)) = Some (v, x, line, w')"
    using assms(5) by (auto simp: answered_def)
  show ?thesis
  proof (cases r)
    case (Subscribe k)
    then have "client_get_next (c_input st) = (CMD_SUBSCRIBE, ''['' @ k @ '']'' @ [newline] @ inp)"
      using assms(4) client_word(1) by simp
    moreover have "client_subscribe ch (c_world st) k = Some (1, line, w')"
      using ch Subscribe by (simp add: client_subscribe_def write_correct_size_def request_bytes_def)
    ultimately show ?thesis
      using assms(1) key Subscribe
      by (simp add: client_loop.simps [of _ _ st] flags request_done_def)
  next
    case (Unsubscribe k)
    then have "client_get_next (c_input st) = (CMD_UNSUBSCRIBE, ''['' @ k @ '']'' @ [newline] @ inp)"
      using assms(4) client_word(2) by simp
    moreover have "client_unsubscribe ch (c_world st) k = Some (0, line, w')"
      using ch Unsubscribe by (simp add: client_unsubscribe_def write_correct_size_def request_bytes_def)
    ultimately show ?thesis
      using assms(1) key Unsubscribe
      by (simp add: client_loop.simps [of _ _ st] flags request_done_def)
  qed
qed

lemma client_disconnect_step:
  assumes "c_flags st = []" and "c_input st = ''DISCONNECT'' @ [newline] @ inp"
    and "send ch (c_world st) [OP_CODE_DISCONNECT] = (1, w1)"
    and "respond ch w1 OP_CODE_DISCONNECT = Some (0, x, line, w')"
  shows "client_loop True ch st =
    Some (Inr (0, st\<lparr>c_input := inp, c_world := w', c_printed := c_printed st @ line\<rparr>))"
proof -
  have flags: "st\<lparr>c_flags := []\<rparr> = st" using assms(1) by simp
  have "client_disconnect ch (c_world st) False = Some (0, line, w')"
    using assms(3,4) by (simp add: client_disconnect_def)
  then show ?thesis
    using assms(1,2) client_word(3) [of inp]
    by (simp add: client_loop.simps [of _ _ st] flags request_done_def)
qed

subsection \<open>A client whose responses are already there\<close>

text \<open>The state in which the client reads its next command.\<close>

definition client_ready :: "int \<Rightarrow> int \<Rightarrow> world client_main \<Rightarrow> bool" where
  "client_ready rq rs st \<longleftrightarrow> healthy (c_world st) rq \<and> rs \<in> set (w_open (c_world st)) \<and>
     w_rsched (c_world st) rs = [] \<and> c_flags st = [] \<and> length (c_word st) = 40"

text \<open>One request: the code and key field are written, the response is read and printed.\<close>

definition after_request ::
  "int \<Rightarrow> int \<Rightarrow> string \<Rightarrow> string \<Rightarrow> string \<Rightarrow> string \<Rightarrow> world client_main \<Rightarrow> world client_main" where
  "after_request rq rs inp written incoming line st =
     st\<lparr>c_input := inp, c_world := (c_world st)\<lparr>w_out := (w_out (c_world st))(rq := w_out (c_world st) rq @ written),
       w_in := (w_in (c_world st))(rs := incoming)\<rparr>, c_printed := c_printed st @ line\<rparr>"

lemma response_after_write:
  assumes "rs \<in> set (w_open w)" and "w_rsched w rs = []" and "w_in w rs = opcode # x # incoming"
  shows "read_server_response (w\<lparr>w_out := f\<rparr>) rs opcode =
    (0, Some x, response_line opcode x, w\<lparr>w_out := f, w_in := (w_in w)(rs := incoming)\<rparr>)"
  using read_response [of rs "w\<lparr>w_out := f\<rparr>" opcode x incoming] assms by simp

lemma client_bytes_split: "client_bytes r = hd (client_bytes r) # fill_with_nulls (request_key r) KEY_MESSAGE_SIZE"
  by (cases r) (simp_all add: request_bytes_def)

lemma pipe_request_step:
  assumes "client_ready rq rs st" and "plain (request_key r)"
    and "c_input st = request_text r @ inp" and "w_in (c_world st) rs = hd (client_bytes r) # x # incoming"
  shows "client_loop True (pipe_channel rq rs) st = client_loop True (pipe_channel rq rs)
    (after_request rq rs inp (client_bytes r) incoming (response_line (hd (client_bytes r)) x) st)"
proof -
  note ready = assms(1) [unfolded client_ready_def]
  have fields: "tl (client_bytes r) = fill_with_nulls (request_key r) KEY_MESSAGE_SIZE"
    "request_bytes (hd (client_bytes r)) (request_key r) = client_bytes r"
    using client_bytes_split [of r] by (metis list.sel(3), simp add: request_bytes_def)
  have "answered (pipe_channel rq rs) (c_world st) r (response_line (hd (client_bytes r)) x)
      (c_world (after_request rq rs inp (client_bytes r) incoming (response_line (hd (client_bytes r)) x) st))"
    using ready response_after_write [of rs "c_world st" "hd (client_bytes r)" x incoming] assms(4)
    by (simp add: answered_def pipe_channel_def fields write_request after_request_def)
  from client_request_step [OF _ _ assms(2,3) this] show ?thesis
    using ready by (simp add: after_request_def)
qed

lemma pipe_disconnects:
  "\<exists>res. client_disconnect (pipe_channel rq rs) w join_fails = Some res"
  by (auto simp: client_disconnect_def pipe_channel_def Let_def split: prod.splits)

lemma client_loop_without_disconnect:
  assumes "client_ready rq rs st" and "rq \<noteq> rs" and "\<forall>r \<in> set reqs. plain (request_key r)"
    and "c_input st = concat (map request_text reqs)"
    and "w_in (c_world st) rs = responses known subs reqs"
  shows "client_loop True (pipe_channel rq rs) st = Some (Inl UseAfterFree)"
  using assms
proof (induction reqs arbitrary: st subs)
  case Nil
  then have "client_get_next (c_input st) = (EOC, [])" by (simp add: client_get_next_def)
  moreover obtain res where "client_disconnect (pipe_channel rq rs) (c_world st) False = Some res"
    using pipe_disconnects by blast
  ultimately show ?case using Nil by (simp add: client_loop.simps [of _ _ st] client_ready_def)
next
  case (Cons r reqs)
  obtain x subs' where split:
    "responses known subs (r # reqs) = hd (client_bytes r) # x # responses known subs' reqs"
    by (cases r) (auto simp: request_bytes_def)
  let ?st = "after_request rq rs (concat (map request_text reqs)) (client_bytes r)
    (responses known subs' reqs) (response_line (hd (client_bytes r)) x) st"
  have "client_loop True (pipe_channel rq rs) st = client_loop True (pipe_channel rq rs) ?st"
    by (rule pipe_request_step) (use Cons.prems split in simp_all)
  also have "\<dots> = Some (Inl UseAfterFree)"
    by (rule Cons.IH) (use Cons.prems in \<open>simp_all add: client_ready_def after_request_def healthy_def\<close>)
  finally show ?case .
qed

text \<open>
  When the input of the client ends without a disconnect command, the client disconnects, joins
  the notification thread and, after its loop, joins the thread that was already joined.
\<close>

theorem end_of_input_joins_twice:
  assumes "client_ready rq rs st" and "rq \<noteq> rs" and "\<forall>r \<in> set reqs. plain (request_key r)"
    and "c_input st = concat (map request_text reqs)"
    and "w_in (c_world st) rs = responses known subs reqs"
  shows "client_loop True (pipe_channel rq rs) st = Some (Inl UseAfterFree)"
  using assms by (rule client_loop_without_disconnect)

subsection \<open>The whole program\<close>

definition client_program ::
  "file_system \<Rightarrow> bool \<Rightarrow> bool \<Rightarrow> string \<Rightarrow> string \<Rightarrow> world client_main \<Rightarrow>
   (int \<times> world client_main) res option" where
  "client_program fs thread_fails notif_ends client_id server_pipe_path st =
     (case (client_pipe_path ''/tmp/req'' client_id, client_pipe_path ''/tmp/resp'' client_id,
            client_pipe_path ''/tmp/notif'' client_id) of
        (Inr req_path, Inr resp_path, Inr notif_path) \<Rightarrow>
          (case client_connect fs req_path resp_path server_pipe_path notif_path (c_world st) of
             (r, ds, printed, w1) \<Rightarrow>
               (let st1 = st\<lparr>c_world := w1, c_printed := c_printed st @ printed\<rparr> in
                if r \<noteq> 0 then
                  (case fdServer ds of
                     None \<Rightarrow> Some (Inl Uninitialised)
                   | Some fd \<Rightarrow> Some (Inr (1, st1\<lparr>c_world := snd (sys_close w1 fd)\<rparr>)))
                else if thread_fails then Some (Inr (1, st1))
                else (case (fdRequest ds, fdResponse ds) of
                    (Some rq, Some rs) \<Rightarrow> client_loop notif_ends (pipe_channel rq rs) st1
                  | _ \<Rightarrow> Some (Inl Uninitialised))))
      | (Inl e, _, _) \<Rightarrow> Some (Inl e)
      | (_, Inl e, _) \<Rightarrow> Some (Inl e)
      | (_, _, Inl e) \<Rightarrow> Some (Inl e))"

lemma sys_open_ok:
  assumes "w_canopen w path"
  shows "sys_open w path = (fresh_fd (w_open w), w\<lparr>w_open := fresh_fd (w_open w) # w_open w\<rparr>)"
  using assms by (simp add: sys_open_def Let_def)

text \<open>The descriptors of the three pipes, in the order of the calls of \<open>open\<close>.\<close>

definition pipe_fds :: "world \<Rightarrow> int \<times> int \<times> int" where
  "pipe_fds w =
     (let n = fresh_fd (w_open w); rq = fresh_fd (n # w_open w); rs = fresh_fd (rq # n # w_open w)
      in (n, rq, rs))"

lemma client_connect_run:
  assumes "accessible fs server" and "\<forall>path \<in> {req, resp, notif}. \<not> unlink_fails fs path \<and> \<not> mkfifo_fails fs path"
    and "\<forall>path \<in> {req, resp, notif, server}. w_canopen w path"
    and "pipe_fds w = (n, rq, rs)" and "w_wsched w n = []" and "w_rsched w rs = []"
    and "w_in w rs = [OP_CODE_CONNECT, x]"
  shows "client_connect fs req resp server notif w =
    (0, \<lparr>fdServer = Some n, fdNotification = Some n, fdRequest = Some rq, fdResponse = Some rs\<rparr>,
     response_line OP_CODE_CONNECT x,
     w\<lparr>w_out := (w_out w)(n := w_out w n @ connect_message req resp notif), w_open := rs # rq # n # w_open w,
       w_in := (w_in w)(rs := [])\<rparr>)"
proof -
  have fds: "n = fresh_fd (w_open w)" "rq = fresh_fd (n # w_open w)" "rs = fresh_fd (rq # n # w_open w)"
    using assms(4) by (auto simp: pipe_fds_def Let_def)
  have nonneg: "\<not> n < 0" "\<not> rq < 0" "\<not> rs < 0" unfolding fds by (simp_all add: not_less)
  let ?w1 = "w\<lparr>w_open := n # w_open w\<rparr>"
  let ?out = "(w_out w)(n := w_out w n @ connect_message req resp notif)"
  have sent: "write_connect_message ?w1 n req resp notif = (1, ?w1\<lparr>w_out := ?out\<rparr>)"
    using assms(5) by (simp add: write_connect_message_def write_all_healthy healthy_def)
  have closed: "sys_close (?w1\<lparr>w_out := ?out\<rparr>) n = (0, w\<lparr>w_out := ?out\<rparr>)"
    using fresh_fd_free [of "w_open w"] by (simp add: sys_close_def fds(1))
  let ?w3 = "w\<lparr>w_out := ?out, w_open := rs # rq # n # w_open w\<rparr>"
  have response: "read_server_response ?w3 rs OP_CODE_CONNECT =
      (0, Some x, response_line OP_CODE_CONNECT x, ?w3\<lparr>w_in := (w_in w)(rs := [])\<rparr>)"
    using read_response [of rs ?w3 OP_CODE_CONNECT x "[]"] assms(6,7) by simp
  have "open_pipes req resp notif \<lparr>fdServer = Some n, fdNotification = None, fdRequest = None,
      fdResponse = None\<rparr> (w\<lparr>w_out := ?out\<rparr>) =
    (0, \<lparr>fdServer = Some n, fdNotification = Some n, fdRequest = Some rq, fdResponse = Some rs\<rparr>,
     response_line OP_CODE_CONNECT x, ?w3\<lparr>w_in := (w_in w)(rs := [])\<rparr>)"
    using assms(3) response nonneg by (simp add: open_pipes_def sys_open_ok fds [symmetric] Let_def)
  then show ?thesis
    using assms(1-3) sent closed nonneg
    by (simp add: client_connect_def sys_open_ok fds(1) [symmetric] Let_def)
qed
text \<open>
  When the server pipe can be written and the three pipes can be created and opened, the client
  sends one connect message, closes the server pipe, opens its three pipes, reads the two bytes of
  the answer and returns 0, whatever the answer says.
\<close>

theorem client_connect_correct:
  assumes "accessible fs server" and "\<forall>path \<in> {req, resp, notif}. \<not> unlink_fails fs path \<and> \<not> mkfifo_fails fs path"
    and "\<forall>path \<in> {req, resp, notif, server}. w_canopen w path"
    and "pipe_fds w = (n, rq, rs)" and "w_wsched w n = []" and "w_rsched w rs = []"
    and "w_in w rs = [OP_CODE_CONNECT, x]"
  shows "client_connect fs req resp server notif w =
    (0, \<lparr>fdServer = Some n, fdNotification = Some n, fdRequest = Some rq, fdResponse = Some rs\<rparr>,
     response_line OP_CODE_CONNECT x,
     w\<lparr>w_out := (w_out w)(n := w_out w n @ connect_message req resp notif), w_open := rs # rq # n # w_open w,
       w_in := (w_in w)(rs := [])\<rparr>)"
  using assms by (rule client_connect_run)

text \<open>
  A client identifier of 123 or more characters makes the client store a terminator behind the end
  of a path array, and a server pipe that cannot be accessed makes it close a descriptor that was
  never stored.
\<close>

theorem client_program_path_bounds:
  "(256 \<le> 2 * length client_id + 10 \<longrightarrow>
      client_program fs thread_fails notif_ends client_id server st = Some (Inl OutOfBounds)) \<and>
   (2 * length client_id + 10 < 256 \<and> \<not> accessible fs server \<longrightarrow>
      client_program fs thread_fails notif_ends client_id server st = Some (Inl Uninitialised))"
  by (simp add: client_program_def client_pipe_path_def client_connect_def Let_def split: sum.splits)
subsection \<open>Instances\<close>

definition sample_main :: "string \<Rightarrow> string \<Rightarrow> world client_main" where
  "sample_main inp incoming =
     \<lparr>c_input = inp, c_world = quiet_world\<lparr>w_in := (\<lambda>_. incoming)\<rparr>, c_printed = [], c_flags = [],
      c_word = replicate 40 NUL\<rparr>"

lemma sample_main_ready: "client_ready 1 0 (sample_main inp incoming)"
  by (simp add: client_ready_def sample_main_def healthy_def quiet_world_def)

lemma sample_main_facts [simp]:
  "c_input (sample_main inp incoming) = inp" "w_in (c_world (sample_main inp incoming)) fd = incoming"
  "w_out (c_world (sample_main inp incoming)) fd = []" "c_printed (sample_main inp incoming) = []"
  by (simp_all add: sample_main_def quiet_world_def)

lemma plain_word: "c \<in> set ''abcdefghijklmnopqrstuvwxyz0123456789'' \<Longrightarrow> plain [c]"
  by (auto simp: plain_def fits_def separators_def)

theorem end_of_input_joins_twice_witness:
  "client_loop True (pipe_channel 1 0) (sample_main (''SUBSCRIBE [b]'' @ [newline]) ''3020'') = Some (Inl UseAfterFree)"
  by (rule end_of_input_joins_twice [where reqs = "[Subscribe ''b'']" and known = "\<lambda>_. False" and subs = "{}"])
    (simp_all add: sample_main_ready plain_word protocol_codes)

definition sample_files :: "bool \<Rightarrow> file_system" where
  "sample_files ok = \<lparr>accessible = (\<lambda>_. ok), unlink_fails = (\<lambda>_. False), mkfifo_fails = (\<lambda>_. False)\<rparr>"

theorem client_connect_correct_witness:
  "\<exists>ds w'. client_connect (sample_files True)
      ''/tmp/req1'' ''/tmp/resp1'' ''/tmp/reg'' ''/tmp/notif1'' (quiet_world\<lparr>w_in := (\<lambda>_. ''11'')\<rparr>) =
    (0, ds, response_line OP_CODE_CONNECT CHR ''1'', w')"
proof -
  obtain n rq rs where "pipe_fds (quiet_world\<lparr>w_in := (\<lambda>_. ''11'')\<rparr>) = (n, rq, rs)"
    by (metis prod_cases3)
  from client_connect_correct [OF _ _ _ this, where x = "CHR ''1''" and server = "''/tmp/reg''" and
      req = "''/tmp/req1''" and resp = "''/tmp/resp1''" and notif = "''/tmp/notif1''" and
      fs = "sample_files True"]
  show ?thesis by (simp add: quiet_world_def protocol_codes sample_files_def)
qed

theorem client_program_path_bounds_witness:
  "client_program (sample_files True) False True (replicate 123 CHR ''x'') ''/tmp/reg'' (sample_main [] []) = Some (Inl OutOfBounds) \<and>
   client_program (sample_files False) False True
     ''1'' ''/tmp/reg'' (sample_main [] []) = Some (Inl Uninitialised)"
  using client_program_path_bounds [of "replicate 123 CHR ''x''" "sample_files True" False True "''/tmp/reg''" "sample_main [] []"]
    client_program_path_bounds [of "''1''" "sample_files False"
      False True "''/tmp/reg''" "sample_main [] []"]
  by (simp add: sample_files_def)

end
