(* ===== verification/ClientSession.thy ===== *)
theory ClientSession
  imports ClientMain
begin

section \<open>A client and its session thread, joined by two pipes\<close>

text \<open>
  The client of ClientMain and the session thread of Requests, run together. What one writes is what
  the other reads, and a read waits until something was written: the session thread runs a turn when
  a whole request is in the request pipe, and the client goes on when the response it waits for has
  come. The thread gets its turn when the client waits. Each side reads from one pipe only and waits
  there for the other, so this schedule loses nothing: bytes that come earlier stay in their pipe.
  When the client waits and the thread waits too, neither goes on: the result is \<open>None\<close>.
\<close>

subsection \<open>The two pipes\<close>

text \<open>
  The two processes, each with its kernel, and the flags of the session thread. A link names the
  descriptors of the two ends and the client object of the session.
\<close>

record joined =
  s_client :: world
  s_server :: server
  s_world :: world
  s_error :: bool
  s_over :: bool

record link =
  l_request :: int
  l_response :: int
  l_client :: nat
  l_fdReq :: int
  l_fdResp :: int

definition arrives :: "world \<Rightarrow> int \<Rightarrow> string \<Rightarrow> world" where
  "arrives w fd bs = w\<lparr>w_in := (w_in w)(fd := w_in w fd @ bs)\<rparr>"

definition written_since :: "world \<Rightarrow> int \<Rightarrow> world \<Rightarrow> string" where
  "written_since w fd w' = drop (length (w_out w fd)) (w_out w' fd)"

text \<open>Whether the thread finds all the bytes that it reads for its next request.\<close>

definition request_waits :: "string \<Rightarrow> bool" where
  "request_waits inp =
     (case inp of [] \<Rightarrow> False
      | opcode # rest \<Rightarrow>
          opcode = OP_CODE_SUBSCRIBE \<or> opcode = OP_CODE_UNSUBSCRIBE \<longrightarrow> KEY_MESSAGE_SIZE \<le> length rest)"

text \<open>The turns of the session thread until it waits or ends; every turn takes a byte from its pipe.\<close>

fun serve_waiting :: "nat \<Rightarrow> link \<Rightarrow> joined \<Rightarrow> joined res" where
  "serve_waiting 0 l j = Inr j"
| "serve_waiting (Suc n) l j =
     (if s_over j \<or> \<not> request_waits (w_in (s_world j) (l_fdReq l)) then Inr j
      else bindE (session_turn False (Some (l_client l)) (s_error j) (s_server j) (s_world j))
        (\<lambda>(over, readingError, s, w).
          serve_waiting n l (j\<lparr>s_client := arrives (s_client j) (l_response l) (written_since (s_world j) (l_fdResp l) w),
            s_server := s, s_world := w, s_error := readingError, s_over := over\<rparr>)))"

definition link_send :: "link \<Rightarrow> joined \<Rightarrow> string \<Rightarrow> int \<times> joined" where
  "link_send l j bs =
     (case write_all (s_client j) (l_request l) bs of
        (r, w) \<Rightarrow> (r, j\<lparr>s_client := w,
          s_world := arrives (s_world j) (l_fdReq l) (written_since (s_client j) (l_request l) w)\<rparr>))"

text \<open>A response of the wrong code is refused after its first byte; a pipe that is closed is not waited for.\<close>

definition link_respond :: "link \<Rightarrow> joined \<Rightarrow> char \<Rightarrow> (int \<times> char option \<times> string \<times> joined) option" where
  "link_respond l j opcode =
     (case serve_waiting (length (w_in (s_world j) (l_fdReq l))) l j of
        Inl e \<Rightarrow> None
      | Inr j1 \<Rightarrow>
          (let inp = w_in (s_client j1) (l_response l) in
           if \<not> s_over j1 \<and> (inp = [] \<or> inp = [opcode]) then None
           else (case read_server_response (s_client j1) (l_response l) opcode of
             (r, x, printed, w) \<Rightarrow> Some (r, x, printed, j1\<lparr>s_client := w\<rparr>))))"

definition link_channel :: "link \<Rightarrow> joined channel" where
  "link_channel l = \<lparr>send = link_send l, respond = link_respond l\<rparr>"

subsection \<open>A request and its response\<close>

text \<open>Both sides are ready for the next request, and nothing is left in the pipes.\<close>

definition in_session :: "link \<Rightarrow> client \<Rightarrow> joined \<Rightarrow> hash_table \<Rightarrow> bool" where
  "in_session l c j ht \<longleftrightarrow>
     session_ready (s_server j) (s_world j) (l_client l) c \<and> kvs_table (s_server j) = Table ht \<and>
     \<not> s_error j \<and> \<not> s_over j \<and> l_fdReq l = fdReq c \<and> l_fdResp l = fdResp c \<and>
     healthy (s_client j) (l_request l) \<and> l_response l \<in> set (w_open (s_client j)) \<and>
     w_rsched (s_client j) (l_response l) = [] \<and>
     w_in (s_world j) (fdReq c) = [] \<and> w_in (s_client j) (l_response l) = []"

lemma link_send_run:
  assumes "healthy (s_client j) (l_request l)"
  shows "link_send l j bs =
    (1, j\<lparr>s_client := (s_client j)\<lparr>w_out := (w_out (s_client j))(l_request l := w_out (s_client j) (l_request l) @ bs)\<rparr>,
      s_world := arrives (s_world j) (l_fdReq l) bs\<rparr>)"
  using assms by (simp add: link_send_def write_all_healthy written_since_def)

lemma arrives_arrives: "arrives (arrives w fd as) fd bs = arrives w fd (as @ bs)"
  by (simp add: arrives_def)

lemma session_ready_arrives:
  "session_ready s w p c \<Longrightarrow> session_ready s (arrives w fd bs) p c"
  by (simp add: session_ready_def arrives_def calm_def healthy_def)

text \<open>The state when the client has sent its bytes and waits.\<close>

definition sent :: "link \<Rightarrow> joined \<Rightarrow> string \<Rightarrow> joined" where
  "sent l j bs =
     j\<lparr>s_client := (s_client j)\<lparr>w_out := (w_out (s_client j))(l_request l := w_out (s_client j) (l_request l) @ bs)\<rparr>,
       s_world := arrives (s_world j) (l_fdReq l) bs\<rparr>"

lemma link_send_sent:
  assumes "healthy (s_client j) (l_request l)"
  shows "link_send l j bs = (1, sent l j bs)" and "link_send l (sent l j as) bs = (1, sent l j (as @ bs))"
proof -
  show "link_send l j bs = (1, sent l j bs)" using assms by (simp add: link_send_run sent_def)
  have "healthy (s_client (sent l j as)) (l_request l)" using assms by (simp add: sent_def healthy_def)
  then show "link_send l (sent l j as) bs = (1, sent l j (as @ bs))"
    by (simp add: link_send_run) (simp add: sent_def arrives_arrives)
qed

text \<open>What the two sides have written since.\<close>

definition exchanged :: "link \<Rightarrow> joined \<Rightarrow> string \<Rightarrow> string \<Rightarrow> joined \<Rightarrow> bool" where
  "exchanged l j request resp j' \<longleftrightarrow>
     w_out (s_client j') (l_request l) = w_out (s_client j) (l_request l) @ request \<and>
     w_out (s_world j') (l_fdResp l) = w_out (s_world j) (l_fdResp l) @ resp"

text \<open>The thread gets its turn, and its response comes back.\<close>

lemma link_respond_run:
  assumes "in_session l c j ht" and "bytes \<noteq> []" and "request_waits bytes"
    and "session_turn False (Some (l_client l)) False (s_server j) (s_world (sent l j bytes)) = Inr (over, False, s', w')"
    and "w_out w' (fdResp c) = w_out (s_world j) (fdResp c) @ [opcode, x]" and "w_in w' (fdReq c) = []"
  shows "\<exists>j'. link_respond l (sent l j bytes) opcode = Some (0, Some x, response_line opcode x, j') \<and>
    s_server j' = s' \<and> s_world j' = w' \<and> s_over j' = over \<and> \<not> s_error j' \<and>
    w_in (s_client j') (l_response l) = [] \<and> healthy (s_client j') (l_request l) \<and>
    l_response l \<in> set (w_open (s_client j')) \<and> w_rsched (s_client j') (l_response l) = [] \<and>
    exchanged l j bytes [opcode, x] j'"
proof -
  note ready = assms(1) [unfolded in_session_def]
  let ?j = "sent l j bytes"
  let ?j1 = "?j\<lparr>s_client := arrives (s_client ?j) (l_response l) [opcode, x],
      s_server := s', s_world := w', s_error := False, s_over := over\<rparr>"
  have fds: "l_fdReq l = fdReq c" "l_fdResp l = fdResp c" using ready by simp_all
  have inp: "w_in (s_world ?j) (l_fdReq l) = bytes" using ready by (simp add: sent_def arrives_def)
  have since: "written_since (s_world ?j) (l_fdResp l) w' = [opcode, x]"
    using assms(5) fds by (simp add: written_since_def sent_def arrives_def)
  obtain n where n: "length bytes = Suc n" using assms(2) by (cases bytes) simp_all
  have "serve_waiting n l ?j1 = Inr ?j1"
    by (cases n) (simp_all add: assms(6) fds request_waits_def)
  then have served: "serve_waiting (length bytes) l ?j = Inr ?j1"
    using ready assms(3,4) inp since unfolding n by (simp add: sent_def)
  have client: "l_response l \<in> set (w_open (s_client ?j1))" "w_rsched (s_client ?j1) (l_response l) = []"
    "w_in (s_client ?j1) (l_response l) = [opcode, x]"
    using ready by (simp_all add: sent_def arrives_def)
  let ?w = "(s_client ?j1)\<lparr>w_in := (w_in (s_client ?j1))(l_response l := [])\<rparr>"
  have "read_server_response (s_client ?j1) (l_response l) opcode = (0, Some x, response_line opcode x, ?w)"
    using read_response [OF client] .
  then have "link_respond l ?j opcode = Some (0, Some x, response_line opcode x, ?j1\<lparr>s_client := ?w\<rparr>)"
    using served client(3) unfolding link_respond_def inp by (simp add: Let_def)
  moreover have "exchanged l j bytes [opcode, x] (?j1\<lparr>s_client := ?w\<rparr>)"
    using assms(5) fds by (simp add: exchanged_def sent_def arrives_def)
  moreover have "healthy ?w (l_request l)" using ready by (simp add: sent_def arrives_def healthy_def)
  ultimately show ?thesis
    using client by (intro exI [of _ "?j1\<lparr>s_client := ?w\<rparr>"]) simp
qed

lemma request_bytes_wait: "client_bytes r \<noteq> []" "request_waits (client_bytes r)"
  by (cases r; simp add: request_bytes_def request_waits_def)+

lemma request_exchange:
  assumes "in_session l c j ht" and "proper_key (request_key r)"
  shows "\<exists>j' ks ht'. answered (link_channel l) j r
      (response_line (hd (client_bytes r)) (request_result (\<lambda>k. kvs_map ht k \<noteq> None) (client_subs (fdNotif c) ht) r)) j' \<and>
    in_session l (c\<lparr>subscriptions := ks\<rparr>) j' ht' \<and> kvs_map ht' = kvs_map ht \<and>
    client_subs (fdNotif c) ht' = subs_after (\<lambda>k. kvs_map ht k \<noteq> None) (client_subs (fdNotif c) ht) r \<and>
    (\<forall>k. removeAll (fdNotif c) (subscribers ht' k) = removeAll (fdNotif c) (subscribers ht k)) \<and>
    w_open (s_world j') = w_open (s_world j) \<and>
    exchanged l j (client_bytes r)
      [hd (client_bytes r), request_result (\<lambda>k. kvs_map ht k \<noteq> None) (client_subs (fdNotif c) ht) r] j'"
proof -
  note ready = assms(1) [unfolded in_session_def]
  let ?bytes = "client_bytes r" and ?known = "\<lambda>k. kvs_map ht k \<noteq> None" and ?S = "client_subs (fdNotif c) ht"
  let ?op = "hd ?bytes" and ?x = "request_result ?known ?S r"
  let ?w = "s_world (sent l j ?bytes)"
  have w: "session_ready (s_server j) ?w (l_client l) c" "w_in ?w (fdReq c) = ?bytes @ []"
    "w_out ?w = w_out (s_world j)" "w_open ?w = w_open (s_world j)"
    using ready by (simp_all add: sent_def session_ready_arrives) (simp_all add: arrives_def)
  obtain s' w' where turn: "session_turn False (Some (l_client l)) False (s_server j) ?w = Inr (False, False, s', w')"
    and served: "served (s_server j) ?w (l_client l) c ht [] (subs_after ?known ?S r) [?op, ?x] s' w'"
    using session_step [OF w(1) _ w(2) assms(2)] ready by blast
  then obtain ks ht' where s': "session_ready s' w' (l_client l) (c\<lparr>subscriptions := ks\<rparr>)" "kvs_table s' = Table ht'"
    "kvs_map ht' = kvs_map ht" "client_subs (fdNotif c) ht' = subs_after ?known ?S r"
    "\<forall>k. removeAll (fdNotif c) (subscribers ht' k) = removeAll (fdNotif c) (subscribers ht k)"
    "w_out w' (fdResp c) = w_out (s_world j) (fdResp c) @ [?op, ?x]" "w_in w' (fdReq c) = []"
    "w_open w' = w_open (s_world j)"
    unfolding served_def w(3,4) by blast
  obtain j' where j': "link_respond l (sent l j ?bytes) ?op = Some (0, Some ?x, response_line ?op ?x, j')"
    "s_server j' = s'" "s_world j' = w'" "\<not> s_over j'" "\<not> s_error j'"
    "w_in (s_client j') (l_response l) = []" "healthy (s_client j') (l_request l)"
    "l_response l \<in> set (w_open (s_client j'))" "w_rsched (s_client j') (l_response l) = []"
    "exchanged l j ?bytes [?op, ?x] j'"
    using link_respond_run [OF assms(1) request_bytes_wait turn s'(6,7)] by blast
  have cat: "[?op] @ tl ?bytes = ?bytes" using request_bytes_wait(1) [of r] by simp
  have healthy: "healthy (s_client j) (l_request l)" using ready by simp
  have "answered (link_channel l) j r (response_line ?op ?x) j'"
    unfolding answered_def link_channel_def channel.simps link_send_sent(1) [OF healthy]
    using link_send_sent(2) [OF healthy, of "[?op]" "tl ?bytes"] j'(1) unfolding cat by blast
  moreover have "in_session l (c\<lparr>subscriptions := ks\<rparr>) j' ht'"
    using ready s'(1,2,7) j'(2-9) by (simp add: in_session_def)
  ultimately show ?thesis
    using s'(3-5,8) j'(3,10) by (intro exI [of _ j'] exI [of _ ks] exI [of _ ht']) simp
qed

lemma result_lines_step:
  "result_lines known subs (r # rs) =
     response_line (hd (client_bytes r)) (request_result known subs r) @ result_lines known (subs_after known subs r) rs"
  by (cases r) (simp_all add: request_bytes_def)

lemma exchanged_trans:
  "exchanged l j as bs j1 \<Longrightarrow> exchanged l j1 as' bs' j2 \<Longrightarrow> exchanged l j (as @ as') (bs @ bs') j2"
  by (simp add: exchanged_def)

text \<open>The end of the session: the disconnect is answered and both sides are through.\<close>

lemma disconnect_exchange:
  assumes "in_session l c j ht" and "c_world st = j" and "c_flags st = []"
    and "c_input st = ''DISCONNECT'' @ [newline] @ inp"
  shows "\<exists>j'. client_loop True (link_channel l) st = Some (Inr (0, st\<lparr>c_input := inp, c_world := j',
      c_printed := c_printed st @ response_line OP_CODE_DISCONNECT CHR ''0''\<rparr>)) \<and>
    s_over j' \<and> gone (l_client l) c (s_server j) (s_server j') \<and> sessions_ok (s_server j') \<and>
    w_in (s_world j') (fdReq c) = [] \<and> w_in (s_client j') (l_response l) = [] \<and>
    set (w_open (s_world j')) = set (w_open (s_world j)) - {fdReq c, fdNotif c, fdResp c} \<and>
    exchanged l j [OP_CODE_DISCONNECT] [OP_CODE_DISCONNECT, CHR ''0''] j'"
proof -
  note ready = assms(1) [unfolded in_session_def]
  let ?w = "s_world (sent l j [OP_CODE_DISCONNECT])"
  have w: "session_ready (s_server j) ?w (l_client l) c" "w_in ?w (fdReq c) = OP_CODE_DISCONNECT # []"
    "w_out ?w = w_out (s_world j)" "w_open ?w = w_open (s_world j)"
    using ready by (simp_all add: sent_def session_ready_arrives) (simp_all add: arrives_def)
  obtain s' w' where turn: "session_turn False (Some (l_client l)) False (s_server j) ?w = Inr (True, False, s', w')"
    and s': "sessions_ok s'" "gone (l_client l) c (s_server j) s'"
      "w_out w' (fdResp c) = w_out (s_world j) (fdResp c) @ [OP_CODE_DISCONNECT, CHR ''0'']" "w_in w' (fdReq c) = []"
      "set (w_open w') = set (w_open (s_world j)) - {fdReq c, fdNotif c, fdResp c}"
    using session_last_step [OF w(1,2)] unfolding w(3,4) by blast
  have waits: "request_waits [OP_CODE_DISCONNECT]" by (simp add: request_waits_def protocol_codes)
  obtain j' where j': "link_respond l (sent l j [OP_CODE_DISCONNECT]) OP_CODE_DISCONNECT =
      Some (0, Some CHR ''0'', response_line OP_CODE_DISCONNECT CHR ''0'', j')"
    "s_server j' = s'" "s_world j' = w'" "s_over j'" "w_in (s_client j') (l_response l) = []"
    "exchanged l j [OP_CODE_DISCONNECT] [OP_CODE_DISCONNECT, CHR ''0''] j'"
    using link_respond_run [OF assms(1) _ waits turn s'(3,4)] by blast
  have "send (link_channel l) (c_world st) [OP_CODE_DISCONNECT] = (1, sent l j [OP_CODE_DISCONNECT])"
    using ready assms(2) by (simp add: link_channel_def link_send_sent)
  from client_disconnect_step [OF assms(3,4) this] have "client_loop True (link_channel l) st =
      Some (Inr (0, st\<lparr>c_input := inp, c_world := j',
        c_printed := c_printed st @ response_line OP_CODE_DISCONNECT CHR ''0''\<rparr>))"
    using j'(1) by (simp add: link_channel_def)
  then show ?thesis using s' j'(2-6) by (intro exI [of _ j']) simp
qed

lemma session_exchange:
  assumes "in_session l c j ht" and "c_world st = j" and "c_flags st = []" and "length (c_word st) = 40"
    and "\<forall>r \<in> set reqs. proper_key (request_key r) \<and> plain (request_key r)"
    and "c_input st = session_text reqs @ inp"
  shows "\<exists>j'. client_loop True (link_channel l) st = Some (Inr (0, st\<lparr>c_input := inp, c_world := j',
      c_printed := c_printed st @ result_lines (\<lambda>k. kvs_map ht k \<noteq> None) (client_subs (fdNotif c) ht) reqs\<rparr>)) \<and>
    s_over j' \<and> gone (l_client l) c (s_server j) (s_server j') \<and> sessions_ok (s_server j') \<and>
    w_in (s_world j') (fdReq c) = [] \<and> w_in (s_client j') (l_response l) = [] \<and>
    set (w_open (s_world j')) = set (w_open (s_world j)) - {fdReq c, fdNotif c, fdResp c} \<and>
    exchanged l j (session_input reqs) (responses (\<lambda>k. kvs_map ht k \<noteq> None) (client_subs (fdNotif c) ht) reqs) j'"
  using assms
proof (induction reqs arbitrary: c j ht st)
  case Nil
  then show ?case using disconnect_exchange [OF Nil(1-3)] by (simp add: session_text_def session_input_def)
next
  case (Cons r reqs)
  let ?known = "\<lambda>k. kvs_map ht k \<noteq> None" and ?S = "client_subs (fdNotif c) ht"
  let ?line = "response_line (hd (client_bytes r)) (request_result ?known ?S r)"
  have key: "proper_key (request_key r)" "plain (request_key r)" using Cons.prems(5) by simp_all
  obtain j1 ks ht1 where j1: "answered (link_channel l) j r ?line j1"
    "in_session l (c\<lparr>subscriptions := ks\<rparr>) j1 ht1" "kvs_map ht1 = kvs_map ht"
    "client_subs (fdNotif c) ht1 = subs_after ?known ?S r"
    "\<And>k. removeAll (fdNotif c) (subscribers ht1 k) = removeAll (fdNotif c) (subscribers ht k)"
    "w_open (s_world j1) = w_open (s_world j)"
    "exchanged l j (client_bytes r) [hd (client_bytes r), request_result ?known ?S r] j1"
    using request_exchange [OF Cons.prems(1) key(1)] by blast
  let ?st = "st\<lparr>c_input := session_text reqs @ inp, c_world := j1, c_printed := c_printed st @ ?line\<rparr>"
  have step: "client_loop True (link_channel l) st = client_loop True (link_channel l) ?st"
    by (rule client_request_step [OF Cons.prems(3,4) key(2)])
      (use Cons.prems(2,6) j1(1) in \<open>simp_all add: session_text_def\<close>)
  let ?lines = "result_lines (\<lambda>k. kvs_map ht1 k \<noteq> None) (client_subs (fdNotif (c\<lparr>subscriptions := ks\<rparr>)) ht1) reqs"
  obtain j' where j': "client_loop True (link_channel l) ?st = Some (Inr (0, ?st\<lparr>c_input := inp, c_world := j',
      c_printed := c_printed ?st @ ?lines\<rparr>))"
    "s_over j'" "gone (l_client l) (c\<lparr>subscriptions := ks\<rparr>) (s_server j1) (s_server j')" "sessions_ok (s_server j')"
    "w_in (s_world j') (fdReq c) = []" "w_in (s_client j') (l_response l) = []"
    "set (w_open (s_world j')) = set (w_open (s_world j)) - {fdReq c, fdNotif c, fdResp c}"
    "exchanged l j1 (session_input reqs) (responses ?known (subs_after ?known ?S r) reqs) j'"
    using Cons.IH [OF j1(2), of ?st] Cons.prems(3-5) j1(3,4,6) by auto
  have tables: "kvs_table (s_server j) = Table ht" "kvs_table (s_server j1) = Table ht1"
    using Cons.prems(1) j1(2) by (simp_all add: in_session_def)
  have "gone (l_client l) c (s_server j) (s_server j')" by (rule gone_trans [OF tables j1(3,5) j'(3)])
  moreover have "exchanged l j (session_input (r # reqs)) (responses ?known ?S (r # reqs)) j'"
    using exchanged_trans [OF j1(7) j'(8)] unfolding responses_step by (simp add: session_input_def)
  ultimately show ?case
    using step j'(1,2,4-7) j1(3,4) by (intro exI [of _ j']) (simp add: result_lines_step del: result_lines.simps)
qed

text \<open>A client that waits before it has sent its request waits forever.\<close>

lemma nothing_sent_nothing_comes:
  assumes "in_session l c j ht"
  shows "link_respond l j opcode = None"
proof -
  have "w_in (s_world j) (l_fdReq l) = []" "w_in (s_client j) (l_response l) = []" "\<not> s_over j"
    using assms by (simp_all add: in_session_def)
  then show ?thesis by (simp add: link_respond_def)
qed

definition link_of :: "int \<Rightarrow> int \<Rightarrow> nat \<Rightarrow> client \<Rightarrow> link" where
  "link_of rq rs p c =
     \<lparr>l_request = rq, l_response = rs, l_client = p, l_fdReq = fdReq c, l_fdResp = fdResp c\<rparr>"

definition join_processes :: "world \<Rightarrow> server \<Rightarrow> world \<Rightarrow> joined" where
  "join_processes cw s w = \<lparr>s_client = cw, s_server = s, s_world = w, s_error = False, s_over = False\<rparr>"

text \<open>
  C5: A whole session on both sides, joined by two pipes that are empty at the start: the client
  program, given only the text of any list of subscribe and unsubscribe commands and a disconnect,
  and the session thread of the server, given only what the client writes, never wait for each
  other in vain, where a read waits until its bytes have come. The client reads its whole input,
  prints the results of the abstract specification and returns 0; each side has written exactly
  the bytes of the specification and consumed every byte of the other; the session is over, and
  the server has forgotten the client and closed its pipes.
\<close>

theorem client_session_agrees:
  assumes "session_ready s w p c" and "kvs_table s = Table ht" and "w_in w (fdReq c) = []"
    and "healthy cw rq" and "rs \<in> set (w_open cw)" and "w_rsched cw rs = []" and "w_in cw rs = []"
    and "\<forall>r \<in> set reqs. proper_key (request_key r) \<and> plain (request_key r)"
    and "c_input st = session_text reqs" and "c_world st = join_processes cw s w" and "c_flags st = []"
    and "length (c_word st) = 40"
  shows "\<exists>st' j. client_loop True (link_channel (link_of rq rs p c)) st = Some (Inr (0, st')) \<and>
    c_world st' = j \<and> c_input st' = [] \<and>
    c_printed st' = c_printed st @ result_lines (\<lambda>k. kvs_map ht k \<noteq> None) (client_subs (fdNotif c) ht) reqs \<and>
    s_over j \<and> gone p c s (s_server j) \<and> sessions_ok (s_server j) \<and>
    w_out (s_client j) rq = w_out cw rq @ session_input reqs \<and> w_in (s_world j) (fdReq c) = [] \<and>
    w_out (s_world j) (fdResp c) = w_out w (fdResp c) @
      responses (\<lambda>k. kvs_map ht k \<noteq> None) (client_subs (fdNotif c) ht) reqs \<and>
    w_in (s_client j) rs = [] \<and>
    set (w_open (s_world j)) = set (w_open w) - {fdReq c, fdNotif c, fdResp c}"
proof -
  let ?l = "link_of rq rs p c" and ?j = "join_processes cw s w"
  have ready: "in_session ?l c ?j ht"
    using assms(1-7) by (simp add: in_session_def link_of_def join_processes_def)
  have inp: "c_input st = session_text reqs @ []" using assms(9) by simp
  obtain j' where run: "client_loop True (link_channel ?l) st = Some (Inr (0, st\<lparr>c_input := [], c_world := j',
      c_printed := c_printed st @ result_lines (\<lambda>k. kvs_map ht k \<noteq> None) (client_subs (fdNotif c) ht) reqs\<rparr>))"
    "s_over j'" "gone (l_client ?l) c (s_server ?j) (s_server j')" "sessions_ok (s_server j')"
    "w_in (s_world j') (fdReq c) = []" "w_in (s_client j') (l_response ?l) = []"
    "set (w_open (s_world j')) = set (w_open (s_world ?j)) - {fdReq c, fdNotif c, fdResp c}"
    "exchanged ?l ?j (session_input reqs) (responses (\<lambda>k. kvs_map ht k \<noteq> None) (client_subs (fdNotif c) ht) reqs) j'"
    using session_exchange [OF ready assms(10-12,8) inp] by blast
  then show ?thesis
    by (intro exI [of _ "st\<lparr>c_input := [], c_world := j', c_printed := c_printed st @
        result_lines (\<lambda>k. kvs_map ht k \<noteq> None) (client_subs (fdNotif c) ht) reqs\<rparr>"] exI [of _ j'])
      (simp add: exchanged_def link_of_def join_processes_def)
qed

subsection \<open>An instance\<close>

definition sample_joined :: "string \<Rightarrow> joined client_main" where
  "sample_joined inp =
     \<lparr>c_input = inp, c_world = join_processes quiet_world sample_server session_world, c_printed = [],
      c_flags = [], c_word = replicate 40 NUL\<rparr>"

theorem client_session_agrees_witness:
  "\<exists>st'. client_loop True (link_channel (link_of 1 0 0 sample_client))
      (sample_joined (concat [''SUBSCRIBE [b]'', [newline], ''UNSUBSCRIBE [a]'', [newline], ''DISCONNECT'', [newline]])) =
      Some (Inr (0, st')) \<and>
    c_printed st' = concat [''Server returned 0 for operation: subscribe'', [newline],
      ''Server returned 0 for operation: unsubscribe'', [newline],
      ''Server returned 0 for operation: disconnect'', [newline]] \<and>
    s_over (c_world st') \<and> w_out (s_world (c_world st')) 6 = ''304020''"
proof -
  let ?reqs = "[Subscribe ''b'', Unsubscribe ''a'']"
  have ready: "session_ready sample_server session_world 0 sample_client"
    by (simp add: session_ready_def calm_def healthy_def session_world_def quiet_world_def)
  have keys: "\<forall>r \<in> set ?reqs. proper_key (request_key r) \<and> plain (request_key r)"
    by (simp add: proper_key_def MAX_STRING_SIZE_def plain_word)
  have inp: "c_input (sample_joined (concat [''SUBSCRIBE [b]'', [newline], ''UNSUBSCRIBE [a]'', [newline],
      ''DISCONNECT'', [newline]])) = session_text ?reqs"
    by (simp add: sample_joined_def session_text_def)
  have env: "w_in session_world (fdReq sample_client) = []" "healthy quiet_world 1" "0 \<in> set (w_open quiet_world)"
    "w_rsched quiet_world 0 = []" "w_in quiet_world 0 = []" "w_out session_world 6 = []"
    by (simp_all add: session_world_def quiet_world_def healthy_def)
  from client_session_agrees [OF ready sample_server_facts(1) env(1-5) keys inp]
  show ?thesis
    by (auto simp: sample_joined_def client_subs_def protocol_codes response_line_def op_name_def env(6))
qed

end
