(* ===== verification/Notifications.thy ===== *)
theory Notifications
  imports Kvs ClientApi
begin

section \<open>A notification from the table to the screen of a subscriber\<close>

text \<open>
  The properties that join the hash table and the notification thread of the client, and those of a
  table whose environment is not calm: allocations that fail while values are replaced.
\<close>

definition short_text :: "string \<Rightarrow> bool" where
  "short_text s \<longleftrightarrow> length s < KEY_MESSAGE_SIZE \<and> NUL \<notin> set s"

lemma notification_message:
  assumes "short_text k" and "short_text v"
  shows "message (take KEY_MESSAGE_SIZE (notification w k v), drop KEY_MESSAGE_SIZE (notification w k v))"
    and "notif_text (take KEY_MESSAGE_SIZE (notification w k v), drop KEY_MESSAGE_SIZE (notification w k v)) =
      ''('' @ k @ '','' @ v @ '')'' @ [newline]"
proof -
  have nul: "NUL \<in> set (mem_bytes (w_after w s) s KEY_MESSAGE_SIZE)" if short: "short_text s" for s
  proof -
    obtain a where "mem_bytes (w_after w s) s KEY_MESSAGE_SIZE = s @ NUL # a"
      using mem_bytes_split short unfolding short_text_def by meson
    then show ?thesis by simp
  qed
  show "message (take KEY_MESSAGE_SIZE (notification w k v), drop KEY_MESSAGE_SIZE (notification w k v))"
    using nul assms by (simp add: message_def notification_def)
  show "notif_text (take KEY_MESSAGE_SIZE (notification w k v), drop KEY_MESSAGE_SIZE (notification w k v)) =
      ''('' @ k @ '','' @ v @ '')'' @ [newline]"
    using assms notification_decodes [of k v w] by (simp add: notif_text_def short_text_def)
qed

text \<open>What a client prints that reads one notification from its pipe, which is then closed.\<close>

lemma notification_printed:
  assumes "short_text k" and "short_text v" and "nf \<in> set (w_open u)" and "w_rsched u nf = []"
  shows "process_notif_thread 2 (rq, rs, nf) (u\<lparr>w_in := (w_in u)(nf := notification w k v)\<rparr>) =
    Some (Inr (''('' @ k @ '','' @ v @ '')'' @ [newline],
      terminate_pipes (u\<lparr>w_in := (w_in u)(nf := [])\<rparr>) rq rs nf))"
proof -
  let ?m = "(take KEY_MESSAGE_SIZE (notification w k v), drop KEY_MESSAGE_SIZE (notification w k v))"
  have "notif_loop 2 (rq, rs, nf) False (replicate KEY_MESSAGE_SIZE None) (replicate KEY_MESSAGE_SIZE None) []
      (u\<lparr>w_in := (w_in u)(nf := notification w k v)\<rparr>) =
    Some (Inr ([] @ concat (map notif_text [?m]), terminate_pipes ((u\<lparr>w_in := (w_in u)(nf := notification w k v)\<rparr>)
      \<lparr>w_in := (w_in (u\<lparr>w_in := (w_in u)(nf := notification w k v)\<rparr>))(nf := [])\<rparr>) rq rs nf))"
    by (rule notif_loop_messages) (use assms notification_message [OF assms(1,2)] in simp_all)
  then show ?thesis
    using notification_message(2) [OF assms(1,2)] by (simp add: process_notif_thread_def)
qed

lemma sound_node:
  assumes "sound_table ht" and "node_of ht k = Some n"
  shows "distinct (nsubs n)"
  using wf_node assms by (auto simp: sound_table_def)


text \<open>
  Deleting a key sends every healthy subscriber a notification that the client prints as the key
  with the word DELETE, and the key loses its value and its subscribers.
\<close>

theorem delete_notifies_subscribers:
  assumes "sound_table ht" and "valid_key k" and "short_text k"
    and "fd \<in> set (subscribers ht k)" and "healthy w fd"
    and "w_out w fd = []" and "nf \<in> set (w_open u)" and "w_rsched u nf = []"
  shows "\<exists>ht' w'. delete_pair ht k w = Inr (0, ht', w') \<and> kvs_map ht' k = None \<and>
    subscribers ht' k = [] \<and>
    process_notif_thread 2 (rq, rs, nf) (u\<lparr>w_in := (w_in u)(nf := w_out w' fd)\<rparr>) =
      Some (Inr (''('' @ k @ '',DELETE)'' @ [newline],
        terminate_pipes (u\<lparr>w_in := (w_in u)(nf := [])\<rparr>) rq rs nf))"
proof -
  have wf: "wf_table ht" using assms(1) by (simp add: sound_table_def)
  have d: "short_text ''DELETE''" by (simp add: short_text_def KEY_MESSAGE_SIZE_def)
  from wf assms(2) show ?thesis
  proof (cases rule: delete_pair_cases [of ht k w])
    case (deleted n ht')
    have subs: "subscribers ht k = nsubs n" using deleted(1) by (simp add: subscribers_def)
    have "w_out (notify_loop w (nsubs n) k ''DELETE'') fd = notification w k ''DELETE''"
      using notify_loop_out [OF sound_node [OF assms(1) deleted(1)], of w fd k "''DELETE''"] assms(4-6) subs
      by simp
    moreover have "kvs_map ht' k = None" "subscribers ht' k = []"
      using deleted(4) by (simp_all add: kvs_map_def subscribers_def)
    ultimately show ?thesis
      using deleted(2) notification_printed [OF assms(3) d assms(7,8), of rq rs w] by simp
  qed (use assms(4) in \<open>simp add: subscribers_def\<close>)
qed
subsection \<open>A table whose allocations fail\<close>

lemma subscribers_cong: "node_of ht' = (node_of ht)(k \<mapsto> n\<lparr>nvalue := v\<rparr>) \<Longrightarrow> node_of ht k = Some n \<Longrightarrow>
    subscribers ht' = subscribers ht"
  by (auto simp: subscribers_def fun_eq_iff)

text \<open>
  C25: Whatever allocations or writes fail, writing and deleting a valid key return, keep 26
  buckets with every node in its bucket and no key or subscriber twice, and touch no other key; a
  write that reports failure leaves the table as it was, and no write changes a subscription.
\<close>

theorem table_survives_failures:
  assumes "wf_table ht" and "valid_key k"
  shows "(\<exists>r ht' w'. write_pair ht k v w = Inr (r, ht', w') \<and> wf_table ht' \<and> (r = 0 \<or> r = 1 \<and> ht' = ht) \<and>
      (r = 0 \<longrightarrow> node_of ht' k \<noteq> None) \<and> (\<forall>j. j \<noteq> k \<longrightarrow> node_of ht' j = node_of ht j) \<and>
      subscribers ht' = subscribers ht) \<and>
    (\<exists>r ht' w'. delete_pair ht k w = Inr (r, ht', w') \<and> wf_table ht' \<and>
      (r = 1 \<longleftrightarrow> node_of ht k = None) \<and> node_of ht' = (node_of ht)(k := None))"
proof
  from assms show "\<exists>r ht' w'. write_pair ht k v w = Inr (r, ht', w') \<and> wf_table ht' \<and>
      (r = 0 \<or> r = 1 \<and> ht' = ht) \<and> (r = 0 \<longrightarrow> node_of ht' k \<noteq> None) \<and>
      (\<forall>j. j \<noteq> k \<longrightarrow> node_of ht' j = node_of ht j) \<and> subscribers ht' = subscribers ht"
  proof (cases rule: write_pair_cases [of ht k w v])
    case (updated n ok w1 ht')
    then show ?thesis by (auto simp: subscribers_cong)
  next
    case (inserted ht' w')
    then show ?thesis by (auto simp: subscribers_def fun_eq_iff)
  next
    case (no_memory w')
    then show ?thesis using assms(1) by auto
  qed
  from assms show "\<exists>r ht' w'. delete_pair ht k w = Inr (r, ht', w') \<and> wf_table ht' \<and>
      (r = 1 \<longleftrightarrow> node_of ht k = None) \<and> node_of ht' = (node_of ht)(k := None)"
    by (cases rule: delete_pair_cases [of ht k w]) (use assms(1) in \<open>auto simp: fun_upd_idem\<close>)
qed

text \<open>
  C37: When the copy of a new value cannot be allocated, writing an existing key reports success,
  the key has lost its value, and the next read of the key follows a null pointer.
\<close>

theorem failed_copy_loses_value:
  assumes "wf_table ht" and "valid_key k" and "node_of ht k \<noteq> None" and "w_allocs w = False # rest"
  shows "\<exists>ht' w'. write_pair ht k v w = Inr (0, ht', w') \<and> wf_table ht' \<and> kvs_map ht' k = None \<and>
    read_pair ht' k u = Inl NullDeref"
proof -
  from assms(1,2) show ?thesis
  proof (cases rule: write_pair_cases [of ht k w v])
    case (updated n ok w1 ht')
    have "\<not> ok" using updated(2) assms(4) by (simp add: alloc_def)
    then show ?thesis using updated assms(2) by (simp add: read_pair_eq kvs_map_def)
  qed (use assms(3) in simp_all)
qed

definition key_ranges :: "(char \<times> char) list" where
  "key_ranges = [(CHR ''0'', CHR ''9''), (CHR ''A'', CHR ''Z''), (CHR ''a'', CHR ''z'')]"

fun key_start :: "string \<Rightarrow> bool" where
  "key_start [] = False"
| "key_start (c # cs) = list_ex (\<lambda>(first, last). first \<le> c \<and> c \<le> last) key_ranges"

lemma valid_key_start: "valid_key k = key_start k"
  by (cases k) (auto simp: key_ranges_def valid_key_def hash_def char_at_def tolower_def char_le_iff Let_def)

text \<open>
  C33: The hash of a key is between -1 and 25; it is not negative exactly when the key starts with
  a letter or a digit, and for every other key, the empty one included, writing, reading and
  deleting index the table with -1.
\<close>

theorem keys_and_buckets:
  "- 1 \<le> hash k \<and> hash k < int TABLE_SIZE \<and>
   (if key_start k then 0 \<le> hash k
    else write_pair ht k v w = Inl OutOfBounds \<and> read_pair ht k w = Inl OutOfBounds \<and>
      delete_pair ht k w = Inl OutOfBounds)"
  unfolding valid_key_start [symmetric]
  using hash_bounds [of k]
  by (simp add: valid_key_def write_pair_def read_pair_def delete_pair_def)

subsection \<open>Instances\<close>

definition notify_world :: world where
  "notify_world = quiet_world\<lparr>w_open := [0, 1, 2, 7], w_after := (\<lambda>_ _. CHR ''?'')\<rparr>"

lemma notify_world_facts [simp]:
  "calm notify_world" "healthy notify_world fd \<longleftrightarrow> fd \<in> {0, 1, 2, 7}" "w_out notify_world fd = []"
  by (auto simp: notify_world_def calm_def healthy_def quiet_world_def)

lemma sample_short: "length s < 41 \<Longrightarrow> NUL \<notin> set s \<Longrightarrow> short_text s"
  by (simp add: short_text_def KEY_MESSAGE_SIZE_def)

text \<open>A key with two subscribers, the first of which has a pipe that is closed.\<close>

definition shared_key_table :: hash_table where
  "shared_key_table =
     sample_table\<lparr>buckets := [\<lparr>nkey = ''a'', nvalue = Some ''1'', nsubs = [9, 7]\<rparr>] # replicate 25 []\<rparr>"

lemma shared_key_table_facts: "sound_table shared_key_table" "subscribers shared_key_table ''a'' = [9, 7]"
  by code_simp+


theorem delete_notifies_subscribers_witness:
  "\<exists>ht' w' u'. delete_pair sample_table ''a'' notify_world = Inr (0, ht', w') \<and>
    process_notif_thread 2 (1, 2, 0) (quiet_world\<lparr>w_in := (w_in quiet_world)(0 := w_out w' 7)\<rparr>) =
      Some (Inr (''(a,DELETE)'' @ [newline], u'))"
  using delete_notifies_subscribers [of sample_table "''a''" 7 notify_world 0 quiet_world 1 2]
  by (auto simp: sample_short valid_key_ConsI quiet_world_def)

theorem table_survives_failures_witness:
  "\<exists>r ht' w'. write_pair sample_table ''b'' ''2'' (quiet_world\<lparr>w_allocs := [True, False]\<rparr>) = Inr (r, ht', w') \<and>
    wf_table ht' \<and> subscribers ht' = subscribers sample_table"
  using table_survives_failures [of sample_table "''b''" "''2''" "quiet_world\<lparr>w_allocs := [True, False]\<rparr>"]
  by (auto simp: valid_key_ConsI)

theorem failed_copy_loses_value_witness:
  "\<exists>ht' w'. write_pair sample_table ''a'' ''2'' (quiet_world\<lparr>w_allocs := [False]\<rparr>) = Inr (0, ht', w') \<and>
    read_pair ht' ''a'' quiet_world = Inl NullDeref"
proof -
  have "node_of sample_table ''a'' \<noteq> None"
    using kvs_map_None [OF sample_table_sound, of "''a''"] by auto
  then show ?thesis
    using failed_copy_loses_value [of sample_table "''a''" "quiet_world\<lparr>w_allocs := [False]\<rparr>" "[]" "''2''"
        quiet_world]
    by (auto simp: valid_key_ConsI)
qed

end
