(* ===== verification/NotifyRace.thy ===== *)
theory NotifyRace
  imports Notifications Locks
begin

section \<open>Notifications of several threads on one pipe\<close>

text \<open>
  A notification is two calls of \<open>write_all\<close>, one for the key and one for the value, and the only
  lock a thread holds around them is the one of the buckets of its command. This theory lets the
  threads of several WRITE commands take their locks and make their calls in any order, and asks
  what a client finds in its notification pipe.
\<close>

type_synonym call = "int \<times> string" \<comment> \<open>descriptor and string\<close>

text \<open>The calls of \<open>notify_subscribers\<close> in their order, and the effect of one of them.\<close>

fun notify_calls :: "int list \<Rightarrow> string \<Rightarrow> string \<Rightarrow> call list" where
  "notify_calls [] key val = []"
| "notify_calls (fd # fds) key val =
     (fd, key) # (fd, val) # notify_calls fds key val"

definition send_field :: "world \<Rightarrow> call \<Rightarrow> world" where
  "send_field w c =
     snd (write_all w (fst c) (mem_bytes (w_after w (snd c)) (snd c) KEY_MESSAGE_SIZE))"

lemma notify_loop_calls: "notify_loop w subs k v = foldl send_field w (notify_calls subs k v)"
  by (induction subs arbitrary: w) (simp_all add: send_field_def split_beta)

text \<open>The calls of a WRITE command, which notifies in the order of its sorted pairs.\<close>

definition command_calls :: "hash_table \<Rightarrow> (string \<times> string) list \<Rightarrow> call list" where
  "command_calls ht pairs =
     concat (map (\<lambda>p. notify_calls (subscribers ht (fst p)) (fst p) (snd p)) (qsort compare_pairs pairs))"

lemma write_pair_calls:
  assumes "wf_table ht" and "valid_key k" and "calm w"
  shows "\<exists>ht'. write_pair ht k v w = Inr (0, ht', foldl send_field w (notify_calls (subscribers ht k) k v)) \<and>
    wf_table ht' \<and> subscribers ht' = subscribers ht"
  using assms(1,2)
proof (cases rule: write_pair_cases [of ht k w v])
  case (updated n ok w1 ht')
  then show ?thesis
    using assms(3) subscribers_cong [of ht' ht k "Some v" n]
    by (auto simp: calm_def subscribers_def notify_loop_calls fun_eq_iff)
next
  case (inserted ht' w')
  have "write_existing (buckets ht ! nat (hash k)) k v w = None"
    using inserted(1) assms(2) by (simp add: write_existing_None node_of_bucket)
  then have "w' = w"
    using inserted(2) assms(3) by (simp add: write_pair_def calm_def Let_def split: if_splits)
  then show ?thesis using inserted by (auto simp: subscribers_def fun_eq_iff)
next
  case (no_memory w')
  then show ?thesis using assms(3) by (simp add: calm_def)
qed

lemma send_calm: "calm w \<Longrightarrow> calm (send_field w c)"
  by (cases "write_all w (fst c) (mem_bytes (w_after w (snd c)) (snd c) KEY_MESSAGE_SIZE)")
    (auto simp: send_field_def dest: write_all_only_writes intro: only_writes_calm)

lemma sends_calm: "calm w \<Longrightarrow> calm (foldl send_field w cs)"
  by (induction cs arbitrary: w) (simp_all add: send_calm)

text \<open>A command that runs alone makes the calls of \<open>command_calls\<close>, in this order.\<close>

lemma write_loop_calls:
  assumes "wf_table ht" and "\<forall>p \<in> set ps. valid_key (fst p)" and "calm w"
  shows "\<exists>ht'. write_loop write_pair ps (ht, w) = Inr (ht',
    foldl send_field w (concat (map (\<lambda>p. notify_calls (subscribers ht (fst p)) (fst p) (snd p)) ps)))"
  using assms
proof (induction ps arbitrary: ht w)
  case Nil
  then show ?case by (simp add: write_loop_def)
next
  case (Cons p ps)
  obtain k v where p: "p = (k, v)" by fastforce
  let ?w1 = "foldl send_field w (notify_calls (subscribers ht k) k v)"
  obtain ht1 where 1: "write_pair ht k v w = Inr (0, ht1, ?w1)" "wf_table ht1"
      "subscribers ht1 = subscribers ht"
    using write_pair_calls [of ht k w v] Cons.prems p by auto
  have "calm ?w1" using Cons.prems(3) by (rule sends_calm)
  then obtain ht' where "write_loop write_pair ps (ht1, ?w1) = Inr (ht', foldl send_field ?w1
      (concat (map (\<lambda>p. notify_calls (subscribers ht (fst p)) (fst p) (snd p)) ps)))"
    using Cons.IH [of ht1 ?w1] Cons.prems 1 by auto
  then show ?case using 1(1) p by (auto simp: write_loop_def)
qed

subsection \<open>The threads\<close>

text \<open>
  A thread that runs a WRITE command: its bucket locks (as in Locks) and the calls it has still to
  make. It makes them when it has all its locks, and unlocks when it has made them.
\<close>

record writer =
  locks :: thread
  to_send :: "call list"

definition start_writer :: "hash_table \<Rightarrow> (string \<times> string) list \<Rightarrow> writer" where
  "start_writer ht pairs =
     \<lparr>locks = start_thread (op_locks (WriteOp (map fst pairs))), to_send = command_calls ht pairs\<rparr>"

inductive write_step :: "writer list \<times> world \<Rightarrow> writer list \<times> world \<Rightarrow> bool" where
  lock: "i < length ts \<Longrightarrow> todo (locks (ts ! i)) = req # rest \<Longrightarrow> grantable (map locks ts) i req \<Longrightarrow>
    write_step (ts, w) (ts[i := (ts ! i)\<lparr>locks :=
      (locks (ts ! i))\<lparr>todo := rest, held := req # held (locks (ts ! i))\<rparr>\<rparr>], w)"
| send: "i < length ts \<Longrightarrow> todo (locks (ts ! i)) = [] \<Longrightarrow> held (locks (ts ! i)) \<noteq> [] \<Longrightarrow>
    to_send (ts ! i) = c # rest \<Longrightarrow>
    write_step (ts, w) (ts[i := (ts ! i)\<lparr>to_send := rest\<rparr>], send_field w c)"
| unlock: "i < length ts \<Longrightarrow> todo (locks (ts ! i)) = [] \<Longrightarrow> held (locks (ts ! i)) \<noteq> [] \<Longrightarrow>
    to_send (ts ! i) = [] \<Longrightarrow>
    write_step (ts, w) (ts[i := (ts ! i)\<lparr>locks := (locks (ts ! i))\<lparr>held := []\<rparr>\<rparr>], w)"

definition all_sent :: "writer list \<Rightarrow> bool" where
  "all_sent ts \<longleftrightarrow> (\<forall>t \<in> set ts. todo (locks t) = [] \<and> held (locks t) = [] \<and> to_send t = [])"

text \<open>The locks of the threads move as in Locks, so what is proved there holds here.\<close>

lemma write_step_locks:
  assumes "write_step (ts, w) (ts', w')"
  shows "lock_step (map locks ts) (map locks ts') \<or> map locks ts' = map locks ts"
  using assms
proof (cases rule: write_step.cases)
  case (lock i req rest)
  then show ?thesis
    using lock_step.acquire [of i "map locks ts" req rest] by (simp add: map_update)
next
  case (send i c rest)
  then show ?thesis by (simp add: map_update list_update_same_conv)
next
  case (unlock i)
  then show ?thesis
    using lock_step.release [of i "map locks ts"] by (simp add: map_update)
qed

lemma write_step_exclusive:
  "write_step (ts, w) (ts', w') \<Longrightarrow> exclusive (map locks ts) \<Longrightarrow> exclusive (map locks ts')"
  using write_step_locks lock_step_exclusive by metis

subsection \<open>Commands that share a bucket take turns\<close>

text \<open>
  Thread i in a run of threads that all want to write bucket b: it is over, or it is the one whose
  turn it is and has made the calls \<open>sent\<close>, or it has made no call.
\<close>

definition place :: "nat \<Rightarrow> nat list \<Rightarrow> nat \<Rightarrow> call list \<Rightarrow> nat \<Rightarrow> call list \<Rightarrow> writer \<Rightarrow> bool" where
  "place b order cur sent i cs t \<longleftrightarrow>
     (if i \<in> set order then todo (locks t) = [] \<and> held (locks t) = [] \<and> to_send t = []
      else if i = cur then (True, b) \<in> set (held (locks t)) \<and> cs = sent @ to_send t
      else (True, b) \<in> set (todo (locks t)) \<union> set (held (locks t)) \<and> cs = to_send t)"

definition turn :: "nat \<Rightarrow> call list list \<Rightarrow> nat list \<Rightarrow> nat \<Rightarrow> call list \<Rightarrow> writer list \<Rightarrow> bool" where
  "turn b cs order cur sent ts \<longleftrightarrow> length ts = length cs \<and> distinct order \<and>
     set order \<subseteq> {..<length cs} \<and> (cur < length cs \<and> cur \<notin> set order \<or> sent = []) \<and>
     (\<forall>i < length cs. place b order cur sent i (cs ! i) (ts ! i))"

lemma exclusive_holder:
  assumes "exclusive ts" and "(True, b) \<in> set (held (ts ! i))" and "(m, b) \<in> set (held (ts ! j))"
    and "i < length ts" and "j < length ts"
  shows "i = j"
  using assms unfolding exclusive_def by meson

lemma turn_place: "turn b cs order cur sent ts \<Longrightarrow> i < length ts \<Longrightarrow> place b order cur sent i (cs ! i) (ts ! i)"
  by (simp add: turn_def)

lemma turn_update:
  assumes "turn b cs order cur sent ts" and "i < length ts" and "distinct order'"
    and "set order' \<subseteq> {..<length cs}" and "cur' < length cs \<and> cur' \<notin> set order' \<or> sent' = []"
    and "place b order' cur' sent' i (cs ! i) t"
    and "\<And>j. j < length ts \<Longrightarrow> j \<noteq> i \<Longrightarrow> place b order cur sent j (cs ! j) (ts ! j) \<Longrightarrow>
      place b order' cur' sent' j (cs ! j) (ts ! j)"
  shows "turn b cs order' cur' sent' (ts[i := t])"
proof -
  have n: "length ts = length cs" using assms(1) by (simp add: turn_def)
  have "place b order' cur' sent' j (cs ! j) (ts[i := t] ! j)" if j: "j < length cs" for j
    using assms(6) assms(7) [of j] turn_place [OF assms(1), of j] j n assms(2)
    by (cases "j = i") simp_all
  then show ?thesis using assms(3-5) n by (simp add: turn_def)
qed

lemma turn_lock:
  assumes "turn b cs order cur sent ts" and "i < length ts" and "todo (locks (ts ! i)) = req # rest"
  shows "turn b cs order cur sent (ts[i := (ts ! i)\<lparr>locks :=
      (locks (ts ! i))\<lparr>todo := rest, held := req # held (locks (ts ! i))\<rparr>\<rparr>])"
proof (rule turn_update [OF assms(1,2)])
  show "place b order cur sent i (cs ! i) ((ts ! i)\<lparr>locks :=
      (locks (ts ! i))\<lparr>todo := rest, held := req # held (locks (ts ! i))\<rparr>\<rparr>)"
    using turn_place [OF assms(1,2)] assms(3) by (auto simp: place_def split: if_splits)
qed (use assms(1) in \<open>simp_all add: turn_def\<close>)

lemma turn_send:
  assumes "turn b cs order cur sent ts" and "exclusive (map locks ts)" and "i < length ts"
    and "todo (locks (ts ! i)) = []" and "held (locks (ts ! i)) \<noteq> []" and "to_send (ts ! i) = c # rest"
  shows "turn b cs order i (sent @ [c]) (ts[i := (ts ! i)\<lparr>to_send := rest\<rparr>])"
proof -
  have p: "place b order cur sent i (cs ! i) (ts ! i)" using turn_place [OF assms(1,3)] .
  have i: "i \<notin> set order" "i < length cs" "(True, b) \<in> set (held (locks (ts ! i)))"
    using p assms(1,3-5) by (simp_all add: place_def turn_def split: if_splits)
  have sent: "sent = []" if other: "cur \<noteq> i"
  proof (rule ccontr)
    assume "sent \<noteq> []"
    then have cur: "cur < length ts" "cur \<notin> set order" using assms(1) by (auto simp: turn_def)
    then have "(True, b) \<in> set (held (locks (ts ! cur)))"
      using turn_place [OF assms(1) cur(1)] by (simp add: place_def)
    then show False
      using exclusive_holder [OF assms(2), where i = cur and b = b and j = i and m = True] assms(3) i(3) cur(1) other by simp
  qed
  show ?thesis
  proof (rule turn_update [OF assms(1,3)])
    show "place b order i (sent @ [c]) i (cs ! i) ((ts ! i)\<lparr>to_send := rest\<rparr>)"
      using p i assms(6) sent by (auto simp: place_def split: if_splits)
    show "place b order i (sent @ [c]) j (cs ! j) (ts ! j)"
      if "j \<noteq> i" "place b order cur sent j (cs ! j) (ts ! j)" for j
      using that sent by (auto simp: place_def split: if_splits)
  qed (use assms(1) i in \<open>auto simp: turn_def\<close>)
qed

lemma turn_unlock:
  assumes "turn b cs order cur sent ts" and "i < length ts"
    and "todo (locks (ts ! i)) = []" and "held (locks (ts ! i)) \<noteq> []" and "to_send (ts ! i) = []"
  defines "sent' \<equiv> if i = cur then [] else sent"
  shows "turn b cs (order @ [i]) cur sent' (ts[i := (ts ! i)\<lparr>locks := (locks (ts ! i))\<lparr>held := []\<rparr>\<rparr>])"
    and "concat (map ((!) cs) (order @ [i])) @ sent' = concat (map ((!) cs) order) @ sent"
proof -
  have p: "place b order cur sent i (cs ! i) (ts ! i)" using turn_place [OF assms(1,2)] .
  have i: "i \<notin> set order" "i < length cs"
    using p assms(1,2,4) by (simp_all add: place_def turn_def split: if_splits)
  show "turn b cs (order @ [i]) cur sent' (ts[i := (ts ! i)\<lparr>locks := (locks (ts ! i))\<lparr>held := []\<rparr>\<rparr>])"
    by (rule turn_update [OF assms(1,2)])
      (use assms(1,3,5) i in \<open>auto simp: turn_def place_def sent'_def\<close>)
  show "concat (map ((!) cs) (order @ [i])) @ sent' = concat (map ((!) cs) order) @ sent"
    using p i(1) assms(5) by (auto simp: place_def sent'_def split: if_splits)
qed

text \<open>The invariant of a run: one command after the other, the last one perhaps half way.\<close>

lemma turns_invariant:
  assumes "write_step\<^sup>*\<^sup>* (ts0, w0) (ts, w)" and "turn b cs [] (length cs) [] ts0"
    and "exclusive (map locks ts0)"
  shows "exclusive (map locks ts) \<and> (\<exists>order cur sent. turn b cs order cur sent ts \<and>
    w = foldl send_field w0 (concat (map ((!) cs) order) @ sent))"
  using assms(1)
proof (induction rule: rtranclp_induct2)
  case refl
  then show ?case using assms(2,3) by force
next
  case (step ts1 w1 ts2 w2)
  then obtain order cur sent where ex: "exclusive (map locks ts1)" and
    t: "turn b cs order cur sent ts1" "w1 = foldl send_field w0 (concat (map ((!) cs) order) @ sent)"
    by blast
  have ex2: "exclusive (map locks ts2)" using write_step_exclusive [OF step.hyps(2) ex] .
  from step.hyps(2) show ?case
  proof (cases rule: write_step.cases)
    case (lock i req rest)
    then show ?thesis using turn_lock [OF t(1), of i req rest] t(2) ex2 by blast
  next
    case (send i c rest)
    then have "turn b cs order i (sent @ [c]) ts2" using turn_send [OF t(1) ex, of i c rest] by blast
    moreover have "w2 = foldl send_field w0 (concat (map ((!) cs) order) @ sent @ [c])"
      using send t(2) by simp
    ultimately show ?thesis using ex2 by blast
  next
    case (unlock i)
    then have u: "turn b cs (order @ [i]) cur (if i = cur then [] else sent) ts2"
      "concat (map ((!) cs) (order @ [i])) @ (if i = cur then [] else sent) =
        concat (map ((!) cs) order) @ sent"
      using turn_unlock [OF t(1), of i] by blast+
    have "w2 = foldl send_field w0 (concat (map ((!) cs) (order @ [i])) @ (if i = cur then [] else sent))"
      unfolding u(2) using unlock t(2) by simp
    then show ?thesis using u(1) ex2 by blast
  qed
qed

lemma turn_end:
  assumes "turn b cs order cur sent ts" and "all_sent ts"
  shows "mset order = mset [0..<length cs]" and "sent = []"
proof -
  have over: "i \<in> set order" if i: "i < length cs" for i
  proof (rule ccontr)
    assume "i \<notin> set order"
    moreover have "i < length ts" using assms(1) i by (simp add: turn_def)
    moreover from this have "todo (locks (ts ! i)) = []" "held (locks (ts ! i)) = []"
      using assms(2) by (simp_all add: all_sent_def)
    ultimately show False
      using turn_place [OF assms(1), of i] by (auto simp: place_def split: if_splits)
  qed
  then have "set order = set [0..<length cs]" using assms(1) by (auto simp: turn_def)
  then show "mset order = mset [0..<length cs]"
    using assms(1) set_eq_iff_mset_eq_distinct [of order "[0..<length cs]"] by (simp add: turn_def)
  show "sent = []" using over assms(1) by (auto simp: turn_def)
qed

lemma start_requests:
  assumes "p \<in> set pairs"
  shows "(True, bucket_of (fst p)) \<in> set (todo (locks (start_writer ht pairs)))"
  using assms
  by (force simp: start_writer_def start_thread_def acquired_def requests_map [unfolded comp_def]
      set_lock_order comp_def)

lemma turn_start:
  assumes "\<forall>c \<in> set cmds. \<exists>p \<in> set c. bucket_of (fst p) = b"
  shows "turn b (map (command_calls ht) cmds) [] (length (map (command_calls ht) cmds)) []
      (map (start_writer ht) cmds)"
    and "exclusive (map locks (map (start_writer ht) cmds))"
proof -
  have "(True, b) \<in> set (todo (locks (start_writer ht c)))" if "c \<in> set cmds" for c
    using assms that start_requests by metis
  then show "turn b (map (command_calls ht) cmds) [] (length (map (command_calls ht) cmds)) []
      (map (start_writer ht) cmds)"
    by (simp add: turn_def place_def) (simp add: start_writer_def)
  show "exclusive (map locks (map (start_writer ht) cmds))"
    by (simp add: exclusive_def start_writer_def start_thread_def)
qed

text \<open>A run to the end makes the calls of whole commands, in some order of the commands.\<close>

lemma shared_bucket_run:
  assumes "write_step\<^sup>*\<^sup>* (map (start_writer ht) cmds, w) (ts, w')" and "all_sent ts"
    and "\<forall>c \<in> set cmds. \<exists>p \<in> set c. bucket_of (fst p) = b"
  shows "\<exists>order. mset order = mset cmds \<and> w' = foldl send_field w (concat (map (command_calls ht) order))"
proof -
  let ?cs = "map (command_calls ht) cmds"
  obtain idx cur sent where
    t: "turn b ?cs idx cur sent ts" "w' = foldl send_field w (concat (map ((!) ?cs) idx) @ sent)"
    using turns_invariant [OF assms(1) turn_start [OF assms(3)]] by blast
  note e = turn_end [OF t(1) assms(2)]
  have "set idx \<subseteq> {..<length cmds}" using t(1) by (simp add: turn_def)
  then have "map ((!) ?cs) idx = map (command_calls ht) (map ((!) cmds) idx)" by auto
  moreover have "mset (map ((!) cmds) idx) = mset cmds"
    using e(1) mset_map [of "(!) cmds" "[0..<length cmds]"] by (simp add: map_nth)
  ultimately show ?thesis using t(2) e(2)
    by (intro exI [of _ "map ((!) cmds) idx"] conjI) (simp_all only: append_Nil2)
qed

subsection \<open>What arrives in a pipe\<close>

definition field :: "world \<Rightarrow> int \<Rightarrow> call \<Rightarrow> string" where
  "field w fd c = (if fst c = fd then mem_bytes (w_after w (snd c)) (snd c) KEY_MESSAGE_SIZE else [])"

lemma sends_out:
  assumes "\<forall>c \<in> set cs. healthy w (fst c)"
  shows "foldl send_field w cs = w\<lparr>w_out := (\<lambda>fd. w_out w fd @ concat (map (field w fd) cs))\<rparr>"
  using assms
proof (induction cs arbitrary: w)
  case Nil
  then show ?case by simp
next
  case (Cons c cs)
  let ?w1 = "w\<lparr>w_out := (w_out w)(fst c := w_out w (fst c) @ field w (fst c) c)\<rparr>"
  have "send_field w c = ?w1"
    using Cons.prems by (simp add: send_field_def field_def write_all_healthy)
  moreover have "foldl send_field ?w1 cs =
      ?w1\<lparr>w_out := (\<lambda>fd. w_out ?w1 fd @ concat (map (field ?w1 fd) cs))\<rparr>"
    by (rule Cons.IH) (use Cons.prems in \<open>simp add: healthy_def\<close>)
  moreover have "field ?w1 = field w" by (simp add: field_def fun_eq_iff)
  moreover have "(\<lambda>fd. w_out ?w1 fd @ concat (map (field w fd) cs)) =
      (\<lambda>fd. w_out w fd @ concat (map (field w fd) (c # cs)))"
    by (auto simp: fun_eq_iff field_def)
  ultimately show ?case by simp
qed

lemma notify_calls_fd: "c \<in> set (notify_calls subs k v) \<Longrightarrow> fst c \<in> set subs"
  by (induction subs) auto

lemma set_qsort: "set (qsort cmp xs) = set xs"
  by (rule mset_eq_setD) (rule mset_qsort)

lemma notify_calls_field:
  "distinct subs \<Longrightarrow> concat (map (field w fd) (notify_calls subs k v)) =
    (if fd \<in> set subs then notification w k v else [])"
proof (induction subs)
  case (Cons g subs)
  then show ?case by (cases "g = fd") (simp_all add: field_def notification_def)
qed simp

lemma sound_subscribers: "sound_table ht \<Longrightarrow> distinct (subscribers ht k)"
  by (auto simp: subscribers_def sound_node split: option.splits)

text \<open>The notifications of a command that go to the descriptor, as pairs of a key and a value.\<close>

definition received :: "hash_table \<Rightarrow> int \<Rightarrow> (string \<times> string) list \<Rightarrow> (string \<times> string) list" where
  "received ht fd pairs = filter (\<lambda>p. fd \<in> set (subscribers ht (fst p))) (qsort compare_pairs pairs)"

lemma command_calls_field:
  assumes "sound_table ht"
  shows "concat (map (field w fd) (command_calls ht pairs)) =
    concat (map (\<lambda>p. notification w (fst p) (snd p)) (received ht fd pairs))"
proof -
  have "concat (map (field w fd) (concat (map (\<lambda>p. notify_calls (subscribers ht (fst p)) (fst p) (snd p)) ps))) =
    concat (map (\<lambda>p. notification w (fst p) (snd p)) (filter (\<lambda>p. fd \<in> set (subscribers ht (fst p))) ps))" for ps
    by (induction ps) (simp_all add: notify_calls_field [OF sound_subscribers [OF assms]])
  then show ?thesis by (simp add: command_calls_def received_def)
qed

definition notice_lines :: "(string \<times> string) list \<Rightarrow> string" where
  "notice_lines ps = concat (map (\<lambda>p. ''('' @ fst p @ '','' @ snd p @ '')'' @ [newline]) ps)"

lemma notifications_printed:
  assumes "\<forall>p \<in> set ps. short_text (fst p) \<and> short_text (snd p)" and "nf \<in> set (w_open u)"
    and "w_rsched u nf = []" and "length ps < fuel"
  shows "process_notif_thread fuel (rq, rs, nf)
      (u\<lparr>w_in := (w_in u)(nf := concat (map (\<lambda>p. notification w (fst p) (snd p)) ps))\<rparr>) =
    Some (Inr (notice_lines ps, terminate_pipes (u\<lparr>w_in := (w_in u)(nf := [])\<rparr>) rq rs nf))"
proof -
  let ?n = "\<lambda>p. notification w (fst p) (snd p)"
  let ?ms = "map (\<lambda>p. (take KEY_MESSAGE_SIZE (?n p), drop KEY_MESSAGE_SIZE (?n p))) ps"
  let ?u = "u\<lparr>w_in := (w_in u)(nf := concat (map ?n ps))\<rparr>"
  have "notif_loop fuel (rq, rs, nf) False (replicate KEY_MESSAGE_SIZE None) (replicate KEY_MESSAGE_SIZE None) [] ?u =
      Some (Inr ([] @ concat (map notif_text ?ms), terminate_pipes (?u\<lparr>w_in := (w_in ?u)(nf := [])\<rparr>) rq rs nf))"
    by (rule notif_loop_messages) (use assms notification_message in \<open>auto simp: comp_def\<close>)
  moreover have "concat (map notif_text ?ms) = notice_lines ps"
    using assms(1) by (induction ps) (auto simp: notice_lines_def notification_message)
  ultimately show ?thesis by (simp add: process_notif_thread_def)
qed

text \<open>
  C24: WRITE commands that share a bucket: however their threads interleave, call by call, a
  client that is subscribed to their keys prints the notifications of whole commands, one command
  after another in some order, each command in the order of its sorted keys.
\<close>

theorem shared_bucket_notifications_whole:
  assumes "sound_table ht" and "\<forall>c \<in> set cmds. \<exists>p \<in> set c. bucket_of (fst p) = b"
    and "\<forall>c \<in> set cmds. \<forall>p \<in> set c. short_text (fst p) \<and> short_text (snd p)"
    and "\<forall>c \<in> set cmds. \<forall>p \<in> set c. \<forall>g \<in> set (subscribers ht (fst p)). healthy w g"
    and "write_step\<^sup>*\<^sup>* (map (start_writer ht) cmds, w) (ts, w')" and "all_sent ts"
    and "w_out w fd = []" and "nf \<in> set (w_open u)" and "w_rsched u nf = []"
    and "length (concat (map (received ht fd) cmds)) < fuel"
  shows "\<exists>order. mset order = mset cmds \<and>
    process_notif_thread fuel (rq, rs, nf) (u\<lparr>w_in := (w_in u)(nf := w_out w' fd)\<rparr>) =
      Some (Inr (notice_lines (concat (map (received ht fd) order)),
        terminate_pipes (u\<lparr>w_in := (w_in u)(nf := [])\<rparr>) rq rs nf))"
proof -
  obtain order where o: "mset order = mset cmds"
    "w' = foldl send_field w (concat (map (command_calls ht) order))"
    using shared_bucket_run [OF assms(5,6,2)] by blast
  have same: "set order = set cmds" using o(1) by (rule mset_eq_setD)
  let ?ps = "concat (map (received ht fd) order)"
  have "\<forall>c \<in> set (concat (map (command_calls ht) order)). healthy w (fst c)"
    using assms(4) same by (auto simp: command_calls_def set_qsort dest!: notify_calls_fd)
  then have "w_out w' fd = concat (map (field w fd) (concat (map (command_calls ht) order)))"
    using o(2) sends_out assms(7) by simp
  also have "\<dots> = concat (map (\<lambda>p. notification w (fst p) (snd p)) ?ps)"
    by (induction order) (simp_all add: command_calls_field [OF assms(1)])
  finally have out: "w_out w' fd = concat (map (\<lambda>p. notification w (fst p) (snd p)) ?ps)" .
  have "length ?ps = length (concat (map (received ht fd) cmds))"
    using o(1) by (simp add: length_concat mset_map sum_mset_sum_list [symmetric] del: sum_mset_sum_list)
  moreover have "\<forall>p \<in> set ?ps. short_text (fst p) \<and> short_text (snd p)"
    using assms(3) same by (auto simp: received_def set_qsort)
  ultimately show ?thesis
    using notifications_printed [of ?ps nf u fuel rq rs w] assms(8-10) o(1) out by auto
qed

subsection \<open>Commands on different buckets mix their notifications\<close>

lemma send_run:
  assumes "i < length ts" and "todo (locks (ts ! i)) = []" and "held (locks (ts ! i)) \<noteq> []"
    and "to_send (ts ! i) = cs @ rest"
  shows "write_step\<^sup>*\<^sup>* (ts, w) (ts[i := (ts ! i)\<lparr>to_send := rest\<rparr>], foldl send_field w cs)"
  using assms
proof (induction cs arbitrary: ts w)
  case Nil
  then have "ts[i := (ts ! i)\<lparr>to_send := rest\<rparr>] = ts" by (simp add: list_update_same_conv)
  then show ?case by simp
next
  case (Cons c cs)
  let ?ts = "ts[i := (ts ! i)\<lparr>to_send := cs @ rest\<rparr>]"
  have "write_step (ts, w) (?ts, send_field w c)"
    using Cons.prems by (intro write_step.send) simp_all
  moreover have "write_step\<^sup>*\<^sup>* (?ts, send_field w c)
      (?ts[i := (?ts ! i)\<lparr>to_send := rest\<rparr>], foldl send_field (send_field w c) cs)"
    by (rule Cons.IH) (use Cons.prems in simp_all)
  ultimately show ?case using Cons.prems(1) by (simp add: converse_rtranclp_into_rtranclp)
qed

definition writer_at :: "bool \<Rightarrow> nat \<Rightarrow> call list \<Rightarrow> writer" where
  "writer_at locked b cs = \<lparr>locks = \<lparr>todo = if locked then [] else [(True, b)],
     held = if locked then [(True, b)] else []\<rparr>, to_send = cs\<rparr>"

lemma start_writer_single: "start_writer ht [(k, v)] = writer_at False (bucket_of k) (command_calls ht [(k, v)])"
  by (simp add: start_writer_def writer_at_def start_thread_def acquired_def lock_order_def requests_def)

lemma both_locked:
  assumes "b1 \<noteq> b2"
  shows "write_step\<^sup>*\<^sup>* ([writer_at False b1 cs1, writer_at False b2 cs2], w)
    ([writer_at True b1 cs1, writer_at True b2 cs2], w)"
proof -
  have "write_step ([writer_at False b1 cs1, writer_at False b2 cs2], w)
      ([writer_at True b1 cs1, writer_at False b2 cs2], w)"
    using write_step.lock [of 0 "[writer_at False b1 cs1, writer_at False b2 cs2]" "(True, b1)" "[]" w]
    by (simp add: writer_at_def grantable_def less_Suc_eq)
  moreover have "write_step ([writer_at True b1 cs1, writer_at False b2 cs2], w)
      ([writer_at True b1 cs1, writer_at True b2 cs2], w)"
    using write_step.lock [of 1 "[writer_at True b1 cs1, writer_at False b2 cs2]" "(True, b2)" "[]" w] assms
    by (simp add: writer_at_def grantable_def less_Suc_eq)
  ultimately show ?thesis by (meson converse_rtranclp_into_rtranclp r_into_rtranclp)
qed

lemma both_unlocked:
  "\<exists>ts. write_step\<^sup>*\<^sup>* ([writer_at True b1 [], writer_at True b2 []], w) (ts, w) \<and> all_sent ts"
proof -
  let ?over = "\<lparr>locks = \<lparr>todo = [], held = []\<rparr>, to_send = []\<rparr>"
  have "write_step ([writer_at True b1 [], writer_at True b2 []], w) ([?over, writer_at True b2 []], w)"
    using write_step.unlock [of 0 "[writer_at True b1 [], writer_at True b2 []]" w]
    by (simp add: writer_at_def)
  moreover have "write_step ([?over, writer_at True b2 []], w) ([?over, ?over], w)"
    using write_step.unlock [of 1 "[?over, writer_at True b2 []]" w] by (simp add: writer_at_def)
  ultimately show ?thesis
    by (intro exI [of _ "[?over, ?over]"])
      (auto simp: all_sent_def intro: converse_rtranclp_into_rtranclp)
qed

text \<open>The first thread is interrupted between two calls by all the calls of the second.\<close>

lemma interrupted_run:
  assumes "b1 \<noteq> b2"
  shows "\<exists>ts. write_step\<^sup>*\<^sup>* ([writer_at False b1 (as @ bs), writer_at False b2 cs], w)
    (ts, foldl send_field w (as @ cs @ bs)) \<and> all_sent ts"
proof -
  let ?w1 = "foldl send_field w as" and ?w2 = "foldl send_field w (as @ cs)"
  let ?w3 = "foldl send_field w (as @ cs @ bs)"
  have "write_step\<^sup>*\<^sup>* ([writer_at True b1 (as @ bs), writer_at True b2 cs], w)
      ([writer_at True b1 bs, writer_at True b2 cs], ?w1)"
    using send_run [of 0 "[writer_at True b1 (as @ bs), writer_at True b2 cs]" as bs w]
    by (simp add: writer_at_def)
  moreover have "write_step\<^sup>*\<^sup>* ([writer_at True b1 bs, writer_at True b2 cs], ?w1)
      ([writer_at True b1 bs, writer_at True b2 []], ?w2)"
    using send_run [of 1 "[writer_at True b1 bs, writer_at True b2 cs]" cs "[]" ?w1]
    by (simp add: writer_at_def)
  moreover have "write_step\<^sup>*\<^sup>* ([writer_at True b1 bs, writer_at True b2 []], ?w2)
      ([writer_at True b1 [], writer_at True b2 []], ?w3)"
    using send_run [of 0 "[writer_at True b1 bs, writer_at True b2 []]" bs "[]" ?w2]
    by (simp add: writer_at_def)
  ultimately have "write_step\<^sup>*\<^sup>* ([writer_at False b1 (as @ bs), writer_at False b2 cs], w)
      ([writer_at True b1 [], writer_at True b2 []], ?w3)"
    using both_locked [OF assms] rtranclp_trans [of write_step] by meson
  then show ?thesis using both_unlocked [of b1 b2 ?w3] rtranclp_trans [of write_step] by meson
qed

lemma notify_calls_append: "notify_calls (xs @ ys) k v = notify_calls xs k v @ notify_calls ys k v"
  by (induction xs) simp_all

text \<open>
  C23: Two WRITE commands, each of one key and the keys in different buckets, can run so that a
  client subscribed to both keys prints the two keys as one notification and the two values as
  another.
\<close>

theorem notifications_of_two_buckets_mix:
  assumes "sound_table ht" and "bucket_of k1 \<noteq> bucket_of k2"
    and "short_text k1" and "short_text v1" and "short_text k2" and "short_text v2"
    and "fd \<in> set (subscribers ht k1)" and "fd \<in> set (subscribers ht k2)"
    and "\<forall>g \<in> set (subscribers ht k1) \<union> set (subscribers ht k2). healthy w g"
    and "w_out w fd = []" and "nf \<in> set (w_open u)" and "w_rsched u nf = []"
  shows "\<exists>ts w'. write_step\<^sup>*\<^sup>* (map (start_writer ht) [[(k1, v1)], [(k2, v2)]], w) (ts, w') \<and>
    all_sent ts \<and>
    process_notif_thread 3 (rq, rs, nf) (u\<lparr>w_in := (w_in u)(nf := w_out w' fd)\<rparr>) =
      Some (Inr (notice_lines [(k1, k2), (v2, v1)],
        terminate_pipes (u\<lparr>w_in := (w_in u)(nf := [])\<rparr>) rq rs nf))"
proof -
  have calls: "command_calls ht [(k, v)] = notify_calls (subscribers ht k) k v" for k v
    by (simp add: command_calls_def qsort_def)
  obtain xs ys where subs: "subscribers ht k1 = xs @ fd # ys" "fd \<notin> set xs" "fd \<notin> set ys"
    using split_list [OF assms(7)] sound_subscribers [OF assms(1), of k1] by auto
  let ?as = "notify_calls xs k1 v1 @ [(fd, k1)]" and ?bs = "(fd, v1) # notify_calls ys k1 v1"
  let ?cs = "command_calls ht [(k2, v2)]"
  have c1: "command_calls ht [(k1, v1)] = ?as @ ?bs" by (simp add: calls subs(1) notify_calls_append)
  obtain ts where run: "write_step\<^sup>*\<^sup>* (map (start_writer ht) [[(k1, v1)], [(k2, v2)]], w)
      (ts, foldl send_field w (?as @ ?cs @ ?bs))" "all_sent ts"
    using interrupted_run [OF assms(2), of ?as ?bs ?cs w] by (auto simp: start_writer_single c1)
  have "\<forall>c \<in> set (?as @ ?cs @ ?bs). healthy w (fst c)"
    using assms(7-9) subs(1) by (auto simp: calls dest: notify_calls_fd)
  from sends_out [OF this] have "w_out (foldl send_field w (?as @ ?cs @ ?bs)) fd =
      concat (map (field w fd) (?as @ ?cs @ ?bs))"
    using assms(10) by simp
  also have "\<dots> = concat (map (\<lambda>p. notification w (fst p) (snd p)) [(k1, k2), (v2, v1)])"
  proof -
    have none: "concat (map (field w fd) (notify_calls zs k1 v1)) = []" if "fd \<notin> set zs" for zs
      using that by (induction zs) (auto simp: field_def)
    show ?thesis
      using assms(8) notify_calls_field [of "subscribers ht k2" w fd k2 v2] sound_subscribers [OF assms(1)]
      by (simp add: calls none [OF subs(2)] none [OF subs(3)]) (simp add: field_def notification_def)
  qed
  finally have out: "w_out (foldl send_field w (?as @ ?cs @ ?bs)) fd =
    concat (map (\<lambda>p. notification w (fst p) (snd p)) [(k1, k2), (v2, v1)])" .
  show ?thesis
    using run notifications_printed [of "[(k1, k2), (v2, v1)]" nf u 3 rq rs w] assms(3-6,11,12) out
    by (intro exI [of _ ts] exI [of _ "foldl send_field w (?as @ ?cs @ ?bs)"]) (simp del: foldl_append)
qed

subsection \<open>Instances\<close>

definition race_table :: hash_table where
  "race_table = \<lparr>buckets = (replicate TABLE_SIZE [])
     [0 := [\<lparr>nkey = ''a'', nvalue = Some ''1'', nsubs = [7]\<rparr>],
      1 := [\<lparr>nkey = ''b'', nvalue = Some ''2'', nsubs = [7]\<rparr>]]\<rparr>"

lemma race_table_facts:
  "sound_table race_table" "subscribers race_table ''a'' = [7]" "subscribers race_table ''b'' = [7]"
  "bucket_of ''a'' = 0" "bucket_of ''b'' = 1"
  by code_simp+

lemma serial_run:
  "\<exists>ts. write_step\<^sup>*\<^sup>* ([writer_at False b as, writer_at False b bs], w)
    (ts, foldl send_field w (as @ bs)) \<and> all_sent ts"
proof -
  let ?over = "\<lparr>locks = \<lparr>todo = [], held = []\<rparr>, to_send = []\<rparr>" and ?w1 = "foldl send_field w as"
  let ?w2 = "foldl send_field w (as @ bs)"
  have "write_step ([writer_at False b as, writer_at False b bs], w)
      ([writer_at True b as, writer_at False b bs], w)"
    using write_step.lock [of 0 "[writer_at False b as, writer_at False b bs]" "(True, b)" "[]" w]
    by (simp add: writer_at_def grantable_def less_Suc_eq)
  moreover have "write_step\<^sup>*\<^sup>* ([writer_at True b as, writer_at False b bs], w)
      ([writer_at True b [], writer_at False b bs], ?w1)"
    using send_run [of 0 "[writer_at True b as, writer_at False b bs]" as "[]" w]
    by (simp add: writer_at_def)
  moreover have "write_step ([writer_at True b [], writer_at False b bs], ?w1) ([?over, writer_at False b bs], ?w1)"
    using write_step.unlock [of 0 "[writer_at True b [], writer_at False b bs]" ?w1]
    by (simp add: writer_at_def)
  moreover have "write_step ([?over, writer_at False b bs], ?w1) ([?over, writer_at True b bs], ?w1)"
    using write_step.lock [of 1 "[?over, writer_at False b bs]" "(True, b)" "[]" ?w1]
    by (simp add: writer_at_def grantable_def less_Suc_eq)
  moreover have "write_step\<^sup>*\<^sup>* ([?over, writer_at True b bs], ?w1) ([?over, writer_at True b []], ?w2)"
    using send_run [of 1 "[?over, writer_at True b bs]" bs "[]" ?w1] by (simp add: writer_at_def)
  moreover have "write_step ([?over, writer_at True b []], ?w2) ([?over, ?over], ?w2)"
    using write_step.unlock [of 1 "[?over, writer_at True b []]" ?w2] by (simp add: writer_at_def)
  ultimately have "write_step\<^sup>*\<^sup>* ([writer_at False b as, writer_at False b bs], w) ([?over, ?over], ?w2)"
    by (meson converse_rtranclp_into_rtranclp r_into_rtranclp rtranclp_trans)
  then show ?thesis by (intro exI [of _ "[?over, ?over]"]) (simp add: all_sent_def)
qed

theorem shared_bucket_notifications_whole_witness:
  "\<exists>ts w' order u'. write_step\<^sup>*\<^sup>* (map (start_writer race_table) [[(''a'', ''x'')], [(''a'', ''y'')]], notify_world)
      (ts, w') \<and> all_sent ts \<and> mset order = mset [[(''a'', ''x'')], [(''a'', ''y'')]] \<and>
    process_notif_thread 3 (1, 2, 0) (quiet_world\<lparr>w_in := (w_in quiet_world)(0 := w_out w' 7)\<rparr>) =
      Some (Inr (notice_lines (concat (map (received race_table 7) order)), u'))"
proof -
  let ?cmds = "[[(''a'', ''x'')], [(''a'', ''y'')]]"
  obtain ts w' where run: "write_step\<^sup>*\<^sup>* (map (start_writer race_table) ?cmds, notify_world) (ts, w')"
      "all_sent ts"
    using serial_run [of 0 "command_calls race_table [(''a'', ''x'')]"
        "command_calls race_table [(''a'', ''y'')]" notify_world]
    by (auto simp: start_writer_single race_table_facts simp del: foldl_append)
  have "\<exists>order. mset order = mset ?cmds \<and>
    process_notif_thread 3 (1, 2, 0) (quiet_world\<lparr>w_in := (w_in quiet_world)(0 := w_out w' 7)\<rparr>) =
      Some (Inr (notice_lines (concat (map (received race_table 7) order)),
        terminate_pipes (quiet_world\<lparr>w_in := (w_in quiet_world)(0 := [])\<rparr>) 1 2 0))"
    by (rule shared_bucket_notifications_whole [where b = 0, OF _ _ _ _ run])
      (auto simp: race_table_facts sample_short received_def qsort_def quiet_world_def)
  then show ?thesis using run by blast
qed

theorem notifications_of_two_buckets_mix_witness:
  "\<exists>ts w' u'. write_step\<^sup>*\<^sup>* (map (start_writer race_table) [[(''a'', ''x'')], [(''b'', ''y'')]], notify_world) (ts, w') \<and>
    all_sent ts \<and>
    process_notif_thread 3 (1, 2, 0) (quiet_world\<lparr>w_in := (w_in quiet_world)(0 := w_out w' 7)\<rparr>) =
      Some (Inr (''(a,b)'' @ [newline] @ ''(y,x)'' @ [newline], u'))"
  using notifications_of_two_buckets_mix [of race_table "''a''" "''b''" "''x''" "''y''" 7 notify_world 0 quiet_world 1 2]
  by (auto simp: race_table_facts sample_short quiet_world_def notice_lines_def)

end
