(* ===== verification/FirstProject.thy ===== *)
theory FirstProject
  imports Operations
begin

section \<open>The first version of the program (proj\_p1)\<close>

text \<open>
  The first project is the store without subscriptions: its nodes hold a counter instead of
  subscribers, and its operations on the table are those of the server without the notifications.
  The functions that have the same text in both projects (\<open>hash\<close>, the comparison functions, the
  lock loops) are translated from this project too, and shown equal to those of the server. What both
  call of the C library (\<open>qsort\<close>, \<open>tolower\<close>, the locks) is shared. \<open>forget\<close> maps a table of the server to one of
  the first project; the theorems show that the server does what the first project did as long as
  nobody subscribes, in every environment, failures and faults included.
\<close>

record p1_node =
  p1_key :: string
  p1_value :: "string option"
  p1_count :: "int option"

record p1_table =
  p1_buckets :: "p1_node list list"

datatype p1_ptr = P1Null | P1Table p1_table | P1Freed

subsection \<open>Hashing, comparing and locking\<close>

definition p1_hash :: "string \<Rightarrow> int" where
  "p1_hash key =
     (let firstLetter = tolower (char_at key 0) in
      if of_char CHR ''a'' \<le> firstLetter \<and> firstLetter \<le> of_char CHR ''z''
      then firstLetter - of_char CHR ''a''
      else if of_char CHR ''0'' \<le> firstLetter \<and> firstLetter \<le> of_char CHR ''9''
      then firstLetter - of_char CHR ''0''
      else - 1)"

definition p1_compare_pairs :: "string \<times> string \<Rightarrow> string \<times> string \<Rightarrow> int" where
  "p1_compare_pairs pair1 pair2 = strcmp (fst pair1) (fst pair2)"

definition p1_compare_keys :: "string \<Rightarrow> string \<Rightarrow> int" where
  "p1_compare_keys key1 key2 = strcmp key1 key2"

fun p1_lock_write_list :: "string list \<Rightarrow> int list \<Rightarrow> world \<Rightarrow> (int \<times> int list \<times> world) res" where
  "p1_lock_write_list [] indexList w = Inr (0, indexList, w)"
| "p1_lock_write_list (key # keys) indexList w =
     (let index = p1_hash key in
      if index < 0 then Inl OutOfBounds
      else if indexList ! nat index = 0 then
        (case lock_call w (WrLock (Bucket (nat index))) of
           (r, w1) \<Rightarrow>
             if r \<noteq> 0 then Inr (1, indexList, w1)
             else p1_lock_write_list keys (indexList[nat index := 1]) w1)
      else p1_lock_write_list keys indexList w)"

fun p1_lock_read_list :: "string list \<Rightarrow> int list \<Rightarrow> world \<Rightarrow> (int \<times> int list \<times> world) res" where
  "p1_lock_read_list [] indexList w = Inr (0, indexList, w)"
| "p1_lock_read_list (key # keys) indexList w =
     (let index = p1_hash key in
      if index < 0 then Inl OutOfBounds
      else if indexList ! nat index = 0 then
        (case lock_call w (RdLock (Bucket (nat index))) of
           (r, w1) \<Rightarrow>
             if r \<noteq> 0 then Inr (1, indexList, w1)
             else p1_lock_read_list keys (indexList[nat index := 1]) w1)
      else p1_lock_read_list keys indexList w)"

fun p1_unlock_from :: "nat list \<Rightarrow> int list \<Rightarrow> world \<Rightarrow> int \<times> int list \<times> world" where
  "p1_unlock_from [] indexList w = (0, indexList, w)"
| "p1_unlock_from (i # is) indexList w =
     (if indexList ! i = 1 then
        (case lock_call w (Unlock (Bucket i)) of
           (r, w1) \<Rightarrow> if r \<noteq> 0 then (1, indexList, w1) else p1_unlock_from is (indexList[i := 0]) w1)
      else p1_unlock_from is indexList w)"

definition p1_unlock_list :: "int list \<Rightarrow> world \<Rightarrow> int \<times> int list \<times> world" where
  "p1_unlock_list indexList w = p1_unlock_from [0..<TABLE_SIZE] indexList w"

text \<open>The same functions as those of the server.\<close>

lemma p1_hash_eq [simp]: "p1_hash = hash"
  by (simp add: fun_eq_iff p1_hash_def hash_def)

lemma p1_compare_eq [simp]: "p1_compare_pairs = compare_pairs" "p1_compare_keys = compare_keys"
  by (simp_all add: fun_eq_iff p1_compare_pairs_def compare_pairs_def p1_compare_keys_def compare_keys_def)

lemma p1_lock_lists_eq [simp]:
  "p1_lock_write_list = lock_write_list" "p1_lock_read_list = lock_read_list"
proof -
  have "p1_lock_write_list keys il w = lock_write_list keys il w"
    "p1_lock_read_list keys il w = lock_read_list keys il w" for keys il w
    by (induction keys arbitrary: il w)
      (simp_all add: lock_write_list_def lock_read_list_def Let_def split: prod.split)
  then show "p1_lock_write_list = lock_write_list" "p1_lock_read_list = lock_read_list"
    by (simp_all add: fun_eq_iff)
qed

lemma p1_unlock_list_eq [simp]: "p1_unlock_list = unlock_list"
proof -
  have "p1_unlock_from is il w = unlock_from is il w" for "is" il w
    by (induction "is" arbitrary: il w) (simp_all split: prod.split)
  then show ?thesis by (simp add: fun_eq_iff p1_unlock_list_def unlock_list_def)
qed

text \<open>The delay of WAIT, exact as \<open>delay_exact\<close> says.\<close>

definition p1_delay_to_timespec :: "32 word \<Rightarrow> timespec" where
  "p1_delay_to_timespec delay_ms =
     \<lparr>tv_sec = ucast (delay_ms div 1000), tv_nsec = ucast ((delay_ms mod 1000) * 1000000)\<rparr>"

lemma p1_delay_eq: "p1_delay_to_timespec = delay_to_timespec"
  by (simp add: fun_eq_iff p1_delay_to_timespec_def delay_to_timespec_def)

subsection \<open>The table (proj\_p1/kvs.c)\<close>

definition p1_create_hash_table :: "world \<Rightarrow> p1_table option \<times> world" where
  "p1_create_hash_table w =
     (case alloc w of (ok1, w1) \<Rightarrow>
       if \<not> ok1 then (None, w1)
       else (case alloc w1 of (ok2, w2) \<Rightarrow>
         if \<not> ok2 then (None, w2)
         else if init_bucket_locks [0..<TABLE_SIZE] (w_lockres w2)
         then (Some \<lparr>p1_buckets = replicate TABLE_SIZE []\<rparr>,
               w2\<lparr>w_lockres := drop TABLE_SIZE (w_lockres w2)\<rparr>)
         else (None, w2\<lparr>w_lockres := tl (dropWhile Not (w_lockres w2))\<rparr>)))"

text \<open>The nodes are released, the locks destroyed; an error in that is only reported.\<close>

definition p1_free_table :: "p1_table \<Rightarrow> world \<Rightarrow> world" where
  "p1_free_table ht w = w\<lparr>w_lockres := drop (length (p1_buckets ht)) (w_lockres w)\<rparr>"

fun p1_write_existing ::
  "p1_node list \<Rightarrow> string \<Rightarrow> string \<Rightarrow> world \<Rightarrow> (p1_node list \<times> world) option" where
  "p1_write_existing [] key val w = None"
| "p1_write_existing (keyNode # next) key val w =
     (if strcmp (p1_key keyNode) key = 0 then
        (let (ok, w1) = alloc w
         in Some (keyNode\<lparr>p1_value := if ok then Some val else None\<rparr> # next, w1))
      else (case p1_write_existing next key val w of
              None \<Rightarrow> None
            | Some (next', w') \<Rightarrow> Some (keyNode # next', w')))"

text \<open>The counter of a new node is not initialised.\<close>

definition p1_write_pair ::
  "p1_table \<Rightarrow> string \<Rightarrow> string \<Rightarrow> world \<Rightarrow> (int \<times> p1_table \<times> world) res" where
  "p1_write_pair ht key val w =
     (let index = p1_hash key in
      if index < 0 then Inl OutOfBounds
      else (let bucket = p1_buckets ht ! nat index in
        case p1_write_existing bucket key val w of
          Some (bucket', w') \<Rightarrow> Inr (0, ht\<lparr>p1_buckets := (p1_buckets ht)[nat index := bucket']\<rparr>, w')
        | None \<Rightarrow>
            (let (node_ok, w1) = alloc w in
             if \<not> node_ok then Inr (1, ht, w1)
             else (let (key_ok, w2) = alloc w1; (val_ok, w3) = alloc w2 in
               if \<not> key_ok \<or> \<not> val_ok then Inr (1, ht, w3)
               else (let keyNode = \<lparr>p1_key = key, p1_value = Some val, p1_count = None\<rparr> in
                 Inr (0, ht\<lparr>p1_buckets := (p1_buckets ht)[nat index := keyNode # bucket]\<rparr>, w3))))))"

text \<open>
  \<open>read_pair\<close> lets \<open>asprintf\<close> store a pointer into an object of type \<open>char\<close>: a key that is found is a
  write outside that object. (The compiler flags of the project reject the function.)
\<close>

fun p1_read_search :: "p1_node list \<Rightarrow> string \<Rightarrow> world \<Rightarrow> (string option \<times> world) res" where
  "p1_read_search [] key w = Inr (None, w)"
| "p1_read_search (keyNode # next) key w =
     (if strcmp (p1_key keyNode) key = 0 then Inl OutOfBounds else p1_read_search next key w)"

definition p1_read_pair :: "p1_table \<Rightarrow> string \<Rightarrow> world \<Rightarrow> (string option \<times> world) res" where
  "p1_read_pair ht key w =
     (let index = p1_hash key in
      if index < 0 then Inl OutOfBounds
      else p1_read_search (p1_buckets ht ! nat index) key w)"

fun p1_delete_search :: "p1_node list \<Rightarrow> string \<Rightarrow> p1_node list option" where
  "p1_delete_search [] key = None"
| "p1_delete_search (keyNode # next) key =
     (if strcmp (p1_key keyNode) key = 0 then Some next
      else (case p1_delete_search next key of None \<Rightarrow> None | Some next' \<Rightarrow> Some (keyNode # next')))"

definition p1_delete_pair :: "p1_table \<Rightarrow> string \<Rightarrow> world \<Rightarrow> (int \<times> p1_table \<times> world) res" where
  "p1_delete_pair ht key w =
     (let index = p1_hash key in
      if index < 0 then Inl OutOfBounds
      else (case p1_delete_search (p1_buckets ht ! nat index) key of
              Some bucket' \<Rightarrow> Inr (0, ht\<lparr>p1_buckets := (p1_buckets ht)[nat index := bucket']\<rparr>, w)
            | None \<Rightarrow> Inr (1, ht, w)))"

subsection \<open>The operations (proj\_p1/operations.c)\<close>

definition p1_kvs_init :: "p1_ptr \<Rightarrow> world \<Rightarrow> int \<times> p1_ptr \<times> world" where
  "p1_kvs_init kvs_table w =
     (if kvs_table \<noteq> P1Null then (1, kvs_table, w)
      else (case p1_create_hash_table w of
              (None, w') \<Rightarrow> (1, P1Null, w')
            | (Some ht, w') \<Rightarrow> (0, P1Table ht, w')))"

text \<open>The pointer to the released table stays.\<close>

definition p1_kvs_terminate :: "p1_ptr \<Rightarrow> world \<Rightarrow> (int \<times> p1_ptr \<times> world) res" where
  "p1_kvs_terminate kvs_table w =
     (case kvs_table of
        P1Null \<Rightarrow> Inr (1, P1Null, w)
      | P1Freed \<Rightarrow> Inl UseAfterFree
      | P1Table ht \<Rightarrow> Inr (0, P1Freed, p1_free_table ht w))"

definition p1_kvs_write ::
  "p1_ptr \<Rightarrow> string list \<Rightarrow> string list \<Rightarrow> world \<Rightarrow> (int \<times> p1_ptr \<times> world) res" where
  "p1_kvs_write kvs_table keys vals w =
     (case kvs_table of
        P1Null \<Rightarrow> Inr (1, P1Null, w)
      | P1Freed \<Rightarrow> Inl UseAfterFree
      | P1Table ht \<Rightarrow>
          (let pairs = qsort p1_compare_pairs (zip keys vals); sortedKeys = map fst pairs in
           bindE (p1_lock_write_list sortedKeys no_locks w) (\<lambda>(r, indexList, w1).
             if r \<noteq> 0 then Inr (1, P1Table ht, w1)
             else bindE (write_loop p1_write_pair pairs (ht, w1)) (\<lambda>(ht', w2).
               (case p1_unlock_list indexList w2 of
                  (r', _, w3) \<Rightarrow> Inr (if r' \<noteq> 0 then 1 else 0, P1Table ht', w3))))))"

definition p1_kvs_read :: "p1_ptr \<Rightarrow> string list \<Rightarrow> int \<Rightarrow> world \<Rightarrow> (int \<times> world) res" where
  "p1_kvs_read kvs_table keys fdOut w =
     (case kvs_table of
        P1Null \<Rightarrow> Inr (1, w)
      | P1Freed \<Rightarrow> Inl UseAfterFree
      | P1Table ht \<Rightarrow>
          (let sortedKeys = qsort p1_compare_keys keys in
           bindE (p1_lock_read_list sortedKeys no_locks w) (\<lambda>(r, indexList, w1).
             if r \<noteq> 0 then Inr (1, w1)
             else bindE (read_loop p1_read_pair ht fdOut sortedKeys (emit w1 fdOut ''['')) (\<lambda>w2.
               (case p1_unlock_list indexList (emit w2 fdOut ('']'' @ [newline])) of
                  (r', _, w3) \<Rightarrow> Inr (if r' \<noteq> 0 then 1 else 0, w3))))))"

definition p1_kvs_delete ::
  "p1_ptr \<Rightarrow> string list \<Rightarrow> int \<Rightarrow> world \<Rightarrow> (int \<times> p1_ptr \<times> world) res" where
  "p1_kvs_delete kvs_table keys fdOut w =
     (case kvs_table of
        P1Null \<Rightarrow> Inr (1, P1Null, w)
      | P1Freed \<Rightarrow> Inl UseAfterFree
      | P1Table ht \<Rightarrow>
          (let sortedKeys = qsort p1_compare_keys keys in
           bindE (p1_lock_write_list sortedKeys no_locks w) (\<lambda>(r, indexList, w1).
             if r \<noteq> 0 then Inr (1, P1Table ht, w1)
             else bindE (delete_loop p1_delete_pair fdOut sortedKeys (False, ht, w1)) (\<lambda>(aux, ht', w2).
               (case p1_unlock_list indexList
                   (if aux then emit w2 fdOut ('']'' @ [newline]) else w2) of
                  (r', _, w3) \<Rightarrow> Inr (if r' \<noteq> 0 then 1 else 0, P1Table ht', w3))))))"

definition p1_deref :: "p1_ptr \<Rightarrow> p1_table res" where
  "p1_deref kvs_table =
     (case kvs_table of
        P1Null \<Rightarrow> Inl NullDeref | P1Freed \<Rightarrow> Inl UseAfterFree | P1Table ht \<Rightarrow> Inr ht)"

definition p1_print_table :: "p1_table \<Rightarrow> int \<Rightarrow> world \<Rightarrow> world res" where
  "p1_print_table ht fd =
     for_each (for_each (\<lambda>keyNode w.
       bindE (case p1_value keyNode of None \<Rightarrow> Inl NullDeref | Some val \<Rightarrow> Inr val)
         (\<lambda>val. Inr (emit w fd (show_line (p1_key keyNode) val))))) (p1_buckets ht)"

definition p1_kvs_show :: "p1_ptr \<Rightarrow> int \<Rightarrow> world \<Rightarrow> (int \<times> world) res" where
  "p1_kvs_show kvs_table fdOut w =
     bindE (p1_deref kvs_table) (\<lambda>ht.
       (case lock_calls (map (\<lambda>i. RdLock (Bucket i)) [0..<TABLE_SIZE]) w of
          (r, w1) \<Rightarrow>
            if r \<noteq> 0 then Inr (1, w1)
            else bindE (p1_print_table ht fdOut w1) (\<lambda>w2.
              Inr (lock_calls (map (\<lambda>i. Unlock (Bucket i)) [0..<TABLE_SIZE]) w2))))"

text \<open>A backup prints the lines of SHOW, without their limit of 39 characters in the server.\<close>

definition p1_kvs_backup :: "p1_ptr \<Rightarrow> int \<Rightarrow> world \<Rightarrow> (int \<times> world) res" where
  "p1_kvs_backup kvs_table fdBck w =
     (case kvs_table of
        P1Null \<Rightarrow> Inr (1, snd (sys_close w fdBck))
      | P1Freed \<Rightarrow> Inl UseAfterFree
      | P1Table ht \<Rightarrow>
          bindE (p1_print_table ht fdBck w) (\<lambda>w1.
            (case sys_close w1 fdBck of (r, w2) \<Rightarrow> Inr (if r < 0 then 1 else 0, w2))))"
subsection \<open>The server without subscribers is the first project\<close>

definition forget_node :: "key_node \<Rightarrow> p1_node" where
  "forget_node n = \<lparr>p1_key = nkey n, p1_value = nvalue n, p1_count = None\<rparr>"

definition forget :: "hash_table \<Rightarrow> p1_table" where
  "forget ht = \<lparr>p1_buckets = map (map forget_node) (buckets ht)\<rparr>"

fun forget_ptr :: "table_ptr \<Rightarrow> p1_ptr" where
  "forget_ptr NullTable = P1Null"
| "forget_ptr (Table ht) = P1Table (forget ht)"
| "forget_ptr FreedTable = P1Freed"

definition lonely_bucket :: "key_node list \<Rightarrow> bool" where
  "lonely_bucket b \<longleftrightarrow> (\<forall>n \<in> set b. nsubs n = [])"

definition lonely :: "hash_table \<Rightarrow> bool" where
  "lonely ht \<longleftrightarrow> length (buckets ht) = TABLE_SIZE \<and> (\<forall>b \<in> set (buckets ht). lonely_bucket b)"

lemma lonely_bucket_simps [simp]:
  "lonely_bucket []" "lonely_bucket (n # b) \<longleftrightarrow> nsubs n = [] \<and> lonely_bucket b"
  by (simp_all add: lonely_bucket_def)

lemma forget_node_simps [simp]:
  "p1_key (forget_node n) = nkey n" "p1_value (forget_node n) = nvalue n"
  "(forget_node n)\<lparr>p1_value := v\<rparr> = forget_node (n\<lparr>nvalue := v\<rparr>)"
  by (simp_all add: forget_node_def)

lemma write_existing_forget:
  "lonely_bucket b \<Longrightarrow> p1_write_existing (map forget_node b) k v w =
    map_option (\<lambda>(b', w'). (map forget_node b', w')) (write_existing b k v w)"
  by (induction b) (auto simp: notify_subscribers_def Let_def split: prod.splits option.splits)

lemma write_existing_lonely:
  "lonely_bucket b \<Longrightarrow> write_existing b k v w = Some (b', w') \<Longrightarrow> lonely_bucket b'"
  by (induction b arbitrary: b') (auto simp: Let_def split: prod.splits option.splits if_splits)

lemma delete_search_forget:
  "lonely_bucket b \<Longrightarrow> delete_search b k w =
    map_option (\<lambda>b'. (b', w)) (map_option fst (delete_search b k w)) \<and>
   p1_delete_search (map forget_node b) k = map_option (map forget_node) (map_option fst (delete_search b k w))"
  by (induction b) (auto simp: notify_subscribers_def split: prod.splits option.splits)

lemma delete_search_lonely:
  "lonely_bucket b \<Longrightarrow> delete_search b k w = Some (b', w') \<Longrightarrow> lonely_bucket b'"
  by (induction b arbitrary: b') (auto split: prod.splits option.splits if_splits)

lemma forget_bucket:
  assumes "lonely ht" and "\<not> hash k < 0"
  shows "p1_buckets (forget ht) ! nat (hash k) = map forget_node (buckets ht ! nat (hash k))"
    and "lonely_bucket (buckets ht ! nat (hash k))"
proof -
  have "nat (hash k) < length (buckets ht)"
    using assms hash_bounds [of k] by (simp add: lonely_def)
  then show "p1_buckets (forget ht) ! nat (hash k) = map forget_node (buckets ht ! nat (hash k))"
    "lonely_bucket (buckets ht ! nat (hash k))"
    using assms(1) by (simp_all add: forget_def lonely_def)
qed

lemma forget_update:
  "(forget ht)\<lparr>p1_buckets := (p1_buckets (forget ht))[i := map forget_node b]\<rparr> =
    forget (ht\<lparr>buckets := (buckets ht)[i := b]\<rparr>)"
  by (simp add: forget_def map_update)

lemma lonely_update: "lonely ht \<Longrightarrow> lonely_bucket b \<Longrightarrow> lonely (ht\<lparr>buckets := (buckets ht)[i := b]\<rparr>)"
  by (auto simp: lonely_def dest!: set_update_subset_insert [THEN subsetD])

lemma write_pair_forget:
  assumes "lonely ht"
  shows "p1_write_pair (forget ht) k v w = map_res (\<lambda>(r, t, w'). (r, forget t, w')) (write_pair ht k v w)"
    and "write_pair ht k v w = Inr (r, t, w') \<Longrightarrow> lonely t"
proof -
  let ?b = "buckets ht ! nat (hash k)"
  have new: "forget_node \<lparr>nkey = k, nvalue = Some v, nsubs = []\<rparr> = \<lparr>p1_key = k, p1_value = Some v, p1_count = None\<rparr>"
    by (simp add: forget_node_def)
  have upd: "(forget ht)\<lparr>p1_buckets := (p1_buckets (forget ht))[i := \<lparr>p1_key = k, p1_value = Some v, p1_count = None\<rparr> #
      map forget_node b]\<rparr> = forget (ht\<lparr>buckets := (buckets ht)[i := \<lparr>nkey = k, nvalue = Some v, nsubs = []\<rparr> # b]\<rparr>)" for i b
    using forget_update [of ht i "\<lparr>nkey = k, nvalue = Some v, nsubs = []\<rparr> # b"] by (simp add: new)
  show "p1_write_pair (forget ht) k v w = map_res (\<lambda>(r, t, w'). (r, forget t, w')) (write_pair ht k v w)"
    using forget_bucket [OF assms, of k] write_existing_forget [of ?b k v w]
    by (auto simp: p1_write_pair_def write_pair_def Let_def forget_update upd
        split: option.splits prod.splits)
  show "lonely t" if run: "write_pair ht k v w = Inr (r, t, w')"
    using run forget_bucket(2) [OF assms, of k] assms write_existing_lonely [of ?b k v w]
    by (auto simp: write_pair_def Let_def lonely_update split: option.splits prod.splits if_splits)
qed

lemma delete_pair_forget:
  assumes "lonely ht"
  shows "p1_delete_pair (forget ht) k w = map_res (\<lambda>(r, t, w'). (r, forget t, w')) (delete_pair ht k w)"
    and "delete_pair ht k w = Inr (r, t, w') \<Longrightarrow> lonely t"
proof -
  let ?b = "buckets ht ! nat (hash k)"
  show "p1_delete_pair (forget ht) k w = map_res (\<lambda>(r, t, w'). (r, forget t, w')) (delete_pair ht k w)"
  proof (cases "hash k < 0")
    case True
    then show ?thesis by (simp add: p1_delete_pair_def delete_pair_def)
  next
    case False
    note b = forget_bucket [OF assms False]
    show ?thesis
      using False b(1) delete_search_forget [OF b(2), of k w]
      by (cases "delete_search ?b k w")
        (auto simp: p1_delete_pair_def delete_pair_def Let_def forget_update)
  qed
  show "lonely t" if run: "delete_pair ht k w = Inr (r, t, w')"
    using run forget_bucket(2) [OF assms, of k] assms delete_search_lonely [of ?b k w]
    by (auto simp: delete_pair_def Let_def lonely_update split: option.splits prod.splits if_splits)
qed
lemma write_loop_forget:
  assumes "lonely ht"
  shows "write_loop p1_write_pair ps (forget ht, w) =
    map_res (\<lambda>(t, w'). (forget t, w')) (write_loop write_pair ps (ht, w))"
  using assms unfolding write_loop_def
proof (induction ps arbitrary: ht w)
  case Nil
  then show ?case by simp
next
  case (Cons p ps)
  obtain k v where p: "p = (k, v)" by (cases p)
  show ?case
  proof (cases "write_pair ht k v w")
    case (Inl e)
    then show ?thesis using write_pair_forget(1) [OF Cons.prems, of k v w] p by simp
  next
    case (Inr res)
    obtain r t u where res: "res = (r, t, u)" by (cases res)
    have "lonely t" using write_pair_forget(2) [OF Cons.prems] Inr res by simp
    from Cons.IH [OF this, of u] show ?thesis
      using write_pair_forget(1) [OF Cons.prems, of k v w] p Inr res by simp
  qed
qed

lemma delete_loop_forget:
  assumes "lonely ht"
  shows "delete_loop p1_delete_pair fdOut ks (aux, forget ht, w) =
    map_res (\<lambda>(a, t, w'). (a, forget t, w')) (delete_loop delete_pair fdOut ks (aux, ht, w))"
  using assms unfolding delete_loop_def
proof (induction ks arbitrary: aux ht w)
  case Nil
  then show ?case by simp
next
  case (Cons k ks)
  show ?case
  proof (cases "delete_pair ht k w")
    case (Inl e)
    then show ?thesis using delete_pair_forget(1) [OF Cons.prems, of k w] by simp
  next
    case (Inr res)
    obtain r t u where res: "res = (r, t, u)" by (cases res)
    have "lonely t" using delete_pair_forget(2) [OF Cons.prems] Inr res by simp
    from Cons.IH [OF this] show ?thesis
      using delete_pair_forget(1) [OF Cons.prems, of k w] Inr res by (simp add: Let_def)
  qed
qed

lemma print_nodes_forget:
  "for_each (\<lambda>keyNode w. bindE (case p1_value keyNode of None \<Rightarrow> Inl NullDeref | Some val \<Rightarrow> Inr val)
     (\<lambda>val. Inr (emit w fd (show_line (p1_key keyNode) val)))) (map forget_node b) w =
   for_each (\<lambda>keyNode w. bindE (node_value keyNode) (\<lambda>val. Inr (emit w fd (show_line (nkey keyNode) val)))) b w"
proof (induction b arbitrary: w)
  case Nil
  then show ?case by simp
next
  case (Cons n b)
  then show ?case by (cases "nvalue n") (simp_all add: node_value_def)
qed

lemma print_table_forget: "p1_print_table (forget ht) fd w = show_table ht fd w"
proof -
  have "for_each (for_each (\<lambda>keyNode w. bindE (case p1_value keyNode of None \<Rightarrow> Inl NullDeref | Some val \<Rightarrow> Inr val)
      (\<lambda>val. Inr (emit w fd (show_line (p1_key keyNode) val))))) (map (map forget_node) bs) w =
    for_each (for_each (\<lambda>keyNode w. bindE (node_value keyNode)
      (\<lambda>val. Inr (emit w fd (show_line (nkey keyNode) val))))) bs w" for bs w
    by (induction bs arbitrary: w) (auto simp: print_nodes_forget intro!: bindE_cong [OF refl])
  then show ?thesis by (simp add: p1_print_table_def show_table_def forget_def)
qed

definition lonely_ptr :: "table_ptr \<Rightarrow> bool" where
  "lonely_ptr p \<longleftrightarrow> (\<forall>ht. p = Table ht \<longrightarrow> lonely ht)"

lemma write_loop_lonely:
  assumes "write_loop write_pair ps (ht, w) = Inr (ht', w')" and "lonely ht"
  shows "lonely ht'"
  using assms unfolding write_loop_def
proof (induction ps arbitrary: ht w)
  case Nil
  then show ?case by simp
next
  case (Cons p ps)
  then show ?case using write_pair_forget(2) by (cases p) (fastforce split: prod.splits)
qed

lemma delete_loop_lonely:
  assumes "delete_loop delete_pair fdOut ks (aux, ht, w) = Inr (aux', ht', w')" and "lonely ht"
  shows "lonely ht'"
  using assms unfolding delete_loop_def
proof (induction ks arbitrary: aux ht w)
  case Nil
  then show ?case by simp
next
  case (Cons k ks)
  then show ?case using delete_pair_forget(2) by (fastforce simp: Let_def split: prod.splits if_splits)
qed

lemma kvs_write_forget:
  assumes "lonely_ptr p"
  shows "p1_kvs_write (forget_ptr p) keys vals w =
      map_res (\<lambda>(r, q, w'). (r, forget_ptr q, w')) (kvs_write p keys vals w)"
    and "kvs_write p keys vals w = Inr (r, q, w') \<Longrightarrow> lonely_ptr q"
proof -
  show "p1_kvs_write (forget_ptr p) keys vals w =
      map_res (\<lambda>(r, q, w'). (r, forget_ptr q, w')) (kvs_write p keys vals w)"
  proof (cases p)
    case (Table ht)
    then have "lonely ht" using assms by (simp add: lonely_ptr_def)
    from write_loop_forget [OF this] show ?thesis
      by (simp add: Table p1_kvs_write_def kvs_write_def bindE_def map_res_def Let_def
          split: sum.splits prod.splits)
  qed (simp_all add: p1_kvs_write_def kvs_write_def)
  show "lonely_ptr q" if "kvs_write p keys vals w = Inr (r, q, w')"
    using that assms write_loop_lonely
    by (cases p) (auto simp: kvs_write_def Let_def lonely_ptr_def split: prod.splits if_splits)
qed

lemma kvs_delete_forget:
  assumes "lonely_ptr p"
  shows "p1_kvs_delete (forget_ptr p) keys fdOut w =
      map_res (\<lambda>(r, q, w'). (r, forget_ptr q, w')) (kvs_delete p keys fdOut w)"
    and "kvs_delete p keys fdOut w = Inr (r, q, w') \<Longrightarrow> lonely_ptr q"
proof -
  show "p1_kvs_delete (forget_ptr p) keys fdOut w =
      map_res (\<lambda>(r, q, w'). (r, forget_ptr q, w')) (kvs_delete p keys fdOut w)"
  proof (cases p)
    case (Table ht)
    then have "lonely ht" using assms by (simp add: lonely_ptr_def)
    from delete_loop_forget [OF this] show ?thesis
      by (simp add: Table p1_kvs_delete_def kvs_delete_def bindE_def map_res_def Let_def
          split: sum.splits prod.splits)
  qed (simp_all add: p1_kvs_delete_def kvs_delete_def)
  show "lonely_ptr q" if "kvs_delete p keys fdOut w = Inr (r, q, w')"
    using that assms delete_loop_lonely
    by (cases p) (auto simp: kvs_delete_def Let_def lonely_ptr_def split: prod.splits if_splits)
qed

lemma kvs_show_forget: "p1_kvs_show (forget_ptr p) fdOut w = kvs_show p fdOut w"
  by (cases p) (simp_all add: p1_kvs_show_def kvs_show_def p1_deref_def deref_def print_table_forget
      split: prod.splits)

lemma kvs_init_forget:
  "p1_kvs_init (forget_ptr p) w = (case kvs_init p w of (r, q, w') \<Rightarrow> (r, forget_ptr q, w'))"
proof -
  have "p1_create_hash_table w = (case create_hash_table w of (t, w') \<Rightarrow> (map_option forget t, w'))"
    by (auto simp: p1_create_hash_table_def create_hash_table_def forget_def split: prod.splits)
  then show ?thesis
    by (cases p) (auto simp: p1_kvs_init_def kvs_init_def split: prod.splits option.splits)
qed

lemma kvs_init_lonely: "kvs_init NullTable w = (r, q, w') \<Longrightarrow> lonely_ptr q"
  by (auto simp: kvs_init_def create_hash_table_def lonely_ptr_def lonely_def
      split: prod.splits if_splits option.splits)

lemma kvs_terminate_forget:
  "p1_kvs_terminate (forget_ptr p) w =
     map_res (\<lambda>(r, q, w'). (r, forget_ptr q, w')) (kvs_terminate p w)"
  by (cases p) (simp_all add: p1_kvs_terminate_def kvs_terminate_def p1_free_table_def free_table_def forget_def)

text \<open>
  C26: As long as nobody subscribes, the server does what the first project did: WRITE, DELETE and
  SHOW, the creation of the table and its release return the same, print the same, take the same
  locks and leave the same pairs, in every environment, for every key, failures and faults
  included.
\<close>

theorem server_extends_first_project:
  assumes "lonely_ptr p"
  shows "p1_kvs_write (forget_ptr p) keys vals w =
      map_res (\<lambda>(r, q, w'). (r, forget_ptr q, w')) (kvs_write p keys vals w) \<and>
    p1_kvs_delete (forget_ptr p) keys fdOut w =
      map_res (\<lambda>(r, q, w'). (r, forget_ptr q, w')) (kvs_delete p keys fdOut w) \<and>
    p1_kvs_show (forget_ptr p) fdOut w = kvs_show p fdOut w \<and>
    p1_kvs_init (forget_ptr p) w = (case kvs_init p w of (r, q, w') \<Rightarrow> (r, forget_ptr q, w')) \<and>
    p1_kvs_terminate (forget_ptr p) w =
      map_res (\<lambda>(r, q, w'). (r, forget_ptr q, w')) (kvs_terminate p w)"
  using kvs_write_forget(1) [OF assms] kvs_delete_forget(1) [OF assms] kvs_show_forget
    kvs_init_forget kvs_terminate_forget by blast

text \<open>The text of a node, and what the two backups make of it.\<close>

definition node_text :: "key_node \<Rightarrow> string" where
  "node_text n = ''('' @ nkey n @ '', '' @ the (nvalue n) @ '')'' @ [newline]"

definition short_node :: "key_node \<Rightarrow> bool" where
  "short_node n \<longleftrightarrow> length (nkey n) < MAX_STRING_SIZE \<and> length (the (nvalue n)) < MAX_STRING_SIZE"

lemma show_line_text: "short_node n \<Longrightarrow> show_line (nkey n) (the (nvalue n)) = node_text n"
  by (auto simp: show_line_def node_text_def short_node_def snprintf_def MAX_WRITE_SIZE_def MAX_STRING_SIZE_def)

text \<open>
  The backup of the first project holds the full text of every pair in the order of buckets and
  links; the backup of the server holds the first 39 characters of each of these texts.
\<close>

theorem backups_of_both_projects:
  assumes "no_null ht" and "healthy w fd" and "\<forall>n \<in> set (all_nodes ht). short_node n"
  shows "p1_kvs_backup (P1Table (forget ht)) fd w =
      Inr (0, w\<lparr>w_out := (w_out w)(fd := w_out w fd @ concat (map node_text (all_nodes ht))),
        w_open := removeAll fd (w_open w)\<rparr>) \<and>
    kvs_backup (Table ht) fd w =
      Inr (0, w\<lparr>w_out := (w_out w)(fd := w_out w fd @ concat (map (\<lambda>n. take 39 (node_text n)) (all_nodes ht))),
        w_open := removeAll fd (w_open w)\<rparr>)"
proof
  have "show_table ht fd w = Inr (w\<lparr>w_out := (w_out w)(fd := w_out w fd @
      concat (map (\<lambda>n. show_line (nkey n) (the (nvalue n))) (all_nodes ht)))\<rparr>)"
    unfolding show_table_def for_each_concat all_nodes_def [symmetric]
    using assms(1,2)
    by (intro print_nodes) (auto simp: no_null_def emit_healthy healthy_def show_line_nonempty)
  moreover have "map (\<lambda>n. show_line (nkey n) (the (nvalue n))) (all_nodes ht) = map node_text (all_nodes ht)"
    using assms(3) by (simp add: show_line_text)
  ultimately show "p1_kvs_backup (P1Table (forget ht)) fd w =
      Inr (0, w\<lparr>w_out := (w_out w)(fd := w_out w fd @ concat (map node_text (all_nodes ht))),
        w_open := removeAll fd (w_open w)\<rparr>)"
    using assms(2) by (simp add: p1_kvs_backup_def print_table_forget sys_close_def healthy_def)
  show "kvs_backup (Table ht) fd w =
      Inr (0, w\<lparr>w_out := (w_out w)(fd := w_out w fd @ concat (map (\<lambda>n. take 39 (node_text n)) (all_nodes ht))),
        w_open := removeAll fd (w_open w)\<rparr>)"
    using kvs_backup_run [OF assms(1,2)] by (simp add: backup_line_truncates node_text_def)
qed

lemma p1_read_search_eq: "p1_read_search b k w =
    (if k \<in> p1_key ` set b then Inl OutOfBounds else Inr (None, w))"
  by (induction b) auto

lemma p1_read_pair_eq:
  assumes "lonely ht"
  shows "p1_read_pair (forget ht) k w = (if node_of ht k = None then read_pair ht k w else Inl OutOfBounds)"
proof (cases "valid_key k")
  case True
  then have h: "\<not> hash k < 0" by (simp add: valid_key_def)
  have "p1_key ` set (map forget_node b) = nkey ` set b" for b by force
  then show ?thesis
    using forget_bucket(1) [OF assms h] True h bucket_map_None [of "buckets ht ! nat (hash k)" k]
    by (cases "bucket_map (buckets ht ! nat (hash k)) k")
      (simp_all add: p1_read_pair_def read_pair_def p1_read_search_eq read_search_eq node_of_bucket)
next
  case False
  then show ?thesis by (simp add: p1_read_pair_def read_pair_def node_of_def valid_key_def)
qed

lemma read_loop_forget:
  assumes "lonely ht"
  shows "(\<forall>k \<in> set ks. node_of ht k = None) \<Longrightarrow>
      read_loop p1_read_pair (forget ht) fd ks w = read_loop read_pair ht fd ks w"
    and "read_loop p1_read_pair (forget ht) fd ks w = Inl OutOfBounds \<or>
      read_loop p1_read_pair (forget ht) fd ks w = read_loop read_pair ht fd ks w"
    and "(\<forall>k \<in> set ks. valid_key k) \<Longrightarrow> (\<exists>k \<in> set ks. node_of ht k \<noteq> None) \<Longrightarrow>
      read_loop p1_read_pair (forget ht) fd ks w = Inl OutOfBounds"
proof (induction ks arbitrary: w)
  case Nil
  { case 1 then show ?case by (simp add: read_loop_def)
  next case 2 then show ?case by (simp add: read_loop_def)
  next case 3 then show ?case by simp }
next
  case (Cons k ks)
  { case 1
    then show ?case
      using Cons.IH(1) p1_read_pair_eq [OF assms, of k w]
      by (cases "read_pair ht k w") (simp_all add: read_loop_def split: prod.splits)
  next
    case 2
    then show ?case
      using Cons.IH(2) p1_read_pair_eq [OF assms, of k w]
      by (cases "read_pair ht k w") (simp_all add: read_loop_def split: prod.splits)
  next
    case 3
    have "read_pair ht k w = Inr (None, w)" if "node_of ht k = None"
      using 3(1) that by (simp add: read_pair_eq)
    then show ?case
      using 3 Cons.IH(3) p1_read_pair_eq [OF assms, of k w]
      by (cases "node_of ht k") (simp_all add: read_loop_def) }
qed

lemma kvs_read_forget:
  assumes "lonely_ptr p"
  shows "p1_kvs_read (forget_ptr p) ks fd w = Inl OutOfBounds \<or>
      p1_kvs_read (forget_ptr p) ks fd w = kvs_read p ks fd w"
    and "p = Table ht \<Longrightarrow> (\<forall>k \<in> set ks. node_of ht k = None) \<Longrightarrow>
      p1_kvs_read (forget_ptr p) ks fd w = kvs_read p ks fd w"
    and "p = Table ht \<Longrightarrow> w_lockres w = [] \<Longrightarrow> (\<forall>k \<in> set ks. valid_key k) \<Longrightarrow>
      (\<exists>k \<in> set ks. node_of ht k \<noteq> None) \<Longrightarrow> p1_kvs_read (forget_ptr p) ks fd w = Inl OutOfBounds"
proof -
  note loop = read_loop_forget [where ks = "sort ks"]
  show "p1_kvs_read (forget_ptr p) ks fd w = Inl OutOfBounds \<or>
      p1_kvs_read (forget_ptr p) ks fd w = kvs_read p ks fd w"
  proof (cases p)
    case (Table ht)
    then have "lonely ht" using assms by (simp add: lonely_ptr_def)
    note l = loop(2) [OF this]
    show ?thesis
    proof (cases "lock_read_list (sort ks) no_locks w")
      case (Inr res)
      then obtain r il w1 where res: "lock_read_list (sort ks) no_locks w = Inr (r, il, w1)" by (cases res) auto
      then show ?thesis
        using Table l [of fd "emit w1 fd ''[''"] by (auto simp: p1_kvs_read_def kvs_read_def)
    qed (simp add: Table p1_kvs_read_def kvs_read_def)
  qed (simp_all add: p1_kvs_read_def kvs_read_def)
  show "p1_kvs_read (forget_ptr p) ks fd w = kvs_read p ks fd w"
    if "p = Table ht" "\<forall>k \<in> set ks. node_of ht k = None"
  proof -
    have "lonely ht" using assms that(1) by (simp add: lonely_ptr_def)
    from loop(1) [OF this] show ?thesis using that
      by (simp add: p1_kvs_read_def kvs_read_def bindE_def Let_def split: sum.splits prod.splits)
  qed
  show "p1_kvs_read (forget_ptr p) ks fd w = Inl OutOfBounds"
    if p: "p = Table ht" and calm: "w_lockres w = []" and valid: "\<forall>k \<in> set ks. valid_key k"
      and present: "\<exists>k \<in> set ks. node_of ht k \<noteq> None"
  proof -
    have "lonely ht" using assms p by (simp add: lonely_ptr_def)
    note l = loop(3) [OF this]
    obtain il where "lock_list RdLock (sort ks) no_locks w =
        Inr (0, il, w\<lparr>w_locks := w_locks w @ acquired RdLock ks\<rparr>)"
      using lock_command [of ks w RdLock] calm valid by blast
    then show ?thesis using p present valid l by (simp add: p1_kvs_read_def lock_read_list_def)
  qed
qed

text \<open>
  In the first project, reading a key that is in the table stores a pointer into an object of one
  byte; only the reading of an absent key has a result.
\<close>

theorem first_project_read_faults:
  assumes "lonely ht" and "valid_key k"
  shows "p1_read_pair (forget ht) k w = (if node_of ht k = None then Inr (None, w) else Inl OutOfBounds)"
proof -
  have h: "\<not> hash k < 0" using assms(2) by simp
  have "p1_key ` set (map forget_node b) = nkey ` set b" for b by force
  then show ?thesis
    using forget_bucket(1) [OF assms(1) h] assms(2)
    by (simp add: p1_read_pair_def p1_read_search_eq node_of_bucket bucket_map_None)
qed

subsection \<open>Instances\<close>

definition quiet_table :: hash_table where
  "quiet_table = \<lparr>buckets = [\<lparr>nkey = ''a'', nvalue = Some ''1'', nsubs = []\<rparr>] # replicate 25 []\<rparr>"

lemma quiet_table_lonely: "lonely quiet_table"
  by (simp add: lonely_def quiet_table_def TABLE_SIZE_def)

theorem server_extends_first_project_witness:
  "p1_kvs_write (P1Table (forget quiet_table)) [''b'', ''-''] [''2'', ''3''] (quiet_world\<lparr>w_allocs := [False]\<rparr>) =
    map_res (\<lambda>(r, q, w'). (r, forget_ptr q, w'))
      (kvs_write (Table quiet_table) [''b'', ''-''] [''2'', ''3''] (quiet_world\<lparr>w_allocs := [False]\<rparr>))"
proof -
  have "lonely_ptr (Table quiet_table)" using quiet_table_lonely by (simp add: lonely_ptr_def)
  from server_extends_first_project [OF this] show ?thesis by simp
qed

theorem backups_of_both_projects_witness:
  "\<exists>w1 w2. p1_kvs_backup (P1Table (forget quiet_table)) 1 quiet_world = Inr (0, w1) \<and>
    kvs_backup (Table quiet_table) 1 quiet_world = Inr (0, w2) \<and>
    w_out w1 1 = ''(a, 1)'' @ [newline] \<and> w_out w2 1 = ''(a, 1)'' @ [newline]"
proof -
  have "no_null quiet_table" "\<forall>n \<in> set (all_nodes quiet_table). short_node n"
    by (simp_all add: no_null_def all_nodes_def quiet_table_def short_node_def MAX_STRING_SIZE_def)
  then show ?thesis
    using backups_of_both_projects [of quiet_table quiet_world 1]
    by (simp add: all_nodes_def quiet_table_def node_text_def)
qed

theorem first_project_read_faults_witness:
  "p1_read_pair (forget quiet_table) ''a'' quiet_world = Inl OutOfBounds"
proof -
  have "node_of quiet_table ''a'' \<noteq> None"
    by (simp add: node_of_def quiet_table_def hash_def char_at_def tolower_def)
  then show ?thesis
    using first_project_read_faults [OF quiet_table_lonely, of "''a''"] by (simp add: valid_key_ConsI)
qed

end
