(* ===== verification/Startup.thy ===== *)
theory Startup
  imports JobDirectory
begin

section \<open>The start of the programs (server/main.c and proj\_p1/main.c, main)\<close>

text \<open>
  What the two functions main share: the numbers on the command line, the outcome of a call that
  initialises or destroys a lock, the empty table and the first thread that works on it.
\<close>

text \<open>\<open>strtoul\<close> on an argument, with 64 bits: blanks, a sign, digits; too large numbers are cut.\<close>

definition is_blank :: "char \<Rightarrow> bool" where
  "is_blank c \<longleftrightarrow> c = CHR '' '' \<or> CHR 0x09 \<le> c \<and> c \<le> CHR 0x0D"

definition strtoul :: "string \<Rightarrow> nat" where
  "strtoul text =
     (let s = dropWhile is_blank text;
          minus = take 1 s = ''-'';
          ds = (if minus \<or> take 1 s = ''+'' then drop 1 s else s);
          v = decimal (takeWhile is_digit ds)
      in if v \<ge> 2 ^ 64 then 2 ^ 64 - 1 else if minus then (2 ^ 64 - v) mod 2 ^ 64 else v)"

text \<open>
  The initialisation of a lock, or its destruction, fails as the next of the scheduled outcomes
  says; the mutexes are implicit.
\<close>

definition lock_outcome :: "world \<Rightarrow> bool \<times> world" where
  "lock_outcome w =
     (case w_lockres w of [] \<Rightarrow> (False, w) | failed # rest \<Rightarrow> (failed, w\<lparr>w_lockres := rest\<rparr>))"

definition empty_table :: hash_table where
  "empty_table = \<lparr>buckets = replicate TABLE_SIZE []\<rparr>"

lemma empty_table_facts:
  "sound_table empty_table" "targets empty_table = {}" "kvs_map empty_table = Map.empty"
proof -
  have nodes: "all_nodes empty_table = []" by (simp add: all_nodes_def empty_table_def)
  show "sound_table empty_table" "targets empty_table = {}"
    using nodes by (simp_all add: sound_table_def wf_table_def no_null_def targets_def empty_table_def wf_bucket_def)
  have "nat (hash k) < TABLE_SIZE" for k using hash_bounds [of k] by (simp add: TABLE_SIZE_def)
  then show "kvs_map empty_table = Map.empty"
    by (auto simp: kvs_map_def node_of_def empty_table_def bucket_map_def fun_eq_iff)
qed

lemma init_locks_calm: "init_bucket_locks is []"
  by (induction "is") simp_all

lemma kvs_init_calm: "calm w \<Longrightarrow> kvs_init NullTable w = (0, Table empty_table, w)"
  using init_locks_calm by (simp add: kvs_init_def create_hash_table_def calm_def empty_table_def)

lemma lock_outcome_calm: "calm w \<Longrightarrow> lock_outcome w = (False, w)"
  by (simp add: lock_outcome_def calm_def)

text \<open>The first thread of main.\<close>

definition first_thread :: "world \<Rightarrow> 32 word \<Rightarrow> bool list \<Rightarrow> job_thread" where
  "first_thread w counter forks =
     \<lparr>t_job = \<lparr>j_table = Table empty_table, j_world = w, j_input = [], backupCounter = counter,
        j_children = 0, fileBackups = 1, j_forks = forks, j_backups = []\<rparr>, t_outputs = []\<rparr>"

lemma first_thread_ready:
  assumes "calm w" and "\<forall>fd. w_wsched w fd = []"
  shows "thread_ready (first_thread w counter forks) empty_table"
  using assms empty_table_facts by (simp add: thread_ready_def first_thread_def)

end
