(* ===== verification/FirstParser.thy ===== *)
theory FirstParser
  imports ClientParser FirstProject
begin

section \<open>The parser of the first project (proj\_p1/parser.c)\<close>

text \<open>
  Here the parser is modelled the way it works on memory: a file with an offset that every \<open>read\<close>
  moves, the buffer of the command word with cells that may never have been written, word buffers
  that are updated by index, and the arrays of keys and values of the caller, which keep what earlier
  commands left in them. The theorems show that it refines the model of JobParser, which knows
  only the rest of the text and the lists of words: same faults, same counts, same offset, and the
  first entries of the arrays hold the words of the list.
\<close>

subsection \<open>A file with its offset\<close>

record p1_file =
  f_text :: string
  f_pos :: nat

definition read_bytes :: "nat \<Rightarrow> p1_file \<Rightarrow> string \<times> p1_file" where
  "read_bytes n f =
     (let bs = take n (drop (f_pos f) (f_text f)) in (bs, f\<lparr>f_pos := f_pos f + length bs\<rparr>))"

definition read_byte :: "p1_file \<Rightarrow> string \<times> p1_file" where
  "read_byte = read_bytes 1"

text \<open>The abstraction: what the model of JobParser has as its state.\<close>

definition unread :: "p1_file \<Rightarrow> string" where
  "unread f = drop (f_pos f) (f_text f)"

lemma read_bytes_unread:
  obtains f' where "read_bytes n f = (take n (unread f), f')" and "unread f' = drop n (unread f)"
    and "f_text f' = f_text f"
proof -
  have "drop (f_pos f + length (take n (unread f))) (f_text f) = drop n (unread f)"
    by (cases "n \<le> length (unread f)") (simp_all add: unread_def add.commute)
  then show thesis
    by (intro that [of "f\<lparr>f_pos := f_pos f + length (take n (unread f))\<rparr>"])
      (simp_all add: read_bytes_def unread_def Let_def)
qed

lemma read_byte_none: "unread f = [] \<Longrightarrow> read_byte f = ([], f)"
  by (simp add: read_byte_def read_bytes_def unread_def)

lemma read_byte_some:
  assumes "unread f = c # cs"
  obtains f' where "read_byte f = ([c], f')" and "unread f' = cs"
proof -
  obtain f' where "read_bytes 1 f = (take 1 (unread f), f')" "unread f' = drop 1 (unread f)"
    by (rule read_bytes_unread)
  then show thesis using that assms by (simp add: read_byte_def)
qed

subsection \<open>Words and numbers\<close>

text \<open>The last lines of \<open>read_string\<close>: the terminator is stored at the index.\<close>

definition p1_word_end :: "int \<Rightarrow> nat \<Rightarrow> string \<Rightarrow> p1_file \<Rightarrow> (int \<times> string \<times> p1_file) res" where
  "p1_word_end result i buffer f =
     (if i < length buffer then Inr (result, buffer[i := NUL], f) else Inl OutOfBounds)"

fun p1_word_loop :: "nat \<Rightarrow> nat \<Rightarrow> string \<Rightarrow> p1_file \<Rightarrow> (int \<times> string \<times> p1_file) res" where
  "p1_word_loop 0 i buffer f = p1_word_end (- 1) i buffer f"
| "p1_word_loop (Suc left) i buffer f =
     (case read_byte f of (bs, f') \<Rightarrow>
        if bs = [] then Inr (- 1, buffer, f')
        else if bs = '' '' then Inr (- 1, buffer, f')
        else if bs = '','' then p1_word_end 0 i buffer f'
        else if bs = '')'' then p1_word_end 1 i buffer f'
        else if bs = '']'' then p1_word_end 2 i buffer f'
        else if i < length buffer then p1_word_loop left (i + 1) (buffer[i := hd bs]) f'
        else Inl OutOfBounds)"

definition p1_read_string :: "string \<Rightarrow> nat \<Rightarrow> p1_file \<Rightarrow> (int \<times> string \<times> p1_file) res" where
  "p1_read_string buffer max_size f = p1_word_loop max_size 0 buffer f"

definition p1_number ::
  "char option list \<Rightarrow> char \<Rightarrow> p1_file \<Rightarrow> (int \<times> 32 word option \<times> char \<times> p1_file) res" where
  "p1_number buf next_char f =
     bindE (strtoul_digits buf) (\<lambda>ds.
       let ul = decimal ds in
       if ul > UINT_MAX then Inr (1, None, next_char, f)
       else Inr (0, Some (word_of_nat ul), next_char, f))"

function p1_uint_loop ::
  "nat \<Rightarrow> char option list \<Rightarrow> p1_file \<Rightarrow> (int \<times> 32 word option \<times> char \<times> p1_file) res" where
  "p1_uint_loop i buf f =
     (case read_byte f of (bs, f') \<Rightarrow>
        if bs = [] then p1_number buf NUL f'
        else if i \<ge> length buf then Inl OutOfBounds
        else if hd bs > CHR ''9'' \<or> hd bs < CHR ''0'' then p1_number (buf[i := Some NUL]) (hd bs) f'
        else p1_uint_loop (i + 1) (buf[i := Some (hd bs)]) f')"
  by pat_completeness auto
termination
proof (relation "measure (\<lambda>(i, buf, f). length (unread f))", goal_cases)
  case 1
  show ?case by simp
next
  case (2 i buf f bs f')
  then obtain c cs where "unread f = c # cs" using read_byte_none by (cases "unread f") auto
  with 2 show ?case using read_byte_some by fastforce
qed

declare p1_uint_loop.simps [simp del]

definition p1_read_uint :: "p1_file \<Rightarrow> (int \<times> 32 word option \<times> char \<times> p1_file) res" where
  "p1_read_uint f = p1_uint_loop 0 (replicate 16 None) f"

function p1_cleanup :: "p1_file \<Rightarrow> p1_file" where
  "p1_cleanup f =
     (case read_byte f of (bs, f') \<Rightarrow>
        if length bs = 1 \<and> bs \<noteq> [newline] then p1_cleanup f' else f')"
  by pat_completeness auto
termination
proof (relation "measure (\<lambda>f. length (unread f))", goal_cases)
  case 1
  show ?case by simp
next
  case (2 f bs f')
  then obtain c cs where "unread f = c # cs" using read_byte_none by (cases "unread f") auto
  with 2 show ?case using read_byte_some by fastforce
qed

declare p1_cleanup.simps [simp del]

lemma unread_cleanup [simp]: "unread (p1_cleanup f) = cleanup (unread f)"
proof (induction f rule: p1_cleanup.induct)
  case (1 f)
  show ?case
  proof (cases "unread f")
    case Nil
    then show ?thesis by (simp add: p1_cleanup.simps [of f] read_byte_none)
  next
    case (Cons c cs)
    then obtain f' where f': "read_byte f = ([c], f')" "unread f' = cs" by (rule read_byte_some)
    then show ?thesis using 1 [of "[c]" f'] Cons by (simp add: p1_cleanup.simps [of f])
  qed
qed

text \<open>A result on memory that stands for a result on texts: the same fault, or related values.\<close>

definition res_refines :: "('a \<Rightarrow> 'b \<Rightarrow> bool) \<Rightarrow> 'a res \<Rightarrow> 'b res \<Rightarrow> bool" where
  "res_refines R mem spec \<longleftrightarrow>
     (case spec of Inl e \<Rightarrow> mem = Inl e | Inr y \<Rightarrow> \<exists>x. mem = Inr x \<and> R x y)"

lemma res_refines_simps [simp]:
  "res_refines R mem (Inl e) \<longleftrightarrow> mem = Inl e"
  "res_refines R mem (Inr y) \<longleftrightarrow> (\<exists>x. mem = Inr x \<and> R x y)"
  by (simp_all add: res_refines_def)

lemma res_refines_bind:
  assumes "res_refines R mem spec" and "\<And>x y. R x y \<Longrightarrow> res_refines S (g x) (h y)"
  shows "res_refines S (bindE mem g) (bindE spec h)"
  using assms by (cases spec) auto

definition word_rel :: "nat \<Rightarrow> int \<times> string \<times> p1_file \<Rightarrow> int \<times> string \<times> string \<Rightarrow> bool" where
  "word_rel n mem spec \<longleftrightarrow>
     (case (mem, spec) of ((r', buffer, f'), (r, s, rest)) \<Rightarrow> r' = r \<and> unread f' = rest \<and>
        length buffer = n \<and> (0 \<le> r \<longrightarrow> NUL \<in> set buffer \<and> c_str buffer = c_str s))"

abbreviation word_refines ::
  "nat \<Rightarrow> (int \<times> string \<times> p1_file) res \<Rightarrow> (int \<times> string \<times> string) res \<Rightarrow> bool" where
  "word_refines n \<equiv> res_refines (word_rel n)"

lemma word_loop_refines:
  assumes "i + left = length buffer"
  shows "word_refines (length buffer) (p1_word_loop left i buffer f)
    (read_string_from left (take i buffer) (unread f))"
  using assms
proof (induction left i buffer f rule: p1_word_loop.induct)
  case (1 i buffer f)
  then show ?case by (simp add: word_rel_def p1_word_end_def)
next
  case (2 left i buffer f)
  show ?case
  proof (cases "unread f")
    case Nil
    then show ?thesis by (simp add: word_rel_def read_byte_none)
  next
    case (Cons c cs)
    then obtain f' where f': "read_byte f = ([c], f')" "unread f' = cs" by (rule read_byte_some)
    have i: "i < length buffer" using 2 by simp
    show ?thesis
    proof (cases "c \<in> {CHR '' '', CHR '','', CHR '')'', CHR '']''}")
      case True
      then show ?thesis
        using Cons f' i
        by (auto simp: word_rel_def p1_word_end_def c_str_terminate intro: set_update_memI)
    next
      case False
      then have "word_refines (length (buffer[i := c])) (p1_word_loop left (i + 1) (buffer[i := c]) f')
          (read_string_from left (take (i + 1) (buffer[i := c])) (unread f'))"
        using "2.IH" [OF f'(1) [symmetric]] "2.prems" i by simp
      then show ?thesis using False Cons f' i by (simp add: take_store)
    qed
  qed
qed

lemma read_string_refines:
  "word_refines (length buffer) (p1_read_string buffer (length buffer) f)
    (read_string (length buffer) (unread f))"
  using word_loop_refines [of 0 "length buffer" buffer f] by (simp add: p1_read_string_def read_string_def)

lemma p1_number_refines:
  "unread f = inp \<Longrightarrow> number_of buf ch inp = map_res (\<lambda>(r, v, ch, f'). (r, v, ch, unread f')) (p1_number buf ch f)"
  by (cases "strtoul_digits buf") (simp_all add: number_of_def p1_number_def Let_def)

lemma uint_loop_refines:
  "client_read_uint_from (unread f) i buf =
     map_res (\<lambda>(r, v, ch, f'). (r, v, ch, unread f')) (p1_uint_loop i buf f)"
proof (induction i buf f rule: p1_uint_loop.induct)
  case (1 i buf f)
  show ?case
  proof (cases "unread f")
    case Nil
    then show ?thesis by (simp add: p1_uint_loop.simps [of i buf f] read_byte_none p1_number_refines)
  next
    case (Cons c cs)
    then obtain f' where f': "read_byte f = ([c], f')" "unread f' = cs" by (rule read_byte_some)
    show ?thesis
      using 1 [of "[c]" f'] Cons f' p1_number_refines [OF f'(2)]
      by (auto simp: p1_uint_loop.simps [of i buf f])
  qed
qed

lemma read_uint_refines:
  "read_uint (unread f) = map_res (\<lambda>(r, v, ch, f'). (r, v, ch, unread f')) (p1_read_uint f)"
  using uint_loop_refines [of f 0 "replicate 16 None"]
  by (simp add: p1_read_uint_def client_read_uint_eq [symmetric] client_read_uint_def)

subsection \<open>The command word\<close>

text \<open>\<open>strncmp\<close> of the buffer with a word, up to the length of the word.\<close>

fun buf_is :: "char option list \<Rightarrow> string \<Rightarrow> bool res" where
  "buf_is cells [] = Inr True"
| "buf_is [] (c # kw) = Inl OutOfBounds"
| "buf_is (None # cells) (c # kw) = Inl Uninitialised"
| "buf_is (Some b # cells) (c # kw) = (if b = c then buf_is cells kw else Inr False)"

definition store :: "char option list \<Rightarrow> nat \<Rightarrow> string \<Rightarrow> char option list" where
  "store buf i bs = take i buf @ map Some bs @ drop (i + length bs) buf"

text \<open>
  \<open>read(fd, buf + i, n) != n || strncmp(buf, kw, ...) != 0\<close>, with the buffer afterwards; and the test
  of the character after a command without arguments.
\<close>

definition p1_keyword ::
  "char option list \<Rightarrow> nat \<Rightarrow> nat \<Rightarrow> string \<Rightarrow> p1_file \<Rightarrow> (bool \<times> char option list \<times> p1_file) res" where
  "p1_keyword buf i n kw f =
     (case read_bytes n f of (bs, f') \<Rightarrow>
        if length bs \<noteq> n then Inr (True, store buf i bs, f')
        else bindE (buf_is (store buf i bs) kw) (\<lambda>same. Inr (\<not> same, store buf i bs, f')))"

definition p1_line_end :: "command \<Rightarrow> p1_file \<Rightarrow> command \<times> p1_file" where
  "p1_line_end cmd f =
     (case read_byte f of (bs, f') \<Rightarrow>
        if length bs \<noteq> 0 \<and> bs \<noteq> [newline] then (command.CMD_INVALID, p1_cleanup f') else (cmd, f'))"

definition p1_get_next :: "p1_file \<Rightarrow> (command \<times> p1_file) res" where
  "p1_get_next f =
     (case read_byte f of (b0, f1) \<Rightarrow>
        if length b0 \<noteq> 1 then Inr (command.EOC, f1)
        else
          (let buf = store (replicate 16 None) 0 b0;
               invalid = (\<lambda>f'. (command.CMD_INVALID, p1_cleanup f')) in
           if b0 = ''W'' then
             bindE (p1_keyword buf 1 4 ''WAIT '' f1) (\<lambda>(bad, buf2, f2).
               if bad then bindE (p1_keyword buf2 5 1 ''WRITE '' f2) (\<lambda>(bad', buf3, f3).
                 Inr (if bad' then invalid f3 else (CMD_WRITE, f3)))
               else Inr (CMD_WAIT, f2))
           else if b0 = ''R'' then
             bindE (p1_keyword buf 1 4 ''READ '' f1) (\<lambda>(bad, buf2, f2).
               Inr (if bad then invalid f2 else (CMD_READ, f2)))
           else if b0 = ''D'' then
             bindE (p1_keyword buf 1 6 ''DELETE '' f1) (\<lambda>(bad, buf2, f2).
               Inr (if bad then invalid f2 else (CMD_DELETE, f2)))
           else if b0 = ''S'' then
             bindE (p1_keyword buf 1 3 ''SHOW'' f1) (\<lambda>(bad, buf2, f2).
               Inr (if bad then invalid f2 else p1_line_end CMD_SHOW f2))
           else if b0 = ''B'' then
             bindE (p1_keyword buf 1 5 ''BACKUP'' f1) (\<lambda>(bad, buf2, f2).
               Inr (if bad then invalid f2 else p1_line_end CMD_BACKUP f2))
           else if b0 = ''H'' then
             bindE (p1_keyword buf 1 3 ''HELP'' f1) (\<lambda>(bad, buf2, f2).
               Inr (if bad then invalid f2 else p1_line_end CMD_HELP f2))
           else if b0 = ''#'' then Inr (command.CMD_EMPTY, p1_cleanup f1)
           else if b0 = [newline] then Inr (command.CMD_EMPTY, f1)
           else Inr (invalid f1)))"

lemma buf_is_text: "length kw \<le> length pre \<Longrightarrow>
    buf_is (map Some pre @ cells) kw = Inr (take (length kw) pre = kw)"
proof (induction kw arbitrary: pre)
  case Nil
  then show ?case by simp
next
  case (Cons c kw)
  then show ?case by (cases pre) auto
qed

lemma keyword_refines:
  assumes "take i buf = map Some pre" and "length pre = i" and "length kw = i + n"
    and bs: "bs = take n (unread f)"
  shows "\<exists>buf' f'. p1_keyword buf i n kw f = Inr (length bs \<noteq> n \<or> pre @ bs \<noteq> kw, buf', f') \<and>
    unread f' = drop n (unread f) \<and> take (i + length bs) buf' = map Some (pre @ bs)"
proof -
  obtain f' where f': "read_bytes n f = (bs, f')" "unread f' = drop n (unread f)"
    using read_bytes_unread [of n f] bs by metis
  have st: "store buf i bs = map Some (pre @ bs) @ drop (i + length bs) buf"
    using assms(1) by (simp add: store_def)
  have "buf_is (store buf i bs) kw = Inr (pre @ bs = kw)" if "length bs = n"
    using that assms(2,3) buf_is_text [of kw "pre @ bs"] by (simp add: st)
  then have "p1_keyword buf i n kw f = Inr (length bs \<noteq> n \<or> pre @ bs \<noteq> kw, store buf i bs, f')"
    using f'(1) by (simp add: p1_keyword_def)
  then show ?thesis using f'(2) assms(2) by (auto simp: st)
qed

lemma line_end_refines:
  obtains f' where "p1_line_end cmd f =
      (if length (take 1 (unread f)) \<noteq> 0 \<and> take 1 (unread f) \<noteq> [newline] then command.CMD_INVALID else cmd, f')"
    and "unread f' = (if length (take 1 (unread f)) \<noteq> 0 \<and> take 1 (unread f) \<noteq> [newline]
      then cleanup (drop 1 (unread f)) else drop 1 (unread f))"
proof (cases "unread f")
  case Nil
  then show thesis by (intro that [of f]) (simp_all add: p1_line_end_def read_byte_none)
next
  case (Cons c cs)
  then obtain f' where f': "read_byte f = ([c], f')" "unread f' = cs" by (rule read_byte_some)
  then show thesis
    using Cons by (intro that [of "if c \<noteq> newline then p1_cleanup f' else f'"]) (simp_all add: p1_line_end_def)
qed

text \<open>The part of \<open>get_next\<close> on the text that a word with its tests makes up.\<close>

lemma one_word_refines:
  assumes "kw = b # kw'" and "n = length kw'"
    and "unread f1 = inp" and "bs = take n inp"
  shows "\<exists>buf f'. p1_keyword (store (replicate 16 None) 0 [b]) 1 n kw f1 =
      Inr (length bs \<noteq> n \<or> [b] @ bs \<noteq> kw, buf, f') \<and>
    unread f' = drop n inp \<and> take (1 + length bs) buf = map Some ([b] @ bs)"
proof -
  have "take 1 (store (replicate 16 None) 0 [b]) = map Some [b]" by (simp add: store_def)
  moreover have "length [b] = 1" "length kw = 1 + n" using assms(1,2) by simp_all
  ultimately show ?thesis using keyword_refines [of 1 _ "[b]" kw n bs f1] assms(3,4) by blast
qed

lemma get_next_word:
  assumes "unread f1 = inp" and "kw = b # kw'" and "n = length kw'"
  shows "\<exists>f'. bindE (p1_keyword (store (replicate 16 None) 0 [b]) 1 n kw f1)
      (\<lambda>(bad, buf2, f2). Inr (if bad then (command.CMD_INVALID, p1_cleanup f2) else (cmd, f2))) =
      Inr (if length (take n inp) \<noteq> n \<or> [b] @ take n inp \<noteq> kw then command.CMD_INVALID else cmd, f') \<and>
    unread f' = (if length (take n inp) \<noteq> n \<or> [b] @ take n inp \<noteq> kw then cleanup (drop n inp) else drop n inp)"
proof -
  obtain buf f' where "p1_keyword (store (replicate 16 None) 0 [b]) 1 n kw f1 =
      Inr (length (take n inp) \<noteq> n \<or> [b] @ take n inp \<noteq> kw, buf, f')" "unread f' = drop n inp"
    using one_word_refines [OF assms(2,3,1)] by blast
  then show ?thesis by (auto simp del: length_take)
qed

lemma get_next_bare_word:
  assumes "unread f1 = inp" and "kw = b # kw'" and "n = length kw'"
  shows "\<exists>f'. bindE (p1_keyword (store (replicate 16 None) 0 [b]) 1 n kw f1)
      (\<lambda>(bad, buf2, f2). Inr (if bad then (command.CMD_INVALID, p1_cleanup f2) else p1_line_end cmd f2)) =
      Inr (fst (if length (take n inp) \<noteq> n \<or> [b] @ take n inp \<noteq> kw then (command.CMD_INVALID, cleanup (drop n inp))
        else if length (take 1 (drop n inp)) \<noteq> 0 \<and> take 1 (drop n inp) \<noteq> [newline]
        then (command.CMD_INVALID, cleanup (drop 1 (drop n inp))) else (cmd, drop 1 (drop n inp))), f') \<and>
    unread f' = snd (if length (take n inp) \<noteq> n \<or> [b] @ take n inp \<noteq> kw then (command.CMD_INVALID, cleanup (drop n inp))
        else if length (take 1 (drop n inp)) \<noteq> 0 \<and> take 1 (drop n inp) \<noteq> [newline]
        then (command.CMD_INVALID, cleanup (drop 1 (drop n inp))) else (cmd, drop 1 (drop n inp)))"
proof -
  obtain buf f' where f': "p1_keyword (store (replicate 16 None) 0 [b]) 1 n kw f1 =
      Inr (length (take n inp) \<noteq> n \<or> [b] @ take n inp \<noteq> kw, buf, f')" "unread f' = drop n inp"
    using one_word_refines [OF assms(2,3,1)] by blast
  obtain f'' where "p1_line_end cmd f' = (if length (take 1 (unread f')) \<noteq> 0 \<and> take 1 (unread f') \<noteq> [newline]
      then command.CMD_INVALID else cmd, f'')"
    "unread f'' = (if length (take 1 (unread f')) \<noteq> 0 \<and> take 1 (unread f') \<noteq> [newline]
      then cleanup (drop 1 (unread f')) else drop 1 (unread f'))"
    by (rule line_end_refines)
  then show ?thesis using f' by (auto simp del: length_take drop_drop)
qed

text \<open>The two words that start with W: the second test reads one more character.\<close>

lemma get_next_two_words:
  assumes "unread f1 = inp"
  shows "\<exists>f'. bindE (p1_keyword (store (replicate 16 None) 0 ''W'') 1 4 ''WAIT '' f1) (\<lambda>(bad, buf2, f2).
       if bad then bindE (p1_keyword buf2 5 1 ''WRITE '' f2) (\<lambda>(bad', buf3, f3).
         Inr (if bad' then (command.CMD_INVALID, p1_cleanup f3) else (CMD_WRITE, f3)))
       else Inr (CMD_WAIT, f2)) =
    Inr (if length (take 4 inp) \<noteq> 4 \<or> ''W'' @ take 4 inp \<noteq> ''WAIT '' then
           (if length (take 1 (drop 4 inp)) \<noteq> 1 \<or> (''W'' @ take 4 inp) @ take 1 (drop 4 inp) \<noteq> ''WRITE ''
            then command.CMD_INVALID else CMD_WRITE)
         else CMD_WAIT, f') \<and>
    unread f' = (if length (take 4 inp) \<noteq> 4 \<or> ''W'' @ take 4 inp \<noteq> ''WAIT '' then
           (if length (take 1 (drop 4 inp)) \<noteq> 1 \<or> (''W'' @ take 4 inp) @ take 1 (drop 4 inp) \<noteq> ''WRITE ''
            then cleanup (drop 1 (drop 4 inp)) else drop 1 (drop 4 inp))
         else drop 4 inp)"
proof -
  define b where "b = take 4 inp"
  define rest where "rest = drop 4 inp"
  obtain buf2 f2 where k1: "p1_keyword (store (replicate 16 None) 0 ''W'') 1 4 ''WAIT '' f1 =
      Inr (length b \<noteq> 4 \<or> ''W'' @ b \<noteq> ''WAIT '', buf2, f2)" "unread f2 = rest"
    "take (1 + length b) buf2 = map Some (''W'' @ b)"
    using one_word_refines [of "''WAIT ''" "CHR ''W''" "''AIT ''" 4 f1 inp b] assms
    by (auto simp: b_def [symmetric] rest_def [symmetric])
  have "\<exists>buf3 f3. p1_keyword buf2 5 1 ''WRITE '' f2 =
      Inr (length (take 1 rest) \<noteq> 1 \<or> (''W'' @ b) @ take 1 rest \<noteq> ''WRITE '', buf3, f3) \<and>
      unread f3 = drop 1 rest"
  proof (cases "length b = 4")
    case True
    then show ?thesis
      using keyword_refines [of 5 buf2 "''W'' @ b" "''WRITE ''" 1 "take 1 rest" f2] k1(2,3) by auto
  next
    case False
    then have "rest = []" by (simp add: b_def rest_def)
    moreover obtain f3 where "read_bytes 1 f2 = (take 1 (unread f2), f3)" "unread f3 = drop 1 (unread f2)"
      by (rule read_bytes_unread)
    ultimately show ?thesis using k1(2) by (simp add: p1_keyword_def)
  qed
  then obtain buf3 f3 where "p1_keyword buf2 5 1 ''WRITE '' f2 =
      Inr (length (take 1 rest) \<noteq> 1 \<or> (''W'' @ b) @ take 1 rest \<noteq> ''WRITE '', buf3, f3)"
    "unread f3 = drop 1 rest" by blast
  then show ?thesis unfolding b_def [symmetric] rest_def [symmetric] using k1 by auto
qed

lemma get_next_refines:
  obtains f' where "p1_get_next f = Inr (fst (get_next (unread f)), f')"
    and "unread f' = snd (get_next (unread f))"
proof -
  have "\<exists>f'. p1_get_next f = Inr (fst (get_next (unread f)), f') \<and> unread f' = snd (get_next (unread f))"
  proof (cases "unread f")
    case Nil
    then show ?thesis by (simp add: p1_get_next_def get_next_def read_byte_none)
  next
    case (Cons c bs)
    then obtain f1 where f1: "read_byte f = ([c], f1)" "unread f1 = bs" by (rule read_byte_some)
    have c: "take 1 (unread f) = [c]" "drop 1 (unread f) = bs" using Cons by simp_all
    note del = length_take drop_drop take_Suc drop_Suc append_Cons
    consider "c = CHR ''W''" | "c = CHR ''R''" | "c = CHR ''D''" | "c = CHR ''S''" | "c = CHR ''B''" |
      "c = CHR ''H''" | "c \<notin> {CHR ''W'', CHR ''R'', CHR ''D'', CHR ''S'', CHR ''B'', CHR ''H''}" by blast
    then show ?thesis
    proof cases
      case 1
      show ?thesis unfolding p1_get_next_def get_next_def c
        using get_next_two_words [OF f1(2)] f1 1 by (auto simp: Let_def simp del: del)
    next
      case 2
      show ?thesis unfolding p1_get_next_def get_next_def c
        using get_next_word [OF f1(2), of "''READ ''" c "''EAD ''" 4 CMD_READ] f1 2
        by (auto simp: Let_def simp del: del)
    next
      case 3
      show ?thesis unfolding p1_get_next_def get_next_def c
        using get_next_word [OF f1(2), of "''DELETE ''" c "''ELETE ''" 6 CMD_DELETE] f1 3
        by (auto simp: Let_def simp del: del)
    next
      case 4
      show ?thesis unfolding p1_get_next_def get_next_def c
        using get_next_bare_word [OF f1(2), of "''SHOW''" c "''HOW''" 3 CMD_SHOW] f1 4
        by (auto simp: Let_def simp del: del)
    next
      case 5
      show ?thesis unfolding p1_get_next_def get_next_def c
        using get_next_bare_word [OF f1(2), of "''BACKUP''" c "''ACKUP''" 5 CMD_BACKUP] f1 5
        by (auto simp: Let_def simp del: del)
    next
      case 6
      show ?thesis unfolding p1_get_next_def get_next_def c
        using get_next_bare_word [OF f1(2), of "''HELP''" c "''ELP''" 3 CMD_HELP] f1 6
        by (auto simp: Let_def simp del: del)
    next
      case 7
      then show ?thesis unfolding p1_get_next_def get_next_def c using f1 by (auto simp: Let_def)
    qed
  qed
  then show thesis using that by blast
qed

subsection \<open>Arrays of words\<close>

text \<open>
  \<open>strcpy\<close> into the array with the index \<open>i\<close>: the source must be terminated, the text and its
  terminator must fit, and the cells behind the terminator keep what they held.
\<close>

definition strcpy_at :: "string list \<Rightarrow> nat \<Rightarrow> string \<Rightarrow> string list res" where
  "strcpy_at arr i src =
     (if i \<ge> length arr \<or> NUL \<notin> set src \<or> length (c_str src) \<ge> length (arr ! i) then Inl OutOfBounds
      else Inr (arr[i := c_str src @ NUL # drop (Suc (length (c_str src))) (arr ! i)]))"

text \<open>What a function that is given the first \<open>n\<close> entries as strings reads.\<close>

definition arg_strings :: "nat \<Rightarrow> string list \<Rightarrow> string list res" where
  "arg_strings n arr =
     (if n \<le> length arr \<and> (\<forall>buffer \<in> set (take n arr). NUL \<in> set buffer)
      then Inr (map c_str (take n arr)) else Inl OutOfBounds)"

text \<open>
  The result of \<open>parse_pair\<close> is its return value and the two buffers. The buffers of the callers are
  arrays on the stack whose first contents are arguments here, as they can be anything.
\<close>

definition p1_parse_pair ::
  "string \<Rightarrow> string \<Rightarrow> p1_file \<Rightarrow> (int \<times> string \<times> string \<times> p1_file) res" where
  "p1_parse_pair key val f =
     bindE (p1_read_string key MAX_STRING_SIZE f) (\<lambda>(r, key', f1).
       if r \<noteq> 0 then Inr (0, key', val, p1_cleanup f1)
       else bindE (p1_read_string val MAX_STRING_SIZE f1) (\<lambda>(r', val', f2).
         if r' \<noteq> 1 then Inr (0, key', val', p1_cleanup f2) else Inr (1, key', val', f2)))"

text \<open>The loop of \<open>parse_write\<close>; \<open>None\<close> in the place of the count is the early return of 0.\<close>

function p1_write_loop ::
  "nat \<Rightarrow> nat \<Rightarrow> string \<Rightarrow> string \<Rightarrow> string list \<Rightarrow> string list \<Rightarrow> p1_file \<Rightarrow>
    (nat option \<times> string list \<times> string list \<times> p1_file) res" where
  "p1_write_loop max_pairs num_pairs key val keys vals f =
     (if num_pairs < max_pairs then
        bindE (p1_parse_pair key val f) (\<lambda>(r, key, val, f1).
          if r = 0 then Inr (None, keys, vals, p1_cleanup f1)
          else bindE (strcpy_at keys num_pairs key) (\<lambda>keys.
            bindE (strcpy_at vals num_pairs val) (\<lambda>vals.
              (case read_byte f1 of (ch, f2) \<Rightarrow>
                 if length ch \<noteq> 1 \<or> ch \<noteq> ''('' \<and> ch \<noteq> '']'' then Inr (None, keys, vals, p1_cleanup f2)
                 else if ch = '']'' then Inr (Some (num_pairs + 1), keys, vals, f2)
                 else p1_write_loop max_pairs (num_pairs + 1) key val keys vals f2))))
      else Inr (Some num_pairs, keys, vals, f))"
  by pat_completeness auto
termination by (relation "measure (\<lambda>(max_pairs, num_pairs, _). max_pairs - num_pairs)") auto

declare p1_write_loop.simps [simp del]

text \<open>The tests after the loop.\<close>

definition p1_args_end :: "nat \<Rightarrow> nat option \<Rightarrow> p1_file \<Rightarrow> nat \<times> p1_file" where
  "p1_args_end limit num f =
     (case num of
        None \<Rightarrow> (0, f)
      | Some n \<Rightarrow>
          if n = limit then (0, p1_cleanup f)
          else (case read_byte f of (ch, f1) \<Rightarrow>
            if length ch \<noteq> 1 \<or> ch \<noteq> [newline] \<and> ch \<noteq> [NUL] then (0, p1_cleanup f1) else (n, f1)))"

definition p1_parse_write ::
  "string \<Rightarrow> string \<Rightarrow> string list \<Rightarrow> string list \<Rightarrow> nat \<Rightarrow> p1_file \<Rightarrow>
    (nat \<times> string list \<times> string list \<times> p1_file) res" where
  "p1_parse_write key val keys vals max_pairs f =
     (case read_byte f of (ch, f1) \<Rightarrow>
        if length ch \<noteq> 1 \<or> ch \<noteq> ''['' then Inr (0, keys, vals, p1_cleanup f1)
        else (case read_byte f1 of (ch', f2) \<Rightarrow>
          if length ch' \<noteq> 1 \<or> ch' \<noteq> ''('' then Inr (0, keys, vals, p1_cleanup f2)
          else bindE (p1_write_loop max_pairs 0 key val keys vals f2) (\<lambda>(num, keys, vals, f3).
            (case p1_args_end max_pairs num f3 of (n, f4) \<Rightarrow> Inr (n, keys, vals, f4)))))"

function p1_key_loop ::
  "nat \<Rightarrow> nat \<Rightarrow> string \<Rightarrow> string list \<Rightarrow> p1_file \<Rightarrow> (nat option \<times> string list \<times> p1_file) res" where
  "p1_key_loop max_keys num_keys key keys f =
     (if num_keys < max_keys then
        bindE (p1_read_string key (length key) f) (\<lambda>(r, key, f1).
          if r < 0 \<or> r = 1 then Inr (None, keys, p1_cleanup f1)
          else bindE (strcpy_at keys num_keys key) (\<lambda>keys.
            if r = 2 then Inr (Some (num_keys + 1), keys, f1)
            else p1_key_loop max_keys (num_keys + 1) key keys f1))
      else Inr (Some num_keys, keys, f))"
  by pat_completeness auto
termination by (relation "measure (\<lambda>(max_keys, num_keys, _). max_keys - num_keys)") auto

declare p1_key_loop.simps [simp del]

definition p1_parse_read_delete ::
  "string \<Rightarrow> string list \<Rightarrow> nat \<Rightarrow> p1_file \<Rightarrow> (nat \<times> string list \<times> p1_file) res" where
  "p1_parse_read_delete key keys max_keys f =
     (case read_byte f of (ch, f1) \<Rightarrow>
        if length ch \<noteq> 1 \<or> ch \<noteq> ''['' then Inr (0, keys, p1_cleanup f1)
        else bindE (p1_key_loop max_keys 0 key keys f1) (\<lambda>(num, keys, f2).
          (case p1_args_end max_keys num f2 of (n, f3) \<Rightarrow> Inr (n, keys, f3))))"

definition p1_parse_wait :: "bool \<Rightarrow> p1_file \<Rightarrow> (int \<times> 32 word option \<times> 32 word option \<times> p1_file) res" where
  "p1_parse_wait with_thread f =
     bindE (p1_read_uint f) (\<lambda>(r, delay, ch, f1).
       if r \<noteq> 0 then Inr (- 1, delay, None, p1_cleanup f1)
       else if ch = CHR '' '' then
         (if \<not> with_thread then Inr (0, delay, None, p1_cleanup f1)
          else bindE (p1_read_uint f1) (\<lambda>(r', thread_id, ch', f2).
            if r' \<noteq> 0 \<or> ch' \<noteq> newline \<and> ch' \<noteq> NUL
            then Inr (- 1, delay, thread_id, p1_cleanup f2)
            else Inr (1, delay, thread_id, f2)))
       else if ch = newline \<or> ch = NUL then Inr (0, delay, None, f1)
       else Inr (- 1, delay, None, p1_cleanup f1))"

subsection \<open>The parser on memory refines the parser on texts\<close>

definition arrays_ok :: "string list \<Rightarrow> bool" where
  "arrays_ok arr \<longleftrightarrow> length arr = MAX_WRITE_SIZE \<and> (\<forall>buffer \<in> set arr. length buffer = MAX_STRING_SIZE)"

text \<open>The first entries of an array are terminated and hold the words of a list.\<close>

definition holds :: "string list \<Rightarrow> string list \<Rightarrow> bool" where
  "holds arr ws \<longleftrightarrow> arg_strings (length ws) arr = Inr ws"

lemma holds_iff: "holds arr ws \<longleftrightarrow>
    length ws \<le> length arr \<and> (\<forall>i < length ws. NUL \<in> set (arr ! i) \<and> c_str (arr ! i) = ws ! i)"
proof -
  have "(\<forall>buffer \<in> set (take n arr). NUL \<in> set buffer) \<longleftrightarrow> (\<forall>i < n. NUL \<in> set (arr ! i))"
    if "n \<le> length arr" for n
    using that by (simp add: all_set_conv_all_nth)
  then show ?thesis by (auto simp: holds_def arg_strings_def list_eq_iff_nth_eq)
qed

lemma length_c_str_less: "NUL \<in> set b \<Longrightarrow> length (c_str b) < length b"
  by (induction b) (auto simp: c_str_def)

lemma strcpy_at_holds:
  assumes "holds arr ws" and "arrays_ok arr" and "length ws < MAX_WRITE_SIZE"
    and "length src = MAX_STRING_SIZE" and "NUL \<in> set src"
  obtains arr' where "strcpy_at arr (length ws) src = Inr arr'"
    and "holds arr' (ws @ [c_str src])" and "arrays_ok arr'"
proof -
  let ?i = "length ws"
  have i: "?i < length arr" "length (arr ! ?i) = MAX_STRING_SIZE"
    using assms(2,3) by (simp_all add: arrays_ok_def)
  have short: "length (c_str src) < MAX_STRING_SIZE" using length_c_str_less [OF assms(5)] assms(4) by simp
  let ?new = "c_str src @ NUL # drop (Suc (length (c_str src))) (arr ! ?i)"
  have new: "length ?new = MAX_STRING_SIZE" "c_str ?new = c_str src" "NUL \<in> set ?new"
    using short i(2) c_str_no_NUL [of src] by simp_all
  show thesis
  proof (rule that [of "arr[?i := ?new]"])
    show "strcpy_at arr ?i src = Inr (arr[?i := ?new])"
      using i short assms(5) by (simp add: strcpy_at_def)
    show "holds (arr[?i := ?new]) (ws @ [c_str src])"
      using assms(1) i(1) new by (auto simp: holds_iff nth_append nth_list_update less_Suc_eq)
    show "arrays_ok (arr[?i := ?new])"
      using assms(2) new(1) by (auto simp: arrays_ok_def dest!: set_update_subset_insert [THEN subsetD])
  qed
qed

definition pair_rel ::
  "int \<times> string \<times> string \<times> p1_file \<Rightarrow> (string \<times> string) option \<times> string \<Rightarrow> bool" where
  "pair_rel mem spec \<longleftrightarrow>
     (case (mem, spec) of ((r, key, val, f), (p, rest)) \<Rightarrow>
        unread f = rest \<and> length key = MAX_STRING_SIZE \<and> length val = MAX_STRING_SIZE \<and>
        (case p of None \<Rightarrow> r = 0
         | Some (k, v) \<Rightarrow> r = 1 \<and> NUL \<in> set key \<and> c_str key = c_str k \<and> NUL \<in> set val \<and> c_str val = c_str v))"

lemma parse_pair_refines:
  assumes "length key = MAX_STRING_SIZE" and "length val = MAX_STRING_SIZE"
  shows "res_refines pair_rel (p1_parse_pair key val f) (parse_pair (unread f))"
proof -
  have forty: "40 = MAX_STRING_SIZE" by (simp add: MAX_STRING_SIZE_def)
  show ?thesis
    unfolding p1_parse_pair_def parse_pair_def forty
  proof (rule res_refines_bind)
    show "word_refines MAX_STRING_SIZE (p1_read_string key MAX_STRING_SIZE f)
        (read_string MAX_STRING_SIZE (unread f))"
      using read_string_refines [of key f] assms(1) by simp
  next
    fix x y assume "word_rel MAX_STRING_SIZE x y"
    then obtain r key' f1 s inp1 where x: "x = (r, key', f1)" "y = (r, s, inp1)" "unread f1 = inp1"
      "length key' = MAX_STRING_SIZE" "0 \<le> r \<longrightarrow> NUL \<in> set key' \<and> c_str key' = c_str s"
      by (auto simp: word_rel_def)
    have "word_refines MAX_STRING_SIZE (p1_read_string val MAX_STRING_SIZE f1) (read_string MAX_STRING_SIZE inp1)"
      using read_string_refines [of val f1] assms(2) x(3) by simp
    then have "res_refines pair_rel
        (bindE (p1_read_string val MAX_STRING_SIZE f1) (\<lambda>(r', val', f2).
           if r' \<noteq> 1 then Inr (0, key', val', p1_cleanup f2) else Inr (1, key', val', f2)))
        (bindE (read_string MAX_STRING_SIZE inp1) (\<lambda>(r', v, inp2).
           if r' \<noteq> 1 then Inr (None, cleanup inp2) else Inr (Some (s, v), inp2)))" if "r = 0"
      using x that by (elim res_refines_bind) (auto simp: word_rel_def pair_rel_def)
    then show "res_refines pair_rel
        (case x of (r, key', f1) \<Rightarrow> if r \<noteq> 0 then Inr (0, key', val, p1_cleanup f1)
          else bindE (p1_read_string val MAX_STRING_SIZE f1) (\<lambda>(r', val', f2).
            if r' \<noteq> 1 then Inr (0, key', val', p1_cleanup f2) else Inr (1, key', val', f2)))
        (case y of (r, key, inp1) \<Rightarrow> if r \<noteq> 0 then Inr (None, cleanup inp1)
          else bindE (read_string MAX_STRING_SIZE inp1) (\<lambda>(r', val, inp2).
            if r' \<noteq> 1 then Inr (None, cleanup inp2) else Inr (Some (key, val), inp2)))"
      using x assms(2) by (auto simp: pair_rel_def)
  qed
qed

text \<open>Reading one character and testing it, on both sides.\<close>

lemma read_byte_take:
  obtains f' where "read_byte f = (take 1 (unread f), f')" and "unread f' = drop 1 (unread f)"
  unfolding read_byte_def by (rule read_bytes_unread)

definition stored :: "string list \<times> string list \<Rightarrow> (string \<times> string) list \<Rightarrow> bool" where
  "stored arrs ps \<longleftrightarrow> arrays_ok (fst arrs) \<and> arrays_ok (snd arrs) \<and>
     holds (fst arrs) (map fst ps) \<and> holds (snd arrs) (map snd ps)"

lemma strcpy_pair:
  assumes "stored (keys, vals) ps" and "length ps < MAX_WRITE_SIZE"
    and "length key = MAX_STRING_SIZE" "NUL \<in> set key" "length val = MAX_STRING_SIZE" "NUL \<in> set val"
  obtains keys' vals' where "strcpy_at keys (length ps) key = Inr keys'"
    and "strcpy_at vals (length ps) val = Inr vals'"
    and "stored (keys', vals') (ps @ [(c_str key, c_str val)])"
proof -
  have s: "holds keys (map fst ps)" "arrays_ok keys" "holds vals (map snd ps)" "arrays_ok vals"
    using assms(1) by (simp_all add: stored_def)
  obtain keys' where k: "strcpy_at keys (length (map fst ps)) key = Inr keys'"
    "holds keys' (map fst ps @ [c_str key])" "arrays_ok keys'"
    using strcpy_at_holds [OF s(1,2) _ assms(3,4)] assms(2) by auto
  obtain vals' where v: "strcpy_at vals (length (map snd ps)) val = Inr vals'"
    "holds vals' (map snd ps @ [c_str val])" "arrays_ok vals'"
    using strcpy_at_holds [OF s(3,4) _ assms(5,6)] assms(2) by auto
  show thesis using that [of keys' vals'] k v by (simp add: stored_def)
qed

definition write_rel ::
  "nat option \<times> string list \<times> string list \<times> p1_file \<Rightarrow> (string \<times> string) list option \<times> string \<Rightarrow> bool" where
  "write_rel mem spec \<longleftrightarrow>
     (case (mem, spec) of ((num, keys, vals, f), (res, rest)) \<Rightarrow> unread f = rest \<and>
        num = map_option length res \<and> stored (keys, vals) (case res of None \<Rightarrow> [] | Some ps \<Rightarrow> ps))"

lemma stored_Nil: "stored arrs ps \<Longrightarrow> stored arrs []"
  by (simp add: stored_def holds_iff)

lemma write_loop_refines:
  assumes "length ps + left = MAX_WRITE_SIZE" and "stored (keys, vals) ps"
    and "length key = MAX_STRING_SIZE" and "length val = MAX_STRING_SIZE"
  shows "res_refines write_rel (p1_write_loop MAX_WRITE_SIZE (length ps) key val keys vals f)
    (write_args_loop left ps (unread f))"
  using assms
proof (induction left arbitrary: ps key val keys vals f)
  case 0
  then show ?case by (subst p1_write_loop.simps) (simp add: write_rel_def)
next
  case (Suc left)
  have room: "length ps < MAX_WRITE_SIZE" using Suc.prems(1) by simp
  note nil = stored_Nil [OF Suc.prems(2)]
  have "res_refines write_rel
    (bindE (p1_parse_pair key val f) (\<lambda>(r, key, val, f1).
       if r = 0 then Inr (None, keys, vals, p1_cleanup f1)
       else bindE (strcpy_at keys (length ps) key) (\<lambda>keys.
         bindE (strcpy_at vals (length ps) val) (\<lambda>vals.
           (case read_byte f1 of (ch, f2) \<Rightarrow>
              if length ch \<noteq> 1 \<or> ch \<noteq> ''('' \<and> ch \<noteq> '']'' then Inr (None, keys, vals, p1_cleanup f2)
              else if ch = '']'' then Inr (Some (length ps + 1), keys, vals, f2)
              else p1_write_loop MAX_WRITE_SIZE (length ps + 1) key val keys vals f2)))))
    (write_args_loop (Suc left) ps (unread f))"
    unfolding write_args_loop.simps
  proof (rule res_refines_bind [OF parse_pair_refines [OF Suc.prems(3,4)]])
    fix x y assume "pair_rel x y"
    then obtain r key' val' f1 p where x: "x = (r, key', val', f1)" "y = (p, unread f1)"
      "length key' = MAX_STRING_SIZE" "length val' = MAX_STRING_SIZE"
      "case p of None \<Rightarrow> r = 0 | Some (k, v) \<Rightarrow>
         r = 1 \<and> NUL \<in> set key' \<and> c_str key' = c_str k \<and> NUL \<in> set val' \<and> c_str val' = c_str v"
      by (cases x) (auto simp: pair_rel_def)
    show "res_refines write_rel
      (case x of (r, key, val, f1) \<Rightarrow> if r = 0 then Inr (None, keys, vals, p1_cleanup f1)
       else bindE (strcpy_at keys (length ps) key) (\<lambda>keys.
         bindE (strcpy_at vals (length ps) val) (\<lambda>vals.
           (case read_byte f1 of (ch, f2) \<Rightarrow>
              if length ch \<noteq> 1 \<or> ch \<noteq> ''('' \<and> ch \<noteq> '']'' then Inr (None, keys, vals, p1_cleanup f2)
              else if ch = '']'' then Inr (Some (length ps + 1), keys, vals, f2)
              else p1_write_loop MAX_WRITE_SIZE (length ps + 1) key val keys vals f2))))
      (case y of (p, inp1) \<Rightarrow> case p of None \<Rightarrow> Inr (None, cleanup inp1)
        | Some (key, val) \<Rightarrow> (case file_read 1 inp1 of (b, inp2) \<Rightarrow>
            if b \<noteq> ''('' \<and> b \<noteq> '']'' then Inr (None, cleanup inp2)
            else if b = '']'' then Inr (Some (ps @ [(c_str key, c_str val)]), inp2)
            else write_args_loop left (ps @ [(c_str key, c_str val)]) inp2))"
    proof (cases p)
      case None
      then show ?thesis using x nil by (simp add: write_rel_def)
    next
      case (Some kv)
      obtain k v where kv: "kv = (k, v)" by (cases kv)
      let ?ps = "ps @ [(c_str k, c_str v)]"
      obtain keys' vals' where s: "strcpy_at keys (length ps) key' = Inr keys'"
        "strcpy_at vals (length ps) val' = Inr vals'" "stored (keys', vals') ?ps"
        using strcpy_pair [OF Suc.prems(2) room, of key' val'] x Some kv by auto
      obtain f2 where f2: "read_byte f1 = (take 1 (unread f1), f2)" "unread f2 = drop 1 (unread f1)"
        by (rule read_byte_take)
      have "res_refines write_rel (p1_write_loop MAX_WRITE_SIZE (length ?ps) key' val' keys' vals' f2)
          (write_args_loop left ?ps (unread f2))"
        using Suc.IH [OF _ s(3) x(3,4), of f2] Suc.prems(1) by simp
      then show ?thesis
        using x Some kv s stored_Nil [OF s(3)] f2
        by (auto simp: write_rel_def simp del: take_Suc drop_Suc)
    qed
  qed
  then show ?case using room by (simp add: p1_write_loop.simps [of _ "length ps"])
qed

definition count_rel ::
  "nat \<times> string list \<times> string list \<times> p1_file \<Rightarrow> (string \<times> string) list \<times> string \<Rightarrow> bool" where
  "count_rel mem spec \<longleftrightarrow>
     (case (mem, spec) of ((n, keys, vals, f), (ps, rest)) \<Rightarrow>
        n = length ps \<and> unread f = rest \<and> stored (keys, vals) ps)"

lemma args_end_refines:
  assumes "num = map_option length xs"
  obtains f' where "p1_args_end limit num f = (length (fst (args_end limit (xs, unread f))), f')"
    and "unread f' = snd (args_end limit (xs, unread f))"
    and "fst (args_end limit (xs, unread f)) = [] \<or> Some (fst (args_end limit (xs, unread f))) = xs"
proof -
  obtain f1 where f1: "read_byte f = (take 1 (unread f), f1)" "unread f1 = drop 1 (unread f)"
    by (rule read_byte_take)
  have "\<exists>f'. p1_args_end limit num f = (length (fst (args_end limit (xs, unread f))), f') \<and>
      unread f' = snd (args_end limit (xs, unread f)) \<and>
      (fst (args_end limit (xs, unread f)) = [] \<or> Some (fst (args_end limit (xs, unread f))) = xs)"
    using f1 assms by (cases xs) (auto simp: p1_args_end_def args_end_def simp del: take_Suc drop_Suc)
  then show thesis using that by blast
qed

lemma parse_write_refines:
  assumes "stored (keys, vals) []"
    and "length key = MAX_STRING_SIZE" and "length val = MAX_STRING_SIZE"
  shows "res_refines count_rel (p1_parse_write key val keys vals MAX_WRITE_SIZE f)
    (parse_write MAX_WRITE_SIZE (unread f))"
proof -
  obtain f1 where f1: "read_byte f = (take 1 (unread f), f1)" "unread f1 = drop 1 (unread f)"
    by (rule read_byte_take)
  obtain f2 where f2: "read_byte f1 = (take 1 (unread f1), f2)" "unread f2 = drop 1 (unread f1)"
    by (rule read_byte_take)
  have "res_refines count_rel
    (bindE (p1_write_loop MAX_WRITE_SIZE 0 key val keys vals f2) (\<lambda>(num, keys, vals, f3).
       (case p1_args_end MAX_WRITE_SIZE num f3 of (n, f4) \<Rightarrow> Inr (n, keys, vals, f4))))
    (bindE (write_args_loop MAX_WRITE_SIZE [] (unread f2)) (\<lambda>r. Inr (args_end MAX_WRITE_SIZE r)))"
  proof (rule res_refines_bind)
    show "res_refines write_rel (p1_write_loop MAX_WRITE_SIZE 0 key val keys vals f2)
        (write_args_loop MAX_WRITE_SIZE [] (unread f2))"
      using write_loop_refines [of "[]" MAX_WRITE_SIZE keys vals key val f2] assms by simp
  next
    fix x y assume "write_rel x y"
    then obtain num keys' vals' f3 res where x: "x = (num, keys', vals', f3)" "y = (res, unread f3)"
      "num = map_option length res" "stored (keys', vals') (case res of None \<Rightarrow> [] | Some ps \<Rightarrow> ps)"
      by (cases x) (auto simp: write_rel_def)
    obtain f4 where "p1_args_end MAX_WRITE_SIZE num f3 =
        (length (fst (args_end MAX_WRITE_SIZE (res, unread f3))), f4)"
      "unread f4 = snd (args_end MAX_WRITE_SIZE (res, unread f3))"
      "fst (args_end MAX_WRITE_SIZE (res, unread f3)) = [] \<or>
        Some (fst (args_end MAX_WRITE_SIZE (res, unread f3))) = res"
      using args_end_refines [OF x(3)] by blast
    then show "res_refines count_rel
        (case x of (num, keys, vals, f3) \<Rightarrow>
          (case p1_args_end MAX_WRITE_SIZE num f3 of (n, f4) \<Rightarrow> Inr (n, keys, vals, f4)))
        (Inr (args_end MAX_WRITE_SIZE y))"
      using x(1,2,4) stored_Nil [OF x(4)] by (auto simp: count_rel_def split: prod.splits)
  qed
  then show ?thesis
    using f1 f2 assms(1)
    by (auto simp: p1_parse_write_def parse_write_def count_rel_def simp del: take_Suc drop_Suc)
qed

definition keys_rel ::
  "nat option \<times> string list \<times> p1_file \<Rightarrow> string list option \<times> string \<Rightarrow> bool" where
  "keys_rel mem spec \<longleftrightarrow>
     (case (mem, spec) of ((num, keys, f), (res, rest)) \<Rightarrow> unread f = rest \<and> arrays_ok keys \<and>
        num = map_option length res \<and> holds keys (case res of None \<Rightarrow> [] | Some ks \<Rightarrow> ks))"

lemma holds_Nil [simp]: "holds arr []"
  by (simp add: holds_iff)

lemma key_loop_refines:
  assumes "length ks + left = MAX_WRITE_SIZE" and "arrays_ok keys" and "holds keys ks"
    and "length key = MAX_STRING_SIZE"
  shows "res_refines keys_rel (p1_key_loop MAX_WRITE_SIZE (length ks) key keys f)
    (key_args_loop left ks (unread f))"
  using assms
proof (induction left arbitrary: ks key keys f)
  case 0
  then show ?case by (subst p1_key_loop.simps) (simp add: keys_rel_def)
next
  case (Suc left)
  have room: "length ks < MAX_WRITE_SIZE" using Suc.prems(1) by simp
  have forty: "40 = length key" using Suc.prems(4) by (simp add: MAX_STRING_SIZE_def)
  have "res_refines keys_rel
    (bindE (p1_read_string key (length key) f) (\<lambda>(r, key, f1).
       if r < 0 \<or> r = 1 then Inr (None, keys, p1_cleanup f1)
       else bindE (strcpy_at keys (length ks) key) (\<lambda>keys.
         if r = 2 then Inr (Some (length ks + 1), keys, f1)
         else p1_key_loop MAX_WRITE_SIZE (length ks + 1) key keys f1)))
    (key_args_loop (Suc left) ks (unread f))"
    unfolding key_args_loop.simps forty
  proof (rule res_refines_bind [OF read_string_refines])
    fix x y assume "word_rel (length key) x y"
    then obtain r key' f1 s where x: "x = (r, key', f1)" "y = (r, s, unread f1)"
      "length key' = MAX_STRING_SIZE" "0 \<le> r \<longrightarrow> NUL \<in> set key' \<and> c_str key' = c_str s"
      using Suc.prems(4) by (cases x) (auto simp: word_rel_def)
    show "res_refines keys_rel
      (case x of (r, key, f1) \<Rightarrow> if r < 0 \<or> r = 1 then Inr (None, keys, p1_cleanup f1)
       else bindE (strcpy_at keys (length ks) key) (\<lambda>keys.
         if r = 2 then Inr (Some (length ks + 1), keys, f1)
         else p1_key_loop MAX_WRITE_SIZE (length ks + 1) key keys f1))
      (case y of (output, key, inp1) \<Rightarrow> if output < 0 \<or> output = 1 then Inr (None, cleanup inp1)
       else if output = 2 then Inr (Some (ks @ [c_str key]), inp1)
       else key_args_loop left (ks @ [c_str key]) inp1)"
    proof (cases "r < 0 \<or> r = 1")
      case True
      then show ?thesis using x Suc.prems(2) by (auto simp: keys_rel_def)
    next
      case False
      then obtain keys' where s: "strcpy_at keys (length ks) key' = Inr keys'"
        "holds keys' (ks @ [c_str s])" "arrays_ok keys'"
        using strcpy_at_holds [OF Suc.prems(3,2) room x(3)] x(4) by auto
      have "res_refines keys_rel (p1_key_loop MAX_WRITE_SIZE (length (ks @ [c_str s])) key' keys' f1)
          (key_args_loop left (ks @ [c_str s]) (unread f1))"
        using Suc.IH [OF _ s(3,2) x(3)] Suc.prems(1) by simp
      then show ?thesis using x s False by (auto simp: keys_rel_def)
    qed
  qed
  then show ?case using room by (simp add: p1_key_loop.simps [of _ "length ks"])
qed

definition key_count_rel :: "nat \<times> string list \<times> p1_file \<Rightarrow> string list \<times> string \<Rightarrow> bool" where
  "key_count_rel mem spec \<longleftrightarrow>
     (case (mem, spec) of ((n, keys, f), (ks, rest)) \<Rightarrow>
        n = length ks \<and> unread f = rest \<and> arrays_ok keys \<and> holds keys ks)"

lemma parse_read_delete_refines:
  assumes "arrays_ok keys" and "length key = MAX_STRING_SIZE"
  shows "res_refines key_count_rel (p1_parse_read_delete key keys MAX_WRITE_SIZE f)
    (parse_read_delete MAX_WRITE_SIZE (unread f))"
proof -
  obtain f1 where f1: "read_byte f = (take 1 (unread f), f1)" "unread f1 = drop 1 (unread f)"
    by (rule read_byte_take)
  have "res_refines key_count_rel
    (bindE (p1_key_loop MAX_WRITE_SIZE 0 key keys f1) (\<lambda>(num, keys, f2).
       (case p1_args_end MAX_WRITE_SIZE num f2 of (n, f3) \<Rightarrow> Inr (n, keys, f3))))
    (bindE (key_args_loop MAX_WRITE_SIZE [] (unread f1)) (\<lambda>r. Inr (args_end MAX_WRITE_SIZE r)))"
  proof (rule res_refines_bind)
    show "res_refines keys_rel (p1_key_loop MAX_WRITE_SIZE 0 key keys f1)
        (key_args_loop MAX_WRITE_SIZE [] (unread f1))"
      using key_loop_refines [of "[]" MAX_WRITE_SIZE keys key f1] assms by simp
  next
    fix x y assume "keys_rel x y"
    then obtain num keys' f2 res where x: "x = (num, keys', f2)" "y = (res, unread f2)"
      "num = map_option length res" "arrays_ok keys'" "holds keys' (case res of None \<Rightarrow> [] | Some ks \<Rightarrow> ks)"
      by (cases x) (auto simp: keys_rel_def)
    obtain f3 where "p1_args_end MAX_WRITE_SIZE num f2 =
        (length (fst (args_end MAX_WRITE_SIZE (res, unread f2))), f3)"
      "unread f3 = snd (args_end MAX_WRITE_SIZE (res, unread f2))"
      "fst (args_end MAX_WRITE_SIZE (res, unread f2)) = [] \<or>
        Some (fst (args_end MAX_WRITE_SIZE (res, unread f2))) = res"
      using args_end_refines [OF x(3)] by blast
    then show "res_refines key_count_rel
        (case x of (num, keys, f2) \<Rightarrow>
          (case p1_args_end MAX_WRITE_SIZE num f2 of (n, f3) \<Rightarrow> Inr (n, keys, f3)))
        (Inr (args_end MAX_WRITE_SIZE y))"
      using x(1,2,4,5) by (auto simp: key_count_rel_def split: prod.splits)
  qed
  then show ?thesis
    using f1 assms(1)
    by (auto simp: p1_parse_read_delete_def parse_read_delete_def key_count_rel_def simp del: take_Suc drop_Suc)
qed

lemma parse_wait_refines:
  "parse_wait with_thread (unread f) =
     map_res (\<lambda>(r, d, t, f'). (r, d, t, unread f')) (p1_parse_wait with_thread f)"
proof (cases "p1_read_uint f")
  case (Inl e)
  then show ?thesis using read_uint_refines [of f] by (simp add: parse_wait_def p1_parse_wait_def)
next
  case (Inr res)
  obtain r d ch f1 where res: "res = (r, d, ch, f1)" by (cases res)
  then have "read_uint (unread f) = Inr (r, d, ch, unread f1)" using read_uint_refines [of f] Inr by simp
  then show ?thesis
    using Inr res read_uint_refines [of f1]
    by (cases "p1_read_uint f1") (auto simp: parse_wait_def p1_parse_wait_def split: prod.splits)
qed

text \<open>
  C12: The parser of the first project, modelled on memory (a file with an offset, buffers with
  cells that were never written, arrays that keep what earlier commands left), refines the parser
  of the server, modelled on the text: the same words, the same faults, the same counts
  (parse_write returns the number of pairs, not the 0 that its comment promises) and the same
  place in the file for every input, and the entries that are counted hold the words of the list.
\<close>

theorem first_parser_refines:
  assumes "stored (keys, vals) []"
    and "length key = MAX_STRING_SIZE" and "length val = MAX_STRING_SIZE"
  shows "(\<exists>f'. p1_get_next f = Inr (fst (get_next (unread f)), f') \<and> unread f' = snd (get_next (unread f))) \<and>
    res_refines count_rel (p1_parse_write key val keys vals MAX_WRITE_SIZE f) (parse_write MAX_WRITE_SIZE (unread f)) \<and>
    res_refines key_count_rel (p1_parse_read_delete key keys MAX_WRITE_SIZE f)
      (parse_read_delete MAX_WRITE_SIZE (unread f)) \<and>
    parse_wait with_thread (unread f) = map_res (\<lambda>(r, d, t, f'). (r, d, t, unread f')) (p1_parse_wait with_thread f)"
proof (intro conjI)
  show "\<exists>f'. p1_get_next f = Inr (fst (get_next (unread f)), f') \<and> unread f' = snd (get_next (unread f))"
    using get_next_refines [of f] by blast
  show "res_refines key_count_rel (p1_parse_read_delete key keys MAX_WRITE_SIZE f)
      (parse_read_delete MAX_WRITE_SIZE (unread f))"
    using assms(1,2) by (intro parse_read_delete_refines) (simp_all add: stored_def)
qed (rule parse_write_refines [OF assms], rule parse_wait_refines)

lemma arg_strings_short:
  assumes "arrays_ok arr" and "arg_strings n arr = Inr ws"
  shows "n \<le> MAX_WRITE_SIZE" and "\<forall>s \<in> set ws. length s < MAX_STRING_SIZE \<and> NUL \<notin> set s"
proof -
  have n: "n \<le> length arr" "\<forall>buffer \<in> set (take n arr). NUL \<in> set buffer" "ws = map c_str (take n arr)"
    using assms(2) by (simp_all add: arg_strings_def split: if_splits)
  then show "n \<le> MAX_WRITE_SIZE" using assms(1) by (simp add: arrays_ok_def)
  show "\<forall>s \<in> set ws. length s < MAX_STRING_SIZE \<and> NUL \<notin> set s"
    using n assms(1) c_str_no_NUL length_c_str_less by (fastforce simp: arrays_ok_def dest: in_set_takeD)
qed

text \<open>
  C32: Whatever a WRITE line holds and whatever the arrays held, when parse_write of the first
  project returns, the arrays still have 256 entries of 40 bytes, the count is not above their
  length, and the counted entries of both are terminated strings of at most 39 characters.
\<close>

theorem parse_write_keeps_arrays:
  assumes "stored (keys, vals) []"
    and "length key = MAX_STRING_SIZE" and "length val = MAX_STRING_SIZE"
    and "p1_parse_write key val keys vals MAX_WRITE_SIZE f = Inr (n, keys', vals', f')"
  shows "n \<le> MAX_WRITE_SIZE \<and> arrays_ok keys' \<and> arrays_ok vals' \<and>
    (\<exists>ks vs. arg_strings n keys' = Inr ks \<and> arg_strings n vals' = Inr vs \<and>
      (\<forall>s \<in> set ks \<union> set vs. length s < MAX_STRING_SIZE \<and> NUL \<notin> set s))"
proof -
  obtain ps rest where "count_rel (n, keys', vals', f') (ps, rest)"
    using parse_write_refines [OF assms(1-3), of f] assms(4)
    by (cases "parse_write MAX_WRITE_SIZE (unread f)") auto
  then have ps: "n = length ps" "arrays_ok keys'" "arrays_ok vals'" "holds keys' (map fst ps)" "holds vals' (map snd ps)"
    by (simp_all add: count_rel_def stored_def)
  then have args: "arg_strings n keys' = Inr (map fst ps)" "arg_strings n vals' = Inr (map snd ps)"
    by (simp_all add: holds_def)
  show ?thesis
    using ps(2,3) arg_strings_short [OF ps(2) args(1)] arg_strings_short [OF ps(3) args(2)] args by auto
qed

subsection \<open>Instances\<close>

definition used_array :: "string list" where
  "used_array = replicate MAX_WRITE_SIZE (replicate MAX_STRING_SIZE CHR ''o'')"

lemma used_array_stored: "stored (used_array, used_array) []"
  by (simp add: stored_def arrays_ok_def used_array_def)

theorem first_parser_refines_witness:
  "res_refines count_rel
    (p1_parse_write (replicate 40 CHR ''x'') (replicate 40 CHR ''y'') used_array used_array MAX_WRITE_SIZE
      \<lparr>f_text = ''WRITE [(a,1)]'' @ [newline], f_pos = 6\<rparr>)
    (parse_write MAX_WRITE_SIZE (''[(a,1)]'' @ [newline]))"
proof -
  have "unread \<lparr>f_text = ''WRITE [(a,1)]'' @ [newline], f_pos = 6\<rparr> = ''[(a,1)]'' @ [newline]"
    by (simp add: unread_def)
  then show ?thesis
    using first_parser_refines [OF used_array_stored, of "replicate 40 CHR ''x''" "replicate 40 CHR ''y''"
        "\<lparr>f_text = ''WRITE [(a,1)]'' @ [newline], f_pos = 6\<rparr>"]
    by (simp add: MAX_STRING_SIZE_def)
qed

definition bad_file :: p1_file where
  "bad_file = \<lparr>f_text = ''WRITE {'' @ [newline], f_pos = 6\<rparr>"

theorem parse_write_keeps_arrays_witness:
  "\<exists>n keys' vals' f'. p1_parse_write (replicate 40 CHR ''x'') (replicate 40 CHR ''y'') used_array used_array
      MAX_WRITE_SIZE bad_file = Inr (n, keys', vals', f') \<and> n \<le> MAX_WRITE_SIZE \<and> arrays_ok keys'"
proof -
  have "read_byte bad_file = (''{'', bad_file\<lparr>f_pos := 7\<rparr>)"
    by (simp add: bad_file_def read_byte_def read_bytes_def)
  then have run: "p1_parse_write (replicate 40 CHR ''x'') (replicate 40 CHR ''y'') used_array used_array MAX_WRITE_SIZE
      bad_file = Inr (0, used_array, used_array, p1_cleanup (bad_file\<lparr>f_pos := 7\<rparr>))"
    by (simp add: p1_parse_write_def)
  from parse_write_keeps_arrays [OF used_array_stored _ _ run] show ?thesis
    unfolding run by (simp add: MAX_STRING_SIZE_def)
qed

end
