(* ===== verification/FirstJobs.thy ===== *)
theory FirstJobs
  imports FirstParser JobDirectory
begin

section \<open>The job threads of the first project (proj\_p1/main.c)\<close>

text \<open>
  The thread of the first project with its memory: the file with its offset, the arrays of keys and
  values that live as long as the file is worked on, and the operations of FirstProject on the
  arrays. \<open>same_job\<close> relates its state to the state of the server's thread in Jobs. The theorems
  show that the server's thread does what the thread of the first project did, up to the fault of a
  READ of a key that is in the table, and that a printed job file is executed as its meaning. The
  counter of backups of a file is a number without a bound here as in Jobs.
\<close>

record p1_job =
  q_table :: p1_ptr
  q_world :: world
  q_file :: p1_file
  q_keys :: "string list"
  q_vals :: "string list"
  q_counter :: "32 word"
  q_children :: nat
  q_fileBackups :: nat
  q_forks :: "bool list"
  q_backups :: "(string \<times> string res) list"

definition PATH_MAX :: nat where "PATH_MAX = 4096"

text \<open>The arrays as they are declared.\<close>

definition zero_array :: "string list" where
  "zero_array = replicate MAX_WRITE_SIZE (replicate MAX_STRING_SIZE NUL)"

subsection \<open>Commands on the table\<close>

definition p1_globally ::
  "(p1_ptr \<Rightarrow> world \<Rightarrow> (int \<times> p1_ptr \<times> world) res) \<Rightarrow> p1_job \<Rightarrow> p1_job res" where
  "p1_globally f q =
     (case lock_call (q_world q) (RdLock GlobalHashLock) of
        (r, w1) \<Rightarrow>
          if r \<noteq> 0 then Inr (q\<lparr>q_world := w1\<rparr>)
          else bindE (f (q_table q) w1) (\<lambda>(r', t, w2).
            if r' \<noteq> 0 then Inr (q\<lparr>q_table := t, q_world := w2\<rparr>)
            else (case lock_call w2 (Unlock GlobalHashLock) of
              (_, w3) \<Rightarrow> Inr (q\<lparr>q_table := t, q_world := w3\<rparr>))))"

text \<open>
  \<open>stack\<close>: what the arrays on the stack of a parser function hold when it is called at that place
  of the file. The operations on the table read the entries as strings.
\<close>

type_synonym stack = "p1_file \<Rightarrow> string \<times> string"

definition p1_job_write :: "stack \<Rightarrow> p1_job \<Rightarrow> p1_job res" where
  "p1_job_write stack q =
     (case stack (q_file q) of (key, val) \<Rightarrow>
        bindE (p1_parse_write key val (q_keys q) (q_vals q) MAX_WRITE_SIZE (q_file q))
          (\<lambda>(num_pairs, keys, vals, f).
             let q1 = q\<lparr>q_file := f, q_keys := keys, q_vals := vals\<rparr> in
             if num_pairs = 0 then Inr q1
             else p1_globally (\<lambda>t w.
               bindE (arg_strings num_pairs keys) (\<lambda>ks.
                 bindE (arg_strings num_pairs vals) (\<lambda>vs. p1_kvs_write t ks vs w))) q1))"

definition p1_job_read :: "stack \<Rightarrow> int \<Rightarrow> p1_job \<Rightarrow> p1_job res" where
  "p1_job_read stack fdOut q =
     bindE (p1_parse_read_delete (fst (stack (q_file q))) (q_keys q) MAX_WRITE_SIZE (q_file q))
       (\<lambda>(num_pairs, keys, f).
          let q1 = q\<lparr>q_file := f, q_keys := keys\<rparr> in
          if num_pairs = 0 then Inr q1
          else p1_globally (\<lambda>t w. bindE (arg_strings num_pairs keys) (\<lambda>ks.
            bindE (p1_kvs_read t ks fdOut w) (\<lambda>(r, w'). Inr (r, t, w')))) q1)"

definition p1_job_delete :: "stack \<Rightarrow> int \<Rightarrow> p1_job \<Rightarrow> p1_job res" where
  "p1_job_delete stack fdOut q =
     bindE (p1_parse_read_delete (fst (stack (q_file q))) (q_keys q) MAX_WRITE_SIZE (q_file q))
       (\<lambda>(num_pairs, keys, f).
          let q1 = q\<lparr>q_file := f, q_keys := keys\<rparr> in
          if num_pairs = 0 then Inr q1
          else p1_globally (\<lambda>t w. bindE (arg_strings num_pairs keys) (\<lambda>ks.
            p1_kvs_delete t ks fdOut w)) q1)"

definition p1_job_show :: "int \<Rightarrow> p1_job \<Rightarrow> p1_job res" where
  "p1_job_show fdOut q =
     p1_globally (\<lambda>t w. bindE (p1_kvs_show t fdOut w) (\<lambda>(r, w'). Inr (r, t, w'))) q"

definition p1_job_wait :: "int \<Rightarrow> p1_job \<Rightarrow> p1_job res" where
  "p1_job_wait fdOut q =
     bindE (p1_parse_wait False (q_file q)) (\<lambda>(r, delay, _, f).
       let q1 = q\<lparr>q_file := f\<rparr> in
       if r = - 1 then Inr q1
       else (case delay of
         None \<Rightarrow> Inl Uninitialised
       | Some d \<Rightarrow> Inr (if d > 0 then q1\<lparr>q_world := emit (q_world q1) fdOut waiting_line\<rparr> else q1)))"

subsection \<open>Backups\<close>

definition p1_bck_path :: "string \<Rightarrow> nat \<Rightarrow> string" where
  "p1_bck_path filePath n =
     snprintf PATH_MAX (take (length filePath - 4) filePath @ ''-'' @ decimal_text n @ ''.bck'')"

text \<open>A child that cannot open its file ends at once.\<close>

definition p1_backup_child :: "p1_ptr \<Rightarrow> string \<Rightarrow> world \<Rightarrow> string res" where
  "p1_backup_child t bckPath w =
     (case sys_open w bckPath of
        (fdBck, w1) \<Rightarrow>
          if fdBck = - 1 then Inr []
          else bindE (p1_kvs_backup t fdBck w1)
            (\<lambda>(_, w2). Inr (drop (length (w_out w1 fdBck)) (w_out w2 fdBck))))"

definition p1_wait_for_place :: "p1_job \<Rightarrow> p1_job option" where
  "p1_wait_for_place q =
     (if q_counter q > 0 then Some (q\<lparr>q_counter := q_counter q - 1\<rparr>)
      else if q_children q = 0 then None
      else Some (q\<lparr>q_children := q_children q - 1\<rparr>))"

definition p1_fork_backup :: "string \<Rightarrow> p1_job \<Rightarrow> p1_job" where
  "p1_fork_backup filePath q =
     (let (_, w1) = lock_call (q_world q) (WrLock GlobalHashLock);
          (forked, forks) = (case q_forks q of [] \<Rightarrow> (True, []) | b # bs \<Rightarrow> (b, bs));
          (r, w2) = lock_call w1 (Unlock GlobalHashLock);
          q1 = q\<lparr>q_world := w2, q_forks := forks,
            q_children := (if forked then Suc (q_children q) else q_children q)\<rparr>
      in if r \<noteq> 0 then q1
         else (let bckPath = p1_bck_path filePath (q_fileBackups q) in
           q1\<lparr>q_fileBackups := Suc (q_fileBackups q),
             q_backups := q_backups q @
               (if forked then [(bckPath, p1_backup_child (q_table q) bckPath w2)] else [])\<rparr>))"

definition p1_job_backup :: "string \<Rightarrow> p1_job \<Rightarrow> p1_job option" where
  "p1_job_backup filePath q = map_option (p1_fork_backup filePath) (p1_wait_for_place q)"

subsection \<open>The loop over the commands of a file\<close>

definition p1_run_command :: "stack \<Rightarrow> string \<Rightarrow> int \<Rightarrow> command \<Rightarrow> p1_job \<Rightarrow> p1_job res option" where
  "p1_run_command stack filePath fdOut cmd q =
     (case cmd of
        CMD_WRITE \<Rightarrow> Some (p1_job_write stack q)
      | CMD_READ \<Rightarrow> Some (p1_job_read stack fdOut q)
      | CMD_DELETE \<Rightarrow> Some (p1_job_delete stack fdOut q)
      | CMD_SHOW \<Rightarrow> Some (p1_job_show fdOut q)
      | CMD_WAIT \<Rightarrow> Some (p1_job_wait fdOut q)
      | CMD_BACKUP \<Rightarrow> map_option Inr (p1_job_backup filePath q)
      | command.CMD_INVALID \<Rightarrow> Some (Inr q)
      | CMD_HELP \<Rightarrow> Some (Inr q)
      | command.CMD_EMPTY \<Rightarrow> Some (Inr q)
      | command.EOC \<Rightarrow> Some (Inr q))"

text \<open>\<open>None\<close>: the loop does not come to an end, or waits forever.\<close>

partial_function (option) p1_job_loop ::
  "stack \<Rightarrow> string \<Rightarrow> int \<Rightarrow> p1_job \<Rightarrow> p1_job res option" where
  "p1_job_loop stack filePath fdOut q =
     (case p1_get_next (q_file q) of
        Inl e \<Rightarrow> Some (Inl e)
      | Inr (cmd, f) \<Rightarrow>
          (if cmd = command.EOC then Some (Inr (q\<lparr>q_file := f\<rparr>))
           else (case p1_run_command stack filePath fdOut cmd (q\<lparr>q_file := f\<rparr>) of
             None \<Rightarrow> None
           | Some r \<Rightarrow> (case r of Inl e \<Rightarrow> Some (Inl e) | Inr q' \<Rightarrow> p1_job_loop stack filePath fdOut q'))))"

subsection \<open>The simulation by the thread of the server\<close>

definition same_job :: "p1_job \<Rightarrow> job \<Rightarrow> bool" where
  "same_job q st \<longleftrightarrow>
     q_table q = forget_ptr (j_table st) \<and> lonely_ptr (j_table st) \<and> q_world q = j_world st \<and>
     unread (q_file q) = j_input st \<and> stored (q_keys q, q_vals q) [] \<and>
     q_counter q = backupCounter st \<and> q_children q = j_children st \<and>
     q_fileBackups q = fileBackups st \<and> q_forks q = j_forks st \<and>
     map fst (j_backups st) = map (\<lambda>b. take 255 (fst b)) (q_backups q)"

definition stack_ok :: "stack \<Rightarrow> bool" where
  "stack_ok stack \<longleftrightarrow>
     (\<forall>f. length (fst (stack f)) = MAX_STRING_SIZE \<and> length (snd (stack f)) = MAX_STRING_SIZE)"

text \<open>The result on the memory refines the result of the server, or is the fault of a READ.\<close>

definition first_refines :: "p1_job res \<Rightarrow> job res \<Rightarrow> bool" where
  "first_refines mem spec \<longleftrightarrow> mem = Inl OutOfBounds \<or> res_refines same_job mem spec"

lemma zero_array_stored: "stored (zero_array, zero_array) []"
  by (simp add: stored_def arrays_ok_def zero_array_def)

lemma globally_refines:
  assumes "same_job q st"
    and "\<And>w. F (forget_ptr (j_table st)) w = map_res (\<lambda>(r, t, w'). (r, forget_ptr t, w')) (f (j_table st) w)"
    and "\<And>w r t w'. f (j_table st) w = Inr (r, t, w') \<Longrightarrow> lonely_ptr t"
  shows "res_refines same_job (p1_globally F q) (globally f st)"
proof -
  note same = assms(1) [unfolded same_job_def]
  obtain r w1 where l: "lock_call (j_world st) (RdLock GlobalHashLock) = (r, w1)" by fastforce
  show ?thesis
  proof (cases "r = 0")
    case False
    then show ?thesis using same l by (simp add: p1_globally_def globally_def same_job_def)
  next
    case True
    show ?thesis
    proof (cases "f (j_table st) w1")
      case (Inl e)
      then show ?thesis using same l True assms(2) [of w1] by (simp add: p1_globally_def globally_def)
    next
      case (Inr res)
      obtain r' t w2 where res: "res = (r', t, w2)" by (cases res)
      then show ?thesis
        using same l True Inr assms(2) [of w1] assms(3) [of w1 r' t w2]
        by (auto simp: p1_globally_def globally_def same_job_def split: prod.splits)
    qed
  qed
qed

lemma same_job_input:
  "same_job q st \<Longrightarrow> unread f = inp \<Longrightarrow> same_job (q\<lparr>q_file := f\<rparr>) (st\<lparr>j_input := inp\<rparr>)"
  by (simp add: same_job_def)

lemma holds_args: "holds arr ws \<Longrightarrow> arg_strings (length ws) arr = Inr ws"
  by (simp add: holds_def)

lemma job_write_refines:
  assumes "same_job q st" and "stack_ok stack"
  shows "res_refines same_job (p1_job_write stack q) (job_write st)"
proof -
  obtain key val where kv: "stack (q_file q) = (key, val)" by fastforce
  note same = assms(1) [unfolded same_job_def]
  have lens: "length key = MAX_STRING_SIZE" "length val = MAX_STRING_SIZE"
    using assms(2) kv by (metis fst_conv stack_ok_def, metis snd_conv stack_ok_def)
  have "res_refines same_job
    (bindE (p1_parse_write key val (q_keys q) (q_vals q) MAX_WRITE_SIZE (q_file q))
      (\<lambda>(num_pairs, keys, vals, f).
         let q1 = q\<lparr>q_file := f, q_keys := keys, q_vals := vals\<rparr> in
         if num_pairs = 0 then Inr q1
         else p1_globally (\<lambda>t w. bindE (arg_strings num_pairs keys) (\<lambda>ks.
           bindE (arg_strings num_pairs vals) (\<lambda>vs. p1_kvs_write t ks vs w))) q1))
    (job_write st)"
    unfolding job_write_def
  proof (rule res_refines_bind)
    show "res_refines count_rel (p1_parse_write key val (q_keys q) (q_vals q) MAX_WRITE_SIZE (q_file q))
        (parse_write MAX_WRITE_SIZE (j_input st))"
      using parse_write_refines [OF _ lens, of "q_keys q" "q_vals q" "q_file q"] same by simp
  next
    fix x y assume "count_rel x y"
    then obtain keys vals f ps where x: "x = (length ps, keys, vals, f)" "y = (ps, unread f)"
      "stored (keys, vals) ps"
      by (cases x; cases y) (auto simp: count_rel_def)
    let ?q = "q\<lparr>q_file := f, q_keys := keys, q_vals := vals\<rparr>"
    let ?st = "st\<lparr>j_input := unread f\<rparr>"
    have q: "same_job ?q ?st" using same stored_Nil [OF x(3)] by (simp add: same_job_def)
    have args: "arg_strings (length ps) keys = Inr (map fst ps)" "arg_strings (length ps) vals = Inr (map snd ps)"
      using x(3) holds_args [of keys "map fst ps"] holds_args [of vals "map snd ps"] by (simp_all add: stored_def)
    have "res_refines same_job
        (p1_globally (\<lambda>t w. bindE (arg_strings (length ps) keys) (\<lambda>ks.
           bindE (arg_strings (length ps) vals) (\<lambda>vs. p1_kvs_write t ks vs w))) ?q)
        (globally (\<lambda>t w. kvs_write t (map fst ps) (map snd ps) w) ?st)"
      using same by (intro globally_refines [OF q]) (auto simp: args kvs_write_forget)
    then show "res_refines same_job
        (case x of (num_pairs, keys, vals, f) \<Rightarrow>
           let q1 = q\<lparr>q_file := f, q_keys := keys, q_vals := vals\<rparr> in
           if num_pairs = 0 then Inr q1
           else p1_globally (\<lambda>t w. bindE (arg_strings num_pairs keys) (\<lambda>ks.
             bindE (arg_strings num_pairs vals) (\<lambda>vs. p1_kvs_write t ks vs w))) q1)
        (case y of (pairs, rest) \<Rightarrow> let st1 = st\<lparr>j_input := rest\<rparr> in
           if length pairs = 0 then Inr st1
           else globally (\<lambda>t w. kvs_write t (map fst pairs) (map snd pairs) w) st1)"
      using x q by (simp add: Let_def)
  qed
  then show ?thesis by (simp add: p1_job_write_def kv)
qed

lemma key_args_run:
  assumes "same_job q st" and "stack_ok stack"
    and "parse_read_delete MAX_WRITE_SIZE (j_input st) = Inr (ks, rest)"
  obtains keys f where
    "p1_parse_read_delete (fst (stack (q_file q))) (q_keys q) MAX_WRITE_SIZE (q_file q) =
       Inr (length ks, keys, f)"
    and "arg_strings (length ks) keys = Inr ks"
    and "same_job (q\<lparr>q_file := f, q_keys := keys\<rparr>) (st\<lparr>j_input := rest\<rparr>)"
proof -
  note same = assms(1) [unfolded same_job_def]
  have "res_refines key_count_rel
      (p1_parse_read_delete (fst (stack (q_file q))) (q_keys q) MAX_WRITE_SIZE (q_file q))
      (parse_read_delete MAX_WRITE_SIZE (unread (q_file q)))"
    using same assms(2) by (intro parse_read_delete_refines) (simp_all add: stored_def stack_ok_def)
  then obtain keys f where kf: "p1_parse_read_delete (fst (stack (q_file q))) (q_keys q) MAX_WRITE_SIZE (q_file q) =
      Inr (length ks, keys, f)" "unread f = rest" "arrays_ok keys" "holds keys ks"
    using same assms(3) by (auto simp: key_count_rel_def)
  have "same_job (q\<lparr>q_file := f, q_keys := keys\<rparr>) (st\<lparr>j_input := rest\<rparr>)"
    using same kf by (simp add: same_job_def stored_def)
  with that kf(1) holds_args [OF kf(4)] show thesis by blast
qed

lemma key_args_fault:
  assumes "same_job q st" and "stack_ok stack"
    and "parse_read_delete MAX_WRITE_SIZE (j_input st) = Inl e"
  shows "p1_parse_read_delete (fst (stack (q_file q))) (q_keys q) MAX_WRITE_SIZE (q_file q) = Inl e"
proof -
  have "res_refines key_count_rel
      (p1_parse_read_delete (fst (stack (q_file q))) (q_keys q) MAX_WRITE_SIZE (q_file q))
      (parse_read_delete MAX_WRITE_SIZE (unread (q_file q)))"
    using assms(1,2) by (intro parse_read_delete_refines) (simp_all add: stored_def stack_ok_def same_job_def)
  then show ?thesis using assms(1,3) by (simp add: same_job_def)
qed

lemma job_delete_refines:
  assumes "same_job q st" and "stack_ok stack"
  shows "res_refines same_job (p1_job_delete stack fdOut q) (job_delete fdOut st)"
proof (cases "parse_read_delete MAX_WRITE_SIZE (j_input st)")
  case (Inl e)
  then show ?thesis using key_args_fault [OF assms Inl] by (simp add: p1_job_delete_def job_delete_def)
next
  case (Inr res)
  obtain ks rest where res: "res = (ks, rest)" by (cases res)
  obtain keys f where kf:
    "p1_parse_read_delete (fst (stack (q_file q))) (q_keys q) MAX_WRITE_SIZE (q_file q) = Inr (length ks, keys, f)"
    "arg_strings (length ks) keys = Inr ks" "same_job (q\<lparr>q_file := f, q_keys := keys\<rparr>) (st\<lparr>j_input := rest\<rparr>)"
    using key_args_run [OF assms] Inr res by blast
  have l: "lonely_ptr (j_table st)" using assms(1) by (simp add: same_job_def)
  have "res_refines same_job
      (p1_globally (\<lambda>t w. p1_kvs_delete t ks fdOut w) (q\<lparr>q_file := f, q_keys := keys\<rparr>))
      (globally (\<lambda>t w. kvs_delete t ks fdOut w) (st\<lparr>j_input := rest\<rparr>))"
    using l by (intro globally_refines [OF kf(3)]) (auto simp: kvs_delete_forget)
  then show ?thesis using kf Inr res by (simp add: p1_job_delete_def job_delete_def Let_def)
qed

lemma job_show_refines:
  assumes "same_job q st"
  shows "res_refines same_job (p1_job_show fdOut q) (job_show fdOut st)"
proof -
  have l: "lonely_ptr (j_table st)" using assms by (simp add: same_job_def)
  have "bindE (p1_kvs_show (forget_ptr p) fdOut w) (\<lambda>(r, w'). Inr (r, forget_ptr p, w')) =
      map_res (\<lambda>(r, t, w'). (r, forget_ptr t, w')) (bindE (kvs_show p fdOut w) (\<lambda>(r, w'). Inr (r, p, w')))" for p w
    by (cases "kvs_show p fdOut w") (auto simp: kvs_show_forget)
  then show ?thesis
    unfolding p1_job_show_def job_show_def using l by (intro globally_refines [OF assms]) auto
qed

lemma job_wait_refines:
  assumes "same_job q st"
  shows "res_refines same_job (p1_job_wait fdOut q) (job_wait fdOut st)"
proof -
  note same = assms [unfolded same_job_def]
  show ?thesis
  proof (cases "p1_parse_wait False (q_file q)")
    case (Inl e)
    then show ?thesis
      using same parse_wait_refines [of False "q_file q"] by (simp add: p1_job_wait_def job_wait_def)
  next
    case (Inr res)
    obtain r d t f where res: "res = (r, d, t, f)" by (cases res)
    have spec: "parse_wait False (j_input st) = Inr (r, d, t, unread f)"
      using same parse_wait_refines [of False "q_file q"] Inr res by simp
    have "same_job (q\<lparr>q_file := f\<rparr>) (st\<lparr>j_input := unread f\<rparr>)" using same_job_input [OF assms] by simp
    then show ?thesis
      using Inr res spec same
      by (cases d) (auto simp: p1_job_wait_def job_wait_def Let_def same_job_def)
  qed
qed

lemma job_read_run:
  assumes "same_job q st" and "stack_ok stack"
    and "parse_read_delete MAX_WRITE_SIZE (j_input st) = Inr (ks, rest)"
  obtains q1 where "same_job q1 (st\<lparr>j_input := rest\<rparr>)"
    and "p1_job_read stack fdOut q = (if ks = [] then Inr q1
      else p1_globally (\<lambda>t w. bindE (p1_kvs_read t ks fdOut w) (\<lambda>(r, w'). Inr (r, t, w'))) q1)"
proof -
  obtain keys f where kf:
    "p1_parse_read_delete (fst (stack (q_file q))) (q_keys q) MAX_WRITE_SIZE (q_file q) = Inr (length ks, keys, f)"
    "arg_strings (length ks) keys = Inr ks" "same_job (q\<lparr>q_file := f, q_keys := keys\<rparr>) (st\<lparr>j_input := rest\<rparr>)"
    by (rule key_args_run [OF assms])
  show thesis by (rule that [OF kf(3)]) (simp add: p1_job_read_def Let_def kf(1,2))
qed

lemma read_result_forget:
  assumes "F = kvs_read p ks fdOut w"
  shows "bindE F (\<lambda>(r, w'). Inr (r, forget_ptr p, w')) =
    map_res (\<lambda>(r, t, w'). (r, forget_ptr t, w')) (bindE (kvs_read p ks fdOut w) (\<lambda>(r, w'). Inr (r, p, w')))"
  unfolding assms by (cases "kvs_read p ks fdOut w") auto

lemma job_read_refines:
  assumes "same_job q st" and "stack_ok stack"
  shows "first_refines (p1_job_read stack fdOut q) (job_read fdOut st)"
    and "parse_read_delete MAX_WRITE_SIZE (j_input st) = Inr (ks, rest) \<Longrightarrow> j_table st = Table ht \<Longrightarrow>
      (\<forall>k \<in> set ks. node_of ht k = None) \<Longrightarrow>
      res_refines same_job (p1_job_read stack fdOut q) (job_read fdOut st)"
    and "parse_read_delete MAX_WRITE_SIZE (j_input st) = Inr (ks, rest) \<Longrightarrow> j_table st = Table ht \<Longrightarrow>
      w_lockres (j_world st) = [] \<Longrightarrow> (\<forall>k \<in> set ks. valid_key k) \<Longrightarrow> (\<exists>k \<in> set ks. node_of ht k \<noteq> None) \<Longrightarrow>
      p1_job_read stack fdOut q = Inl OutOfBounds"
proof -
  have l: "lonely_ptr (j_table st)" using assms(1) by (simp add: same_job_def)
  have equal: "res_refines same_job
      (p1_globally (\<lambda>t w. bindE (p1_kvs_read t ks fdOut w) (\<lambda>(r, w'). Inr (r, t, w'))) q1)
      (globally (\<lambda>t w. bindE (kvs_read t ks fdOut w) (\<lambda>(r, w'). Inr (r, t, w'))) (st\<lparr>j_input := rest\<rparr>))"
    if "same_job q1 (st\<lparr>j_input := rest\<rparr>)"
      "\<And>w. p1_kvs_read (forget_ptr (j_table st)) ks fdOut w = kvs_read (j_table st) ks fdOut w" for q1 ks rest
    using that(2) l by (intro globally_refines [OF that(1)]) (auto simp: read_result_forget [OF refl])
  show "first_refines (p1_job_read stack fdOut q) (job_read fdOut st)"
  proof (cases "parse_read_delete MAX_WRITE_SIZE (j_input st)")
    case (Inl e)
    then show ?thesis using key_args_fault [OF assms Inl] by (simp add: p1_job_read_def job_read_def first_refines_def)
  next
    case (Inr res)
    obtain ks rest where res: "parse_read_delete MAX_WRITE_SIZE (j_input st) = Inr (ks, rest)"
      using Inr by (cases res) simp
    obtain q1 where q1: "same_job q1 (st\<lparr>j_input := rest\<rparr>)"
      "p1_job_read stack fdOut q = (if ks = [] then Inr q1
        else p1_globally (\<lambda>t w. bindE (p1_kvs_read t ks fdOut w) (\<lambda>(r, w'). Inr (r, t, w'))) q1)"
      by (rule job_read_run [OF assms res])
    obtain r w1 where lk: "lock_call (j_world st) (RdLock GlobalHashLock) = (r, w1)" by fastforce
    have q1': "q_world q1 = j_world st" "q_table q1 = forget_ptr (j_table st)" using q1(1) by (simp_all add: same_job_def)
    consider "p1_kvs_read (forget_ptr (j_table st)) ks fdOut w1 = Inl OutOfBounds"
      | "p1_kvs_read (forget_ptr (j_table st)) ks fdOut w1 = kvs_read (j_table st) ks fdOut w1"
      using kvs_read_forget(1) [OF l] by blast
    then show ?thesis
    proof cases
      case 1
      then show ?thesis
        using q1 q1' lk res
        by (auto simp: first_refines_def p1_globally_def globally_def job_read_def Let_def same_job_def)
    next
      case 2
      have "p1_globally (\<lambda>t w. bindE (p1_kvs_read t ks fdOut w) (\<lambda>(r, w'). Inr (r, t, w'))) q1 =
          p1_globally (\<lambda>t w. map_res (\<lambda>(r, t, w'). (r, forget_ptr t, w'))
            (bindE (kvs_read (j_table st) ks fdOut w) (\<lambda>(r, w'). Inr (r, j_table st, w')))) q1"
        using q1' lk read_result_forget [OF 2] by (simp add: p1_globally_def)
      moreover have "res_refines same_job
          (p1_globally (\<lambda>t w. map_res (\<lambda>(r, t, w'). (r, forget_ptr t, w'))
            (bindE (kvs_read (j_table st) ks fdOut w) (\<lambda>(r, w'). Inr (r, j_table st, w')))) q1)
          (globally (\<lambda>t w. bindE (kvs_read t ks fdOut w) (\<lambda>(r, w'). Inr (r, t, w'))) (st\<lparr>j_input := rest\<rparr>))"
        using l by (intro globally_refines [OF q1(1)]) auto
      ultimately show ?thesis using q1 res by (auto simp: first_refines_def job_read_def Let_def)
    qed
  qed
  show "res_refines same_job (p1_job_read stack fdOut q) (job_read fdOut st)"
    if run: "parse_read_delete MAX_WRITE_SIZE (j_input st) = Inr (ks, rest)" and t: "j_table st = Table ht"
      and absent: "\<forall>k \<in> set ks. node_of ht k = None"
  proof -
    obtain q1 where q1: "same_job q1 (st\<lparr>j_input := rest\<rparr>)"
      "p1_job_read stack fdOut q = (if ks = [] then Inr q1
        else p1_globally (\<lambda>t w. bindE (p1_kvs_read t ks fdOut w) (\<lambda>(r, w'). Inr (r, t, w'))) q1)"
      by (rule job_read_run [OF assms run])
    then show ?thesis
      using equal [OF q1(1)] kvs_read_forget(2) [OF l t absent] run by (simp add: job_read_def Let_def)
  qed
  show "p1_job_read stack fdOut q = Inl OutOfBounds"
    if run: "parse_read_delete MAX_WRITE_SIZE (j_input st) = Inr (ks, rest)" and t: "j_table st = Table ht"
      and calm: "w_lockres (j_world st) = []" and valid: "\<forall>k \<in> set ks. valid_key k"
      and present: "\<exists>k \<in> set ks. node_of ht k \<noteq> None"
  proof -
    obtain q1 where q1: "same_job q1 (st\<lparr>j_input := rest\<rparr>)"
      "p1_job_read stack fdOut q = (if ks = [] then Inr q1
        else p1_globally (\<lambda>t w. bindE (p1_kvs_read t ks fdOut w) (\<lambda>(r, w'). Inr (r, t, w'))) q1)"
      by (rule job_read_run [OF assms run])
    have "p1_kvs_read (forget_ptr (j_table st)) ks fdOut
        ((j_world st)\<lparr>w_locks := w_locks (j_world st) @ [RdLock GlobalHashLock]\<rparr>) = Inl OutOfBounds"
      by (rule kvs_read_forget(3) [OF l t _ valid present]) (simp add: calm)
    then show ?thesis
      using q1 present calm by (auto simp: p1_globally_def same_job_def)
  qed
qed

lemma bck_path_first: "bck_path filePath n = take 255 (p1_bck_path filePath n)"
  by (simp add: bck_path_def p1_bck_path_def snprintf_def PATH_MAX_def MAX_JOB_FILE_NAME_SIZE_def
      del: take_append)

lemma fork_backup_refines:
  assumes "same_job q st"
  shows "same_job (p1_fork_backup filePath q) (fork_backup filePath st)"
proof -
  obtain r1 w1 where l1: "lock_call (j_world st) (WrLock GlobalHashLock) = (r1, w1)" by fastforce
  obtain r2 w2 where l2: "lock_call w1 (Unlock GlobalHashLock) = (r2, w2)" by fastforce
  show ?thesis
    using assms l1 l2 bck_path_first [of filePath "fileBackups st"]
    by (auto simp: same_job_def p1_fork_backup_def fork_backup_def Let_def split: list.splits)
qed

lemma job_backup_refines:
  assumes "same_job q st"
  shows "(case job_backup filePath st of None \<Rightarrow> p1_job_backup filePath q = None
    | Some st' \<Rightarrow> \<exists>q'. p1_job_backup filePath q = Some q' \<and> same_job q' st')"
proof -
  note same = assms [unfolded same_job_def]
  show ?thesis
  proof (cases "wait_for_place st")
    case None
    then show ?thesis
      using same by (auto simp: wait_for_place_def p1_job_backup_def job_backup_def p1_wait_for_place_def split: if_splits)
  next
    case (Some st1)
    then obtain q1 where q1: "p1_wait_for_place q = Some q1" "same_job q1 st1"
      using same by (auto simp: wait_for_place_def p1_wait_for_place_def same_job_def split: if_splits)
    then show ?thesis
      using Some fork_backup_refines [OF q1(2)] by (simp add: p1_job_backup_def job_backup_def)
  qed
qed

text \<open>The same for results that may also be \<open>None\<close>.\<close>

definition run_refines :: "p1_job res option \<Rightarrow> job res option \<Rightarrow> bool" where
  "run_refines mem spec \<longleftrightarrow>
     (case spec of None \<Rightarrow> mem = None | Some r \<Rightarrow> \<exists>r'. mem = Some r' \<and> res_refines same_job r' r)"

lemma run_refines_simps [simp]:
  "run_refines mem None \<longleftrightarrow> mem = None"
  "run_refines (Some r') (Some r) \<longleftrightarrow> res_refines same_job r' r"
  by (simp_all add: run_refines_def)

lemma run_command_refines:
  assumes "same_job q st" and "stack_ok stack"
    and "cmd = CMD_READ \<Longrightarrow> res_refines same_job (p1_job_read stack fdOut q) (job_read fdOut st)"
  shows "run_refines (p1_run_command stack filePath fdOut cmd q) (run_command filePath fdOut cmd st)"
  using assms job_write_refines [OF assms(1,2)] job_delete_refines [OF assms(1,2)]
    job_show_refines [OF assms(1)] job_wait_refines [OF assms(1)] job_backup_refines [OF assms(1), of filePath]
  by (cases cmd) (auto simp: p1_run_command_def run_command_def split: option.splits)

text \<open>A READ that is about to run asks for a key that has a node in the table.\<close>

definition read_finds :: "job \<Rightarrow> bool" where
  "read_finds st \<longleftrightarrow>
     (case (parse_read_delete MAX_WRITE_SIZE (j_input st), j_table st) of
        (Inr (ks, _), Table ht) \<Rightarrow> \<exists>k \<in> set ks. node_of ht k \<noteq> None
      | _ \<Rightarrow> False)"

text \<open>One of the commands that are still to run in a file is such a READ.\<close>

inductive finds :: "string \<Rightarrow> int \<Rightarrow> job \<Rightarrow> bool" for filePath fdOut where
  this_read: "get_next (j_input st) = (CMD_READ, rest) \<Longrightarrow> read_finds (st\<lparr>j_input := rest\<rparr>) \<Longrightarrow>
    finds filePath fdOut st"
| later_read: "get_next (j_input st) = (cmd, rest) \<Longrightarrow> cmd \<noteq> command.EOC \<Longrightarrow>
    run_command filePath fdOut cmd (st\<lparr>j_input := rest\<rparr>) = Some (Inr st') \<Longrightarrow> finds filePath fdOut st' \<Longrightarrow>
    finds filePath fdOut st"

inductive_simps finds_iff: "finds filePath fdOut st"

lemma job_read_equal:
  assumes "same_job q st" and "stack_ok stack"
    and "parse_read_delete MAX_WRITE_SIZE (j_input st) = Inr (ks, rest)"
    and "\<And>w. p1_kvs_read (forget_ptr (j_table st)) ks fdOut w = kvs_read (j_table st) ks fdOut w"
  shows "res_refines same_job (p1_job_read stack fdOut q) (job_read fdOut st)"
proof -
  obtain q1 where q1: "same_job q1 (st\<lparr>j_input := rest\<rparr>)"
    "p1_job_read stack fdOut q = (if ks = [] then Inr q1
      else p1_globally (\<lambda>t w. bindE (p1_kvs_read t ks fdOut w) (\<lambda>(r, w'). Inr (r, t, w'))) q1)"
    by (rule job_read_run [OF assms(1-3)])
  have l: "lonely_ptr (j_table st)" using assms(1) by (simp add: same_job_def)
  have "res_refines same_job
      (p1_globally (\<lambda>t w. bindE (p1_kvs_read t ks fdOut w) (\<lambda>(r, w'). Inr (r, t, w'))) q1)
      (globally (\<lambda>t w. bindE (kvs_read t ks fdOut w) (\<lambda>(r, w'). Inr (r, t, w'))) (st\<lparr>j_input := rest\<rparr>))"
    using assms(4) l by (intro globally_refines [OF q1(1)]) (auto simp: read_result_forget [OF refl])
  then show ?thesis using q1 assms(3) by (simp add: job_read_def Let_def)
qed

lemma read_misses_refines:
  assumes "same_job q st" and "stack_ok stack" and "\<not> read_finds st"
  shows "res_refines same_job (p1_job_read stack fdOut q) (job_read fdOut st)"
proof (cases "parse_read_delete MAX_WRITE_SIZE (j_input st)")
  case (Inl e)
  then show ?thesis using key_args_fault [OF assms(1,2) Inl] by (simp add: p1_job_read_def job_read_def)
next
  case (Inr res)
  obtain ks rest where res: "parse_read_delete MAX_WRITE_SIZE (j_input st) = Inr (ks, rest)"
    using Inr by (cases res) simp
  have "p1_kvs_read (forget_ptr (j_table st)) ks fdOut w = kvs_read (j_table st) ks fdOut w" for w
  proof (cases "j_table st")
    case (Table ht)
    have "lonely_ptr (j_table st)" using assms(1) by (simp add: same_job_def)
    then show ?thesis
      using kvs_read_forget(2) [OF _ Table] assms(3) res Table by (simp add: read_finds_def)
  qed (simp_all add: p1_kvs_read_def kvs_read_def)
  then show ?thesis by (rule job_read_equal [OF assms(1,2) res])
qed

lemma run_command_refines_or_faults:
  assumes "same_job q st" and "stack_ok stack"
  shows "cmd = CMD_READ \<and> read_finds st \<and> p1_run_command stack filePath fdOut cmd q = Some (Inl OutOfBounds) \<or>
    run_refines (p1_run_command stack filePath fdOut cmd q) (run_command filePath fdOut cmd st)"
proof (cases "cmd = CMD_READ \<and> read_finds st")
  case False
  then show ?thesis
    using run_command_refines [OF assms] read_misses_refines [OF assms] by blast
next
  case True
  show ?thesis
  proof (cases "p1_job_read stack fdOut q = Inl OutOfBounds")
    case fault: True
    then show ?thesis using True by (simp add: p1_run_command_def)
  next
    case False
    then have "res_refines same_job (p1_job_read stack fdOut q) (job_read fdOut st)"
      using job_read_refines(1) [OF assms, of fdOut] by (simp add: first_refines_def)
    with run_command_refines [OF assms] show ?thesis by blast
  qed
qed

lemma job_loop_refines:
  assumes "same_job q st" and "stack_ok stack"
  shows "finds filePath fdOut st \<and> p1_job_loop stack filePath fdOut q = Some (Inl OutOfBounds) \<or>
    (case job_loop filePath fdOut st of
       None \<Rightarrow> p1_job_loop stack filePath fdOut q = None
     | Some (Inl e) \<Rightarrow> p1_job_loop stack filePath fdOut q = Some (Inl e)
     | Some (Inr st') \<Rightarrow> \<exists>q'. p1_job_loop stack filePath fdOut q = Some (Inr q') \<and> same_job q' st')"
  using assms(1)
proof (induction filePath fdOut st arbitrary: q rule: job_loop.induct)
  case (1 filePath fdOut st)
  note same = "1.prems" [unfolded same_job_def]
  obtain cmd rest where cmd: "get_next (j_input st) = (cmd, rest)" by fastforce
  obtain f where f: "p1_get_next (q_file q) = Inr (cmd, f)" "unread f = rest"
    using get_next_refines [of "q_file q"] same cmd by auto
  have same1: "same_job (q\<lparr>q_file := f\<rparr>) (st\<lparr>j_input := rest\<rparr>)"
    by (rule same_job_input [OF "1.prems" f(2)])
  show ?case
  proof (cases "cmd = command.EOC")
    case True
    then show ?thesis
      using same1 cmd f(1) by (simp add: p1_job_loop.simps [of _ _ _ q] job_loop.simps [of _ _ st])
  next
    case False
    note unfold = p1_job_loop.simps [of _ _ _ q] job_loop.simps [of _ _ st]
    from run_command_refines_or_faults [OF same1 assms(2), where filePath = filePath and fdOut = fdOut and cmd = cmd] show ?thesis
    proof
      assume "cmd = CMD_READ \<and> read_finds (st\<lparr>j_input := rest\<rparr>) \<and>
        p1_run_command stack filePath fdOut cmd (q\<lparr>q_file := f\<rparr>) = Some (Inl OutOfBounds)"
      then show ?thesis using False f(1) cmd by (auto simp: unfold intro: finds.this_read)
    next
      assume r: "run_refines (p1_run_command stack filePath fdOut cmd (q\<lparr>q_file := f\<rparr>))
          (run_command filePath fdOut cmd (st\<lparr>j_input := rest\<rparr>))"
      show ?thesis
      proof (cases "run_command filePath fdOut cmd (st\<lparr>j_input := rest\<rparr>)")
        case None
        then show ?thesis using r False cmd f(1) by (simp add: unfold)
      next
        case (Some res)
        show ?thesis
        proof (cases res)
          case (Inl e)
          then show ?thesis using r Some False cmd f(1) by (auto simp: unfold run_refines_def)
        next
          case (Inr st1)
          then obtain q1 where q1: "p1_run_command stack filePath fdOut cmd (q\<lparr>q_file := f\<rparr>) = Some (Inr q1)"
            "same_job q1 st1"
            using r Some by (auto simp: run_refines_def)
          have eqs: "p1_job_loop stack filePath fdOut q = p1_job_loop stack filePath fdOut q1"
            "job_loop filePath fdOut st = job_loop filePath fdOut st1"
            using q1(1) Some Inr False cmd f(1) by (simp_all add: unfold)
          have "finds filePath fdOut st1 \<Longrightarrow> finds filePath fdOut st"
            using cmd False Some Inr by (auto intro: finds.later_read)
          then show ?thesis unfolding eqs using "1.IH" [OF cmd [symmetric] False Some Inr q1(2)] by blast
        qed
      qed
    qed
  qed
qed

subsection \<open>What a job file means\<close>

text \<open>No READ of the script asks for a key that has a value at that point.\<close>

fun reads_absent :: "(string \<Rightarrow> string option) \<Rightarrow> script_cmd list \<Rightarrow> bool" where
  "reads_absent m [] \<longleftrightarrow> True"
| "reads_absent m (c # cs) \<longleftrightarrow>
     (case c of DoRead ks \<Rightarrow> \<forall>k \<in> set ks. m k = None | _ \<Rightarrow> True) \<and> reads_absent (cmd_map m c) cs"

lemma node_of_absent: "sound_table ht \<Longrightarrow> node_of ht k = None \<longleftrightarrow> kvs_map ht k = None"
  by (auto simp: kvs_map_def sound_table_def no_null_iff split: option.splits)

text \<open>A step of the first project for one command of a script.\<close>

lemma first_job_step:
  assumes "same_job q st" and "stack_ok stack" and "job_ready st ht fdOut" and "cmd_ok c"
    and "j_input st = cmd_text c @ rest"
  shows "reads_absent (kvs_map ht) [c] \<Longrightarrow>
      \<exists>q' st'. p1_job_loop stack filePath fdOut q = p1_job_loop stack filePath fdOut q' \<and> same_job q' st' \<and>
        job_stepped st ht fdOut (cmd_map (kvs_map ht) c) (cmd_out (kvs_map ht) c) rest st'"
    and "\<not> reads_absent (kvs_map ht) [c] \<Longrightarrow>
      p1_job_loop stack filePath fdOut q = Some (Inl OutOfBounds)"
proof -
  obtain args st' where s: "get_next (j_input st) = (cmd_word c, args)"
    "run_command filePath fdOut (cmd_word c) (st\<lparr>j_input := args\<rparr>) = Some (Inr st')"
    "job_stepped st ht fdOut (cmd_map (kvs_map ht) c) (cmd_out (kvs_map ht) c) rest st'"
    by (rule job_cmd_run [OF assms(3-5)])
  note ready = assms(3) [unfolded job_ready_def]
  obtain f where f: "p1_get_next (q_file q) = Inr (cmd_word c, f)" "unread f = args"
    using get_next_refines [of "q_file q"] assms(1) s(1) by (auto simp: same_job_def)
  let ?q = "q\<lparr>q_file := f\<rparr>" and ?st = "st\<lparr>j_input := args\<rparr>"
  have same: "same_job ?q ?st" by (rule same_job_input [OF assms(1) f(2)])
  have args: "parse_read_delete MAX_WRITE_SIZE args = Inr (ks, rest)" if "c = DoRead ks" for ks
  proof -
    have "args = keys_text ks @ rest" using s(1) assms(5) that by (simp add: get_next_def)
    then show ?thesis using key_command_text [of ks] assms(4) that by simp
  qed
  have absent: "node_of ht k = None \<longleftrightarrow> kvs_map ht k = None" for k
    using ready by (simp add: node_of_absent)
  show "\<exists>q' st'. p1_job_loop stack filePath fdOut q = p1_job_loop stack filePath fdOut q' \<and> same_job q' st' \<and>
      job_stepped st ht fdOut (cmd_map (kvs_map ht) c) (cmd_out (kvs_map ht) c) rest st'"
    if abs: "reads_absent (kvs_map ht) [c]"
  proof -
    have rd_ok: "res_refines same_job (p1_job_read stack fdOut ?q) (job_read fdOut ?st)" if rd: "cmd_word c = CMD_READ"
    proof -
      obtain ks where c: "c = DoRead ks" using rd by (cases c) simp_all
      show ?thesis
        using abs ready args [OF c] c absent
        by (intro job_read_refines(2) [OF same assms(2), where ks = ks and rest = rest and ht = ht]) auto
    qed
    have "run_refines (p1_run_command stack filePath fdOut (cmd_word c) ?q)
        (run_command filePath fdOut (cmd_word c) ?st)"
      by (rule run_command_refines [OF same assms(2) rd_ok])
    then obtain q' where
      "p1_run_command stack filePath fdOut (cmd_word c) ?q = Some (Inr q')" "same_job q' st'"
      using s(2) by (auto simp: run_refines_def)
    then show ?thesis
      using f(1) s(3) by (intro exI [of _ q'] exI [of _ st']) (simp add: p1_job_loop.simps [of _ _ _ q])
  qed
  show "p1_job_loop stack filePath fdOut q = Some (Inl OutOfBounds)"
    if present: "\<not> reads_absent (kvs_map ht) [c]"
  proof -
    obtain ks where ks: "c = DoRead ks" "\<exists>k \<in> set ks. kvs_map ht k \<noteq> None"
      using present by (cases c) auto
    have "p1_job_read stack fdOut ?q = Inl OutOfBounds"
      using ready args [OF ks(1)] ks absent assms(4)
      by (intro job_read_refines(3) [OF same assms(2), where ks = ks and rest = rest and ht = ht])
        (auto simp: calm_def)
    then show ?thesis using f(1) ks(1) by (simp add: p1_job_loop.simps [of _ _ _ q] p1_run_command_def)
  qed
qed

text \<open>For a printed script, a READ finds its key exactly when the meaning of the script says so.\<close>

lemma finds_script:
  assumes "job_ready st ht fdOut" and "\<forall>c \<in> set cs. cmd_ok c" and "j_input st = concat (map cmd_text cs)"
  shows "finds filePath fdOut st \<longleftrightarrow> \<not> reads_absent (kvs_map ht) cs"
  using assms
proof (induction cs arbitrary: st ht)
  case Nil
  then have "get_next (j_input st) = (command.EOC, [])" by (simp add: get_next_def)
  then show ?case by (simp add: finds_iff [of _ _ st])
next
  case (Cons c cs)
  have ok: "cmd_ok c" and inp: "j_input st = cmd_text c @ concat (map cmd_text cs)" using Cons.prems by simp_all
  obtain args st' where s: "get_next (j_input st) = (cmd_word c, args)"
    "run_command filePath fdOut (cmd_word c) (st\<lparr>j_input := args\<rparr>) = Some (Inr st')"
    "job_stepped st ht fdOut (cmd_map (kvs_map ht) c) (cmd_out (kvs_map ht) c) (concat (map cmd_text cs)) st'"
    by (rule job_cmd_run [OF Cons.prems(1) ok inp])
  obtain ht' where ht': "job_ready st' ht' fdOut" "kvs_map ht' = cmd_map (kvs_map ht) c"
    "j_input st' = concat (map cmd_text cs)"
    using s(3) by (auto simp: job_stepped_def)
  have later: "finds filePath fdOut st' \<longleftrightarrow> \<not> reads_absent (cmd_map (kvs_map ht) c) cs"
    using Cons.IH [OF ht'(1) _ ht'(3)] Cons.prems(2) ht'(2) by simp
  have "cmd_word c = CMD_READ \<and> read_finds (st\<lparr>j_input := args\<rparr>) \<longleftrightarrow> \<not> reads_absent (kvs_map ht) [c]"
  proof (cases c)
    case (DoRead ks)
    then have "args = keys_text ks @ concat (map cmd_text cs)" using s(1) inp by (simp add: get_next_def)
    then have "parse_read_delete MAX_WRITE_SIZE args = Inr (ks, concat (map cmd_text cs))"
      using key_command_text [of ks] ok DoRead by simp
    then show ?thesis
      using DoRead Cons.prems(1) by (simp add: read_finds_def job_ready_def node_of_absent)
  qed simp_all
  moreover have "finds filePath fdOut st \<longleftrightarrow>
      cmd_word c = CMD_READ \<and> read_finds (st\<lparr>j_input := args\<rparr>) \<or> finds filePath fdOut st'"
    using s(1,2) by (subst finds_iff) (cases c; simp)
  ultimately show ?case using later by auto
qed

lemma first_job_file_run:
  assumes "same_job q st" and "stack_ok stack" and "job_ready st ht fdOut" and "\<forall>c \<in> set cs. cmd_ok c"
    and "unread (q_file q) = concat (map cmd_text cs)"
  shows "if reads_absent (kvs_map ht) cs
    then \<exists>q' ht'. p1_job_loop stack filePath fdOut q = Some (Inr q') \<and>
      q_table q' = P1Table (forget ht') \<and> kvs_map ht' = script_map (kvs_map ht) cs \<and>
      w_out (q_world q') fdOut = w_out (q_world q) fdOut @ script_out (kvs_map ht) cs
    else p1_job_loop stack filePath fdOut q = Some (Inl OutOfBounds)"
  using assms
proof (induction cs arbitrary: q st ht)
  case Nil
  then have "get_next (j_input st) = (command.EOC, [])" by (simp add: same_job_def get_next_def)
  then obtain f where "p1_get_next (q_file q) = Inr (command.EOC, f)"
    using get_next_refines [of "q_file q"] Nil.prems(1) by (auto simp: same_job_def)
  then have "p1_job_loop stack filePath fdOut q = Some (Inr (q\<lparr>q_file := f\<rparr>))"
    by (simp add: p1_job_loop.simps [of _ _ _ q])
  then show ?case using Nil.prems(1,3) by (auto simp: same_job_def job_ready_def)
next
  case (Cons c cs)
  have ok: "cmd_ok c" "\<forall>c \<in> set cs. cmd_ok c" using Cons.prems(4) by simp_all
  have inp: "j_input st = cmd_text c @ concat (map cmd_text cs)"
    using Cons.prems(1,5) by (simp add: same_job_def)
  note step = first_job_step [OF Cons.prems(1-3) ok(1) inp, of filePath]
  show ?case
  proof (cases "reads_absent (kvs_map ht) [c]")
    case False
    then have "\<not> reads_absent (kvs_map ht) (c # cs)" by simp
    with step(2) [OF False] show ?thesis by (simp only: if_False)
  next
    case True
    obtain q1 st1 where s1: "p1_job_loop stack filePath fdOut q = p1_job_loop stack filePath fdOut q1"
      "same_job q1 st1"
      "job_stepped st ht fdOut (cmd_map (kvs_map ht) c) (cmd_out (kvs_map ht) c) (concat (map cmd_text cs)) st1"
      using step(1) [OF True] by blast
    then obtain ht1 where ht1: "job_ready st1 ht1 fdOut" "kvs_map ht1 = cmd_map (kvs_map ht) c"
      "j_input st1 = concat (map cmd_text cs)"
      "w_out (j_world st1) fdOut = w_out (j_world st) fdOut @ cmd_out (kvs_map ht) c"
      unfolding job_stepped_def by blast
    have un: "unread (q_file q1) = concat (map cmd_text cs)"
      "w_out (q_world q1) fdOut = w_out (q_world q) fdOut @ cmd_out (kvs_map ht) c"
      using s1(2) ht1(3,4) Cons.prems(1) by (simp_all add: same_job_def)
    have "reads_absent (kvs_map ht) (c # cs) \<longleftrightarrow> reads_absent (kvs_map ht1) cs"
      using True ht1(2) by simp
    then show ?thesis
      using Cons.IH [OF s1(2) Cons.prems(2) ht1(1) ok(2) un(1)] unfolding s1(1) un(2) ht1(2)
      by (simp del: reads_absent.simps cong: if_cong)
  qed
qed

text \<open>
  C1: The thread of the first project, with its arrays and file offsets, given the printed text of a
  list of commands: if no READ of the list asks for a key that has a value, the thread reaches the
  end of the file, its table is the meaning of the commands in their order and its output file gets
  exactly the text they print; otherwise it ends in the fault of that READ.
\<close>

theorem first_job_file_meaning:
  assumes "same_job q st" and "stack_ok stack" and "job_ready st ht fdOut" and "\<forall>c \<in> set cs. cmd_ok c"
    and "unread (q_file q) = concat (map cmd_text cs)"
  shows "if reads_absent (kvs_map ht) cs
    then \<exists>q' ht'. p1_job_loop stack filePath fdOut q = Some (Inr q') \<and>
      q_table q' = P1Table (forget ht') \<and> kvs_map ht' = script_map (kvs_map ht) cs \<and>
      w_out (q_world q') fdOut = w_out (q_world q) fdOut @ script_out (kvs_map ht) cs
    else p1_job_loop stack filePath fdOut q = Some (Inl OutOfBounds)"
  by (rule first_job_file_run [OF assms])

subsection \<open>Instances\<close>

definition first_job :: "string \<Rightarrow> p1_job" where
  "first_job inp =
     \<lparr>q_table = P1Table (forget quiet_table), q_world = quiet_world, q_file = \<lparr>f_text = inp, f_pos = 0\<rparr>,
      q_keys = zero_array, q_vals = zero_array, q_counter = 1, q_children = 0, q_fileBackups = 1,
      q_forks = [], q_backups = []\<rparr>"

definition junk :: stack where
  "junk f = (replicate MAX_STRING_SIZE CHR ''x'', replicate MAX_STRING_SIZE CHR ''y'')"

lemma junk_ok: "stack_ok junk"
  by (simp add: stack_ok_def junk_def)

lemma first_job_same:
  "same_job (first_job inp) ((sample_job [] inp)\<lparr>j_table := Table quiet_table\<rparr>)"
  using quiet_table_lonely
  by (simp add: same_job_def first_job_def sample_job_def lonely_ptr_def zero_array_stored unread_def)

lemma quiet_table_ready: "job_ready ((sample_job [] inp)\<lparr>j_table := Table quiet_table\<rparr>) quiet_table 1"
proof -
  have "wf_table quiet_table"
    by (auto simp: wf_table_def quiet_table_def TABLE_SIZE_def wf_bucket_def nth_Cons hash_def char_at_def
        tolower_def split: nat.splits)
  moreover have "no_null quiet_table" "targets quiet_table = {}"
    by (simp_all add: no_null_def targets_def all_nodes_def quiet_table_def)
  ultimately show ?thesis by (simp add: job_ready_def sound_table_def)
qed

definition first_script :: "script_cmd list" where
  "first_script = [DoWrite [(''b'', ''2'')], DoRead [''c'']]"

theorem first_job_file_meaning_witness:
  "(\<exists>q' ht'. p1_job_loop junk ''jobs/x.job'' 1
       (first_job (concat [''WRITE [(b,2)]'', [newline], ''READ [c]'', [newline]])) = Some (Inr q') \<and>
     q_table q' = P1Table (forget ht') \<and> kvs_map ht' ''a'' = Some ''1'' \<and> kvs_map ht' ''b'' = Some ''2'' \<and>
     w_out (q_world q') 1 = ''[(c,KVSERROR)]'' @ [newline]) \<and>
   p1_job_loop junk ''jobs/x.job'' 1 (first_job (''READ [a]'' @ [newline])) = Some (Inl OutOfBounds)"
proof
  let ?text = "concat [''WRITE [(b,2)]'', [newline], ''READ [c]'', [newline]]"
  have m: "kvs_map quiet_table ''a'' = Some ''1''" "kvs_map quiet_table ''b'' = None" "kvs_map quiet_table ''c'' = None"
    by (simp_all add: kvs_map_def node_of_def quiet_table_def hash_def char_at_def tolower_def)
  have un: "unread (q_file (first_job inp)) = inp" "q_world (first_job inp) = quiet_world" for inp
    by (simp_all add: first_job_def unread_def)
  have ok: "\<forall>c \<in> set first_script. cmd_ok c" "\<forall>c \<in> set [DoRead [''a'']]. cmd_ok c"
    by (auto simp: first_script_def MAX_WRITE_SIZE_def plain_def fits_def separators_def
        MAX_STRING_SIZE_def valid_key_ConsI)
  have inp: "unread (q_file (first_job ?text)) = concat (map cmd_text first_script)"
    by (simp add: un first_script_def write_text_def keys_text_def pair_text_def)
  have "reads_absent (kvs_map quiet_table) first_script" by (simp add: first_script_def m)
  with first_job_file_meaning [OF first_job_same junk_ok quiet_table_ready ok(1) inp, of "''jobs/x.job''"]
  obtain q' ht' where run: "p1_job_loop junk ''jobs/x.job'' 1 (first_job ?text) = Some (Inr q')"
    "q_table q' = P1Table (forget ht')" "kvs_map ht' = script_map (kvs_map quiet_table) first_script"
    "w_out (q_world q') 1 = w_out quiet_world 1 @ script_out (kvs_map quiet_table) first_script"
    using un by auto
  have "w_out (q_world q') 1 = ''[(c,KVSERROR)]'' @ [newline]"
    unfolding run(4) by (simp add: first_script_def m read_line_def snprintf_def)
  moreover have "kvs_map ht' ''a'' = Some ''1'' \<and> kvs_map ht' ''b'' = Some ''2''"
    unfolding run(3) by (simp add: first_script_def m)
  ultimately show "\<exists>q' ht'. p1_job_loop junk ''jobs/x.job'' 1 (first_job ?text) = Some (Inr q') \<and>
      q_table q' = P1Table (forget ht') \<and> kvs_map ht' ''a'' = Some ''1'' \<and> kvs_map ht' ''b'' = Some ''2'' \<and>
      w_out (q_world q') 1 = ''[(c,KVSERROR)]'' @ [newline]"
    using run(1,2) by blast
  have "unread (q_file (first_job (''READ [a]'' @ [newline]))) = concat (map cmd_text [DoRead [''a'']])"
    by (simp add: un keys_text_def)
  from first_job_file_meaning [OF first_job_same junk_ok quiet_table_ready ok(2) this, of "''jobs/x.job''"]
  show "p1_job_loop junk ''jobs/x.job'' 1 (first_job (''READ [a]'' @ [newline])) = Some (Inl OutOfBounds)"
    by (simp add: m)
qed

end
