(* ===== verification/FirstDirectory.thy ===== *)
theory FirstDirectory
  imports Startup FirstJobs
begin

section \<open>The directory of jobs and the function main of the first project (proj\_p1/main.c)\<close>

text \<open>
  The loop of a thread over the entries of the directory, from the names to the closed files, and
  the function main around the threads. The threads share the directory stream: what one leaves is
  the rest of the entries. Here they run one after the other, which is what the program does when it
  has one thread, and the theorem about main is about that case; the interleavings of the commands of
  several threads are the subject of Concurrency. \<open>files\<close> is what the job files hold.
\<close>

subsection \<open>The loop over the directory\<close>

record p1_thread =
  u_job :: p1_job
  u_outputs :: "(string \<times> string) list"

text \<open>The path is cut at the size of its array; the server skips such a file instead.\<close>

definition p1_job_path :: "string \<Rightarrow> string \<Rightarrow> string" where
  "p1_job_path directory_path d_name = snprintf PATH_MAX (directory_path @ ''/'' @ d_name)"

definition p1_base_path :: "string \<Rightarrow> string" where
  "p1_base_path filePath = take (length filePath - 4) filePath"

definition p1_out_path :: "string \<Rightarrow> string" where
  "p1_out_path filePath = snprintf (PATH_MAX + 4) (p1_base_path filePath @ ''.out'')"

definition p1_close_files :: "world \<Rightarrow> int \<Rightarrow> int \<Rightarrow> world" where
  "p1_close_files w fd fdOut =
     (case sys_close w fd of
        (r, w1) \<Rightarrow> if r < 0 then w1 else snd (sys_close w1 fdOut))"

text \<open>The arrays are cleared for every file.\<close>

definition p1_start_file :: "string \<Rightarrow> p1_job \<Rightarrow> p1_job" where
  "p1_start_file bytes q =
     q\<lparr>q_file := \<lparr>f_text = bytes, f_pos = 0\<rparr>, q_keys := zero_array, q_vals := zero_array, q_fileBackups := 1\<rparr>"

definition p1_process_file ::
  "stack \<Rightarrow> (string \<Rightarrow> string) \<Rightarrow> string \<Rightarrow> p1_thread \<Rightarrow> (bool \<times> p1_thread) res option" where
  "p1_process_file stack files filePath u =
     (let q = u_job u in
      case sys_open (q_world q) filePath of
        (fd, w1) \<Rightarrow>
          if fd < 0 then Some (Inr (False, u\<lparr>u_job := q\<lparr>q_world := w1\<rparr>\<rparr>))
          else (case sys_open w1 (p1_out_path filePath) of
            (fdOut, w2) \<Rightarrow>
              if fdOut = - 1 then Some (Inr (False, u\<lparr>u_job := q\<lparr>q_world := w2\<rparr>\<rparr>))
              else (case p1_job_loop stack filePath fdOut (p1_start_file (files filePath) (q\<lparr>q_world := w2\<rparr>)) of
                None \<Rightarrow> None
              | Some r \<Rightarrow> Some (bindE r (\<lambda>q'.
                  Inr (True, u\<lparr>u_job := q'\<lparr>q_world := p1_close_files (q_world q') fd fdOut\<rparr>,
                    u_outputs := u_outputs u @
                      [(p1_out_path filePath, drop (length (w_out w2 fdOut)) (w_out (q_world q') fdOut))]\<rparr>))))))"

fun p1_process_thread ::
  "stack \<Rightarrow> (string \<Rightarrow> string) \<Rightarrow> string \<Rightarrow> string list \<Rightarrow> p1_thread \<Rightarrow>
    (string list \<times> p1_thread) res option" where
  "p1_process_thread stack files directory_path [] u = Some (Inr ([], u))"
| "p1_process_thread stack files directory_path (d_name # entries) u =
     (let len = length d_name in
      if len < 4 \<or> strcmp (drop (len - 4) d_name) ''.job'' \<noteq> 0
      then p1_process_thread stack files directory_path entries u
      else (case p1_process_file stack files (p1_job_path directory_path d_name) u of
             None \<Rightarrow> None
           | Some (Inl e) \<Rightarrow> Some (Inl e)
           | Some (Inr (go_on, u')) \<Rightarrow>
               if go_on then p1_process_thread stack files directory_path entries u' else Some (Inr (entries, u'))))"

text \<open>Related threads: the fields that every file starts anew are left out.\<close>

definition same_thread :: "p1_thread \<Rightarrow> job_thread \<Rightarrow> bool" where
  "same_thread u th \<longleftrightarrow>
     same_job (p1_start_file [] (u_job u)) ((t_job th)\<lparr>j_input := [], fileBackups := 1\<rparr>) \<and>
     u_outputs u = t_outputs th"

lemma same_thread_start:
  assumes "same_thread u th"
  shows "same_job (p1_start_file bytes ((u_job u)\<lparr>q_world := w\<rparr>))
    ((t_job th)\<lparr>j_world := w, j_input := bytes, fileBackups := 1\<rparr>)"
  using assms by (simp add: same_thread_def same_job_def p1_start_file_def unread_def)

lemma same_thread_end:
  assumes "same_job q st" and "outs = outs'"
  shows "same_thread (u\<lparr>u_job := q\<lparr>q_world := w\<rparr>, u_outputs := outs\<rparr>)
    (th\<lparr>t_job := st\<lparr>j_world := w\<rparr>, t_outputs := outs'\<rparr>)"
  using assms by (simp add: same_thread_def same_job_def p1_start_file_def unread_def zero_array_stored)

lemma p1_out_path_eq:
  assumes "length filePath < MAX_JOB_FILE_NAME_SIZE"
  shows "p1_out_path filePath = out_path filePath"
  using assms by (simp add: p1_out_path_def out_path_def p1_base_path_def base_path_def snprintf_def
      PATH_MAX_def MAX_JOB_FILE_NAME_SIZE_def)

text \<open>A READ of the file, or of the directory, asks for a key that is in the table when it runs.\<close>

definition file_finds :: "(string \<Rightarrow> string) \<Rightarrow> string \<Rightarrow> job_thread \<Rightarrow> bool" where
  "file_finds files filePath th \<longleftrightarrow>
     (case sys_open (j_world (t_job th)) filePath of (fd, w1) \<Rightarrow>
       (case sys_open w1 (out_path filePath) of (fdOut, w2) \<Rightarrow>
          0 \<le> fd \<and> fdOut \<noteq> - 1 \<and>
          finds filePath fdOut ((t_job th)\<lparr>j_world := w2, j_input := files filePath, fileBackups := 1\<rparr>)))"

fun directory_finds :: "(string \<Rightarrow> string) \<Rightarrow> string \<Rightarrow> string list \<Rightarrow> job_thread \<Rightarrow> bool" where
  "directory_finds files directory_path [] th \<longleftrightarrow> False"
| "directory_finds files directory_path (d_name # entries) th \<longleftrightarrow>
     (if \<not> is_job_name d_name then directory_finds files directory_path entries th
      else file_finds files (directory_path @ ''/'' @ d_name) th \<or>
        (case process_file files (directory_path @ ''/'' @ d_name) th of
           Some (Inr (True, th')) \<Rightarrow> directory_finds files directory_path entries th'
         | _ \<Rightarrow> False))"

lemma process_file_refines:
  assumes "same_thread u th" and "stack_ok stack" and "length filePath < MAX_JOB_FILE_NAME_SIZE"
  shows "file_finds files filePath th \<and> p1_process_file stack files filePath u = Some (Inl OutOfBounds) \<or>
    (case process_file files filePath th of
       None \<Rightarrow> p1_process_file stack files filePath u = None
     | Some (Inl e) \<Rightarrow> p1_process_file stack files filePath u = Some (Inl e)
     | Some (Inr (go_on, th')) \<Rightarrow>
         \<exists>u'. p1_process_file stack files filePath u = Some (Inr (go_on, u')) \<and> same_thread u' th')"
proof -
  have w: "q_world (u_job u) = j_world (t_job th)" "u_outputs u = t_outputs th"
    using assms(1) by (simp_all add: same_thread_def same_job_def p1_start_file_def)
  obtain fd w1 where o1: "sys_open (j_world (t_job th)) filePath = (fd, w1)" by fastforce
  obtain fdOut w2 where o2: "sys_open w1 (out_path filePath) = (fdOut, w2)" by fastforce
  have fail: "same_thread (u\<lparr>u_job := (u_job u)\<lparr>q_world := v\<rparr>\<rparr>) (th\<lparr>t_job := (t_job th)\<lparr>j_world := v\<rparr>\<rparr>)" for v
    using assms(1) by (simp add: same_thread_def same_job_def p1_start_file_def)
  note defs = p1_process_file_def process_file_def p1_out_path_eq [OF assms(3)]
  show ?thesis
  proof (cases "fd < 0 \<or> fdOut = - 1")
    case True
    then show ?thesis using o1 o2 w fail by (auto simp: defs Let_def)
  next
    case False
    note loop = job_loop_refines [OF same_thread_start [OF assms(1), of "files filePath" w2] assms(2), of filePath fdOut]
    show ?thesis
    proof (cases "job_loop filePath fdOut ((t_job th)\<lparr>j_world := w2, j_input := files filePath, fileBackups := 1\<rparr>)")
      case None
      then show ?thesis using loop o1 o2 w False by (auto simp: defs file_finds_def Let_def)
    next
      case (Some r)
      show ?thesis
      proof (cases r)
        case (Inl e)
        then show ?thesis using Some loop o1 o2 w False by (auto simp: defs file_finds_def Let_def)
      next
        case (Inr st')
        from loop [unfolded Some Inr] consider
          "finds filePath fdOut ((t_job th)\<lparr>j_world := w2, j_input := files filePath, fileBackups := 1\<rparr>)"
          "p1_job_loop stack filePath fdOut (p1_start_file (files filePath) ((u_job u)\<lparr>q_world := w2\<rparr>)) = Some (Inl OutOfBounds)"
        | q' where "p1_job_loop stack filePath fdOut (p1_start_file (files filePath) ((u_job u)\<lparr>q_world := w2\<rparr>)) = Some (Inr q')"
            "same_job q' st'"
          by auto
        then show ?thesis
        proof cases
          case 1
          then show ?thesis using o1 o2 w False by (simp add: defs file_finds_def Let_def)
        next
          case 2
          then have "q_world q' = j_world st'" by (simp add: same_job_def)
          with 2 show ?thesis
            using Some Inr o1 o2 w False
            by (simp add: defs Let_def p1_close_files_def close_files_def same_thread_end)
        qed
      qed
    qed
  qed
qed

text \<open>One entry of the directory on both sides.\<close>

lemma directory_entry:
  assumes "is_job_name d_name" and "length (directory_path @ ''/'' @ d_name) < MAX_JOB_FILE_NAME_SIZE"
  shows "p1_process_thread stack files directory_path (d_name # entries) u =
      (case p1_process_file stack files (directory_path @ ''/'' @ d_name) u of
         None \<Rightarrow> None | Some (Inl e) \<Rightarrow> Some (Inl e)
       | Some (Inr (go_on, u')) \<Rightarrow>
           if go_on then p1_process_thread stack files directory_path entries u' else Some (Inr (entries, u')))"
    and "process_thread files directory_path (d_name # entries) th =
      (case process_file files (directory_path @ ''/'' @ d_name) th of
         None \<Rightarrow> None | Some (Inl e) \<Rightarrow> Some (Inl e)
       | Some (Inr (go_on, th')) \<Rightarrow>
           if go_on then process_thread files directory_path entries th' else Some (Inr (entries, th')))"
proof -
  have "p1_job_path directory_path d_name = directory_path @ ''/'' @ d_name"
    "job_path directory_path d_name = Some (directory_path @ ''/'' @ d_name)"
    using assms(2) by (simp_all add: p1_job_path_def job_path_def snprintf_def PATH_MAX_def
        MAX_JOB_FILE_NAME_SIZE_def Let_def)
  with assms(1) show "p1_process_thread stack files directory_path (d_name # entries) u =
      (case p1_process_file stack files (directory_path @ ''/'' @ d_name) u of
         None \<Rightarrow> None | Some (Inl e) \<Rightarrow> Some (Inl e)
       | Some (Inr (go_on, u')) \<Rightarrow>
           if go_on then p1_process_thread stack files directory_path entries u' else Some (Inr (entries, u')))"
    and "process_thread files directory_path (d_name # entries) th =
      (case process_file files (directory_path @ ''/'' @ d_name) th of
         None \<Rightarrow> None | Some (Inl e) \<Rightarrow> Some (Inl e)
       | Some (Inr (go_on, th')) \<Rightarrow>
           if go_on then process_thread files directory_path entries th' else Some (Inr (entries, th')))"
    by (simp_all add: is_job_name_def Let_def)
qed

lemma other_entry:
  assumes "\<not> is_job_name d_name"
  shows "p1_process_thread stack files directory_path (d_name # entries) u =
      p1_process_thread stack files directory_path entries u"
    and "process_thread files directory_path (d_name # entries) th = process_thread files directory_path entries th"
  using assms by (auto simp: is_job_name_def Let_def)

text \<open>
  C11: On a directory whose job files have paths that fit the buffers of both programs, a thread
  of the first project, with its files read by offset and its arrays of 40 byte entries, does what
  the thread of the server does, whatever the files hold and whatever calls fail: the same fault,
  the same wait without end, or the same table, kernel, counters, output files and entries left.
  The only exception is the fault of a READ, and only where a READ that is reached asks for a key
  that has a node in the table.
\<close>

theorem first_project_threads:
  assumes "same_thread u th" and "stack_ok stack"
    and "\<forall>d_name \<in> set entries. length (directory_path @ ''/'' @ d_name) < MAX_JOB_FILE_NAME_SIZE"
  shows "directory_finds files directory_path entries th \<and>
      p1_process_thread stack files directory_path entries u = Some (Inl OutOfBounds) \<or>
    (case process_thread files directory_path entries th of
       None \<Rightarrow> p1_process_thread stack files directory_path entries u = None
     | Some (Inl e) \<Rightarrow> p1_process_thread stack files directory_path entries u = Some (Inl e)
     | Some (Inr (left, th')) \<Rightarrow>
         \<exists>u'. p1_process_thread stack files directory_path entries u = Some (Inr (left, u')) \<and> same_thread u' th')"
  using assms(1,3)
proof (induction entries arbitrary: u th)
  case Nil
  then show ?case by simp
next
  case (Cons d_name entries)
  have short: "length (directory_path @ ''/'' @ d_name) < MAX_JOB_FILE_NAME_SIZE"
    "\<forall>d_name \<in> set entries. length (directory_path @ ''/'' @ d_name) < MAX_JOB_FILE_NAME_SIZE"
    using Cons.prems(2) by simp_all
  show ?case
  proof (cases "is_job_name d_name")
    case False
    show ?thesis
      unfolding other_entry [OF False] using Cons.IH [OF Cons.prems(1) short(2)] False by simp
  next
    case True
    let ?p = "directory_path @ ''/'' @ d_name"
    note unfold = directory_entry [OF True short(1)]
    note one = process_file_refines [OF Cons.prems(1) assms(2) short(1), of files]
    consider "file_finds files ?p th" "p1_process_file stack files ?p u = Some (Inl OutOfBounds)"
      | "process_file files ?p th = None" "p1_process_file stack files ?p u = None"
      | e where "process_file files ?p th = Some (Inl e)" "p1_process_file stack files ?p u = Some (Inl e)"
      | go_on th1 u1 where "process_file files ?p th = Some (Inr (go_on, th1))"
          "p1_process_file stack files ?p u = Some (Inr (go_on, u1))" "same_thread u1 th1"
      using one by (auto split: option.splits sum.splits)
    then show ?thesis
    proof cases
      case 1
      then show ?thesis unfolding unfold by (simp add: True)
    next
      case 2
      show ?thesis unfolding unfold 2 by simp
    next
      case (3 e)
      show ?thesis unfolding unfold 3 by simp
    next
      case (4 go_on th1 u1)
      have eqs: "p1_process_thread stack files directory_path (d_name # entries) u =
          (if go_on then p1_process_thread stack files directory_path entries u1 else Some (Inr (entries, u1)))"
        "process_thread files directory_path (d_name # entries) th =
          (if go_on then process_thread files directory_path entries th1 else Some (Inr (entries, th1)))"
        unfolding unfold using 4 by simp_all
      have "directory_finds files directory_path entries th1 \<Longrightarrow> go_on \<Longrightarrow>
          directory_finds files directory_path (d_name # entries) th"
        using True 4(1) by simp
      then show ?thesis unfolding eqs using Cons.IH [OF 4(3) short(2)] 4(3) by (cases go_on) auto
    qed
  qed
qed

subsection \<open>What a directory of job files means\<close>

fun paths_reads_absent ::
  "(string \<Rightarrow> script_cmd list) \<Rightarrow> (string \<Rightarrow> string option) \<Rightarrow> string list \<Rightarrow> bool" where
  "paths_reads_absent scripts m [] \<longleftrightarrow> True"
| "paths_reads_absent scripts m (p # ps) \<longleftrightarrow>
     reads_absent m (scripts p) \<and> paths_reads_absent scripts (script_map m (scripts p)) ps"

definition paths_ready :: "(string \<Rightarrow> script_cmd list) \<Rightarrow> (string \<Rightarrow> string) \<Rightarrow> job_thread \<Rightarrow> string list \<Rightarrow> bool" where
  "paths_ready scripts files th ps \<longleftrightarrow>
     (\<forall>p \<in> set ps. opens th p \<and> opens th (out_path p) \<and>
        (\<forall>c \<in> set (scripts p). cmd_ok c) \<and> files p = concat (map cmd_text (scripts p)))"

lemma first_file_run:
  assumes "same_thread u th" and "stack_ok stack" and "length filePath < MAX_JOB_FILE_NAME_SIZE"
    and "thread_ready th ht" and "paths_ready scripts files th [filePath]"
  shows "reads_absent (kvs_map ht) (scripts filePath) \<Longrightarrow>
      \<exists>u' th' ht'. p1_process_file stack files filePath u = Some (Inr (True, u')) \<and> same_thread u' th' \<and>
        thread_ready th' ht' \<and> opens th' = opens th \<and> kvs_map ht' = script_map (kvs_map ht) (scripts filePath) \<and>
        u_outputs u' = u_outputs u @ [(out_path filePath, script_out (kvs_map ht) (scripts filePath))]"
    and "\<not> reads_absent (kvs_map ht) (scripts filePath) \<Longrightarrow>
      p1_process_file stack files filePath u = Some (Inl OutOfBounds)"
proof -
  let ?w = "j_world (t_job th)"
  have open_ok: "opens th filePath" "opens th (out_path filePath)"
    and cmds: "\<forall>c \<in> set (scripts filePath). cmd_ok c" "files filePath = concat (map cmd_text (scripts filePath))"
    using assms(5) by (simp_all add: paths_ready_def)
  obtain fd fdOut w1 where o: "sys_open ?w filePath = (fd, w1)" "0 \<le> fd"
    "sys_open w1 (out_path filePath) = (fdOut, ?w\<lparr>w_open := fdOut # fd # w_open ?w\<rparr>)" "0 \<le> fdOut"
    "job_ready ((t_job th)\<lparr>j_world := ?w\<lparr>w_open := fdOut # fd # w_open ?w\<rparr>,
      j_input := files filePath, fileBackups := 1\<rparr>) ht fdOut"
    by (rule open_files_ready [OF assms(4) open_ok])
  have u: "q_world (u_job u) = ?w" "u_outputs u = t_outputs th"
    using assms(1) by (simp_all add: same_thread_def same_job_def p1_start_file_def)
  let ?q = "p1_start_file (files filePath) ((u_job u)\<lparr>q_world := ?w\<lparr>w_open := fdOut # fd # w_open ?w\<rparr>\<rparr>)"
  have un: "unread (q_file ?q) = concat (map cmd_text (scripts filePath))"
    using cmds(2) by (simp add: p1_start_file_def unread_def)
  note meaning = first_job_file_run [OF same_thread_start [OF assms(1)] assms(2) o(5) cmds(1) un, of filePath]
  note unfold = p1_process_file_def p1_out_path_eq [OF assms(3)] u(1) o(1,3)
  show "p1_process_file stack files filePath u = Some (Inl OutOfBounds)"
    if "\<not> reads_absent (kvs_map ht) (scripts filePath)"
    using meaning that o(2,4) by (simp add: unfold Let_def)
  show "\<exists>u' th' ht'. p1_process_file stack files filePath u = Some (Inr (True, u')) \<and> same_thread u' th' \<and>
      thread_ready th' ht' \<and> opens th' = opens th \<and> kvs_map ht' = script_map (kvs_map ht) (scripts filePath) \<and>
      u_outputs u' = u_outputs u @ [(out_path filePath, script_out (kvs_map ht) (scripts filePath))]"
    if abs: "reads_absent (kvs_map ht) (scripts filePath)"
  proof -
    obtain q' where "p1_job_loop stack filePath fdOut ?q = Some (Inr q')" using meaning abs by auto
    then have no_fault: "p1_process_file stack files filePath u \<noteq> Some (Inl OutOfBounds)"
      using o(2,4) by (simp add: unfold Let_def)
    obtain th' ht' where th': "process_file files filePath th = Some (Inr (True, th'))" "thread_ready th' ht'"
      "opens th' = opens th" "kvs_map ht' = script_map (kvs_map ht) (scripts filePath)"
      "t_outputs th' = t_outputs th @ [(out_path filePath, script_out (kvs_map ht) (scripts filePath))]"
      using process_file_run [of th ht filePath scripts files] assms(4) open_ok cmds by blast
    obtain u' where "p1_process_file stack files filePath u = Some (Inr (True, u'))" "same_thread u' th'"
      using process_file_refines [OF assms(1-3), of files] no_fault th'(1) by auto
    then show ?thesis using th'(2-5) u(2) by (intro exI [of _ u'] exI [of _ th'] exI [of _ ht']) (simp add: same_thread_def)
  qed
qed

lemma file_finds_script:
  assumes "thread_ready th ht" and "paths_ready scripts files th [filePath]"
  shows "file_finds files filePath th \<longleftrightarrow> \<not> reads_absent (kvs_map ht) (scripts filePath)"
proof -
  let ?w = "j_world (t_job th)"
  have open_ok: "opens th filePath" "opens th (out_path filePath)"
    and cmds: "\<forall>c \<in> set (scripts filePath). cmd_ok c" "files filePath = concat (map cmd_text (scripts filePath))"
    using assms(2) by (simp_all add: paths_ready_def)
  obtain fd fdOut w1 where o: "sys_open ?w filePath = (fd, w1)" "0 \<le> fd"
    "sys_open w1 (out_path filePath) = (fdOut, ?w\<lparr>w_open := fdOut # fd # w_open ?w\<rparr>)" "0 \<le> fdOut"
    "job_ready ((t_job th)\<lparr>j_world := ?w\<lparr>w_open := fdOut # fd # w_open ?w\<rparr>,
      j_input := files filePath, fileBackups := 1\<rparr>) ht fdOut"
    by (rule open_files_ready [OF assms(1) open_ok])
  show ?thesis
    using finds_script [OF o(5) cmds(1), of filePath] cmds(2) o(1-4) by (simp add: file_finds_def)
qed

lemma first_directory_run:
  assumes "same_thread u th" and "stack_ok stack" and "thread_ready th ht"
    and "\<forall>d_name \<in> set entries. length (directory_path @ ''/'' @ d_name) < MAX_JOB_FILE_NAME_SIZE"
    and "paths_ready scripts files th (job_paths directory_path entries)"
  shows "if paths_reads_absent scripts (kvs_map ht) (job_paths directory_path entries)
    then \<exists>u' th' ht'. p1_process_thread stack files directory_path entries u = Some (Inr ([], u')) \<and>
      same_thread u' th' \<and> thread_ready th' ht' \<and>
      kvs_map ht' = paths_map scripts (kvs_map ht) (job_paths directory_path entries) \<and>
      u_outputs u' = u_outputs u @ paths_out scripts (kvs_map ht) (job_paths directory_path entries)
    else p1_process_thread stack files directory_path entries u = Some (Inl OutOfBounds)"
  using assms(1,3-5)
proof (induction entries arbitrary: u th ht)
  case Nil
  then show ?case by auto
next
  case (Cons d_name entries)
  let ?p = "directory_path @ ''/'' @ d_name"
  have short: "length ?p < MAX_JOB_FILE_NAME_SIZE"
    "\<forall>d_name \<in> set entries. length (directory_path @ ''/'' @ d_name) < MAX_JOB_FILE_NAME_SIZE"
    using Cons.prems(3) by simp_all
  have paths: "p1_job_path directory_path d_name = ?p" "job_path directory_path d_name = Some ?p"
    using short(1) by (simp_all add: p1_job_path_def job_path_def snprintf_def PATH_MAX_def
        MAX_JOB_FILE_NAME_SIZE_def Let_def)
  show ?case
  proof (cases "is_job_name d_name")
    case False
    then have skip: "p1_process_thread stack files directory_path (d_name # entries) u =
        p1_process_thread stack files directory_path entries u"
      "job_paths directory_path (d_name # entries) = job_paths directory_path entries"
      by (auto simp: is_job_name_def Let_def)
    show ?thesis unfolding skip
      by (rule Cons.IH [OF Cons.prems(1,2) short(2)]) (use Cons.prems(4) skip(2) in simp)
  next
    case True
    have split: "job_paths directory_path (d_name # entries) = ?p # job_paths directory_path entries"
      using True paths(2) by simp
    have ready: "paths_ready scripts files th [?p]" "paths_ready scripts files th (job_paths directory_path entries)"
      using Cons.prems(4) unfolding split by (simp_all add: paths_ready_def)
    have unfold: "p1_process_thread stack files directory_path (d_name # entries) u =
        (case p1_process_file stack files ?p u of None \<Rightarrow> None | Some (Inl e) \<Rightarrow> Some (Inl e)
         | Some (Inr (go_on, u')) \<Rightarrow>
             if go_on then p1_process_thread stack files directory_path entries u' else Some (Inr (entries, u')))"
      using True paths by (simp add: is_job_name_def Let_def)
    note one = first_file_run [OF Cons.prems(1) assms(2) short(1) Cons.prems(2) ready(1)]
    show ?thesis
    proof (cases "reads_absent (kvs_map ht) (scripts ?p)")
      case False
      then show ?thesis unfolding split unfold using one(2) by simp
    next
      case True
      obtain u1 th1 ht1 where f: "p1_process_file stack files ?p u = Some (Inr (True, u1))" "same_thread u1 th1"
        "thread_ready th1 ht1" "opens th1 = opens th" "kvs_map ht1 = script_map (kvs_map ht) (scripts ?p)"
        "u_outputs u1 = u_outputs u @ [(out_path ?p, script_out (kvs_map ht) (scripts ?p))]"
        using one(1) [OF True] by blast
      have eq: "p1_process_thread stack files directory_path (d_name # entries) u =
          p1_process_thread stack files directory_path entries u1"
        unfolding unfold using f(1) by simp
      have "paths_ready scripts files th1 (job_paths directory_path entries)"
        using ready(2) f(4) by (simp add: paths_ready_def)
      from Cons.IH [OF f(2,3) short(2) this] show ?thesis
        unfolding eq split using True by (simp add: f(5,6) cong: if_cong)
    qed
  qed
qed

subsection \<open>The function main\<close>

text \<open>
  The threads one after the other; each goes on where the one before left the directory. The code
  creates all threads before it joins the first: with one thread this is the only schedule, with more
  it is one of them.
\<close>

fun p1_run_threads ::
  "nat \<Rightarrow> stack \<Rightarrow> (string \<Rightarrow> string) \<Rightarrow> string \<Rightarrow> string list \<Rightarrow> p1_thread \<Rightarrow> p1_thread res option" where
  "p1_run_threads 0 stack files directory_path entries u = Some (Inr u)"
| "p1_run_threads (Suc n) stack files directory_path entries u =
     (case p1_process_thread stack files directory_path entries u of
        None \<Rightarrow> None
      | Some (Inl e) \<Rightarrow> Some (Inl e)
      | Some (Inr (left, u')) \<Rightarrow> p1_run_threads n stack files directory_path left u')"

definition p1_start :: "world \<Rightarrow> bool list \<Rightarrow> p1_thread" where
  "p1_start w forks =
     \<lparr>u_job = \<lparr>q_table = P1Null, q_world = w, q_file = \<lparr>f_text = [], f_pos = 0\<rparr>, q_keys = zero_array,
        q_vals = zero_array, q_counter = 0, q_children = 0, q_fileBackups = 1, q_forks = forks, q_backups = []\<rparr>,
      u_outputs = []\<rparr>"

text \<open>
  The last part: all children are waited for, then the resources are released in a chain that stops
  at the first failure.
\<close>

definition p1_main_end :: "p1_thread \<Rightarrow> p1_thread res" where
  "p1_main_end u =
     (let q = (u_job u)\<lparr>q_children := 0\<rparr> in
      case lock_outcome (q_world q) of
        (failed, w1) \<Rightarrow>
          if failed then Inr (u\<lparr>u_job := q\<lparr>q_world := w1\<rparr>\<rparr>)
          else bindE (p1_kvs_terminate (q_table q) w1) (\<lambda>(_, t, w2).
            Inr (u\<lparr>u_job := q\<lparr>q_table := t, q_world := w2\<rparr>\<rparr>)))"

text \<open>
  \<open>dirs\<close> gives the entries of a directory that can be opened. The result is the exit code and the
  state that is left, with the output files.
\<close>

definition p1_main ::
  "stack \<Rightarrow> (string \<Rightarrow> string) \<Rightarrow> (string \<Rightarrow> string list option) \<Rightarrow> bool list \<Rightarrow> string list \<Rightarrow> world \<Rightarrow>
    (int \<times> p1_thread) res option" where
  "p1_main stack files dirs forks argv w =
     (let u = p1_start w forks; q = u_job u in
      if length argv \<noteq> 4 then Some (Inr (1, u))
      else (let directory_path = argv ! 1;
                backupCounter = word_of_nat (strtoul (argv ! 2)) :: 32 word;
                max_threads = word_of_nat (strtoul (argv ! 3)) :: 32 word in
        case dirs directory_path of
          None \<Rightarrow> Some (Inr (1, u))
        | Some entries \<Rightarrow>
            (case p1_kvs_init (q_table q) w of
               (r, t, w1) \<Rightarrow>
                 if r \<noteq> 0 then Some (Inr (1, u\<lparr>u_job := q\<lparr>q_table := t, q_world := w1\<rparr>\<rparr>))
                 else (case p1_run_threads (unat max_threads) stack files directory_path entries
                     (u\<lparr>u_job := q\<lparr>q_table := t, q_world := snd (lock_outcome w1), q_counter := backupCounter\<rparr>\<rparr>) of
                   None \<Rightarrow> None
                 | Some r \<Rightarrow> Some (bindE r (\<lambda>u'. bindE (p1_main_end u') (\<lambda>u''. Inr (0, u''))))))))"

lemma p1_run_threads_done: "p1_run_threads n stack files directory_path [] u = Some (Inr u)"
  by (induction n) simp_all

lemma empty_table_lonely: "lonely empty_table"
  by (simp add: lonely_def empty_table_def)

lemma p1_kvs_init_calm: "calm w \<Longrightarrow> p1_kvs_init P1Null w = (0, P1Table (forget empty_table), w)"
proof -
  assume c: "calm w"
  show ?thesis
    using c init_locks_calm by (simp add: p1_kvs_init_def p1_create_hash_table_def calm_def forget_def empty_table_def)
qed

lemma first_thread_same:
  assumes "calm w" and "\<forall>fd. w_wsched w fd = []"
  shows "same_thread ((p1_start w forks)\<lparr>u_job := (u_job (p1_start w forks))\<lparr>q_table := P1Table (forget empty_table),
      q_world := w, q_counter := counter\<rparr>\<rparr>) (first_thread w counter forks)"
  using assms empty_table_lonely
  by (simp add: first_thread_def same_thread_def same_job_def p1_start_def p1_start_file_def
      lonely_ptr_def zero_array_stored unread_def)

lemma p1_main_end_calm:
  assumes "same_thread u th" and "thread_ready th ht"
  shows "\<exists>u'. p1_main_end u = Inr u' \<and> q_table (u_job u') = P1Freed \<and> q_children (u_job u') = 0 \<and>
    u_outputs u' = u_outputs u"
proof -
  have "q_table (u_job u) = P1Table (forget ht)" "w_lockres (q_world (u_job u)) = []"
    using assms by (simp_all add: same_thread_def same_job_def p1_start_file_def thread_ready_def calm_def)
  then show ?thesis by (simp add: p1_main_end_def lock_outcome_def p1_kvs_terminate_def)
qed

text \<open>
  C10: The whole first project, run with one thread on a directory whose job files hold printed
  lists of commands: if no READ asks for a key that has a value, the program exits with 0, its
  table is released, no child is left, and the output files hold what the lists print when they
  are run one after the other from the empty table; otherwise the program ends in the fault of
  that READ. (With several threads the order of the commands is open.)
\<close>

theorem first_project_program:
  assumes "stack_ok stack" and "dirs directory_path = Some entries"
    and "word_of_nat (strtoul threads) = (1 :: 32 word)"
    and "calm w" and "\<forall>fd. w_wsched w fd = []"
    and "\<forall>d_name \<in> set entries. length (directory_path @ ''/'' @ d_name) < MAX_JOB_FILE_NAME_SIZE"
    and "\<forall>p \<in> set (job_paths directory_path entries). w_canopen w p \<and> w_canopen w (out_path p) \<and>
      (\<forall>c \<in> set (scripts p). cmd_ok c) \<and> files p = concat (map cmd_text (scripts p))"
  shows "if paths_reads_absent scripts Map.empty (job_paths directory_path entries)
    then \<exists>u. p1_main stack files dirs forks [prog, directory_path, backups, threads] w = Some (Inr (0, u)) \<and>
      u_outputs u = paths_out scripts Map.empty (job_paths directory_path entries) \<and>
      q_table (u_job u) = P1Freed \<and> q_children (u_job u) = 0
    else p1_main stack files dirs forks [prog, directory_path, backups, threads] w = Some (Inl OutOfBounds)"
proof -
  let ?n = "unat (word_of_nat (strtoul threads) :: 32 word)"
  let ?b = "word_of_nat (strtoul backups) :: 32 word"
  let ?u = "(p1_start w forks)\<lparr>u_job := (u_job (p1_start w forks))\<lparr>q_table := P1Table (forget empty_table),
      q_world := w, q_counter := ?b\<rparr>\<rparr>"
  let ?th = "first_thread w ?b forks"
  have n: "?n = Suc 0" using assms(3) by simp
  have w: "snd (lock_outcome w) = w" using assms(4) by (simp add: lock_outcome_def calm_def)
  have ready: "paths_ready scripts files ?th (job_paths directory_path entries)"
    using assms(7) by (simp add: paths_ready_def opens_def first_thread_def)
  note dir = first_directory_run [OF first_thread_same [OF assms(4,5)] assms(1) first_thread_ready [OF assms(4,5)]
      assms(6) ready, unfolded empty_table_facts(3)]
  have run: "p1_main stack files dirs forks [prog, directory_path, backups, threads] w =
      (case p1_run_threads (Suc 0) stack files directory_path entries ?u of None \<Rightarrow> None
       | Some r \<Rightarrow> Some (bindE r (\<lambda>u'. bindE (p1_main_end u') (\<lambda>u''. Inr (0, u'')))))"
    unfolding n [symmetric]
    using assms(2) p1_kvs_init_calm [OF assms(4)] w
    by (simp add: p1_main_def p1_start_def Let_def)
  show ?thesis
  proof (cases "paths_reads_absent scripts Map.empty (job_paths directory_path entries)")
    case True
    then obtain u' th' ht' where u': "p1_process_thread stack files directory_path entries ?u = Some (Inr ([], u'))"
      "same_thread u' th'" "thread_ready th' ht'"
      "u_outputs u' = u_outputs ?u @ paths_out scripts Map.empty (job_paths directory_path entries)"
      using dir by auto
    moreover have "u_outputs ?u = []" by (simp add: p1_start_def)
    ultimately show ?thesis
      using True p1_main_end_calm [OF u'(2,3)] unfolding run by (auto simp: p1_run_threads_done)
  next
    case False
    then have "p1_process_thread stack files directory_path entries ?u = Some (Inl OutOfBounds)" using dir by simp
    then show ?thesis using False unfolding run by simp
  qed
qed

subsection \<open>Instances\<close>

definition first_texts :: "string \<Rightarrow> script_cmd list" where
  "first_texts path = (if path = ''d/x.job'' then [DoWrite [(''b'', ''2'')]] else [DoRead [''c'']])"

definition first_files :: "string \<Rightarrow> string" where
  "first_files path = concat (map cmd_text (first_texts path))"

lemma first_paths: "job_paths ''d'' [''x.job'', ''notes'', ''y.job''] = [''d/x.job'', ''d/y.job'']"
  by (simp add: is_job_name_def job_path_def snprintf_def MAX_JOB_FILE_NAME_SIZE_def Let_def)

lemma first_texts_ok: "\<forall>c \<in> set (first_texts p). cmd_ok c"
  by (simp add: first_texts_def MAX_WRITE_SIZE_def plain_def fits_def separators_def valid_key_ConsI)

lemma quiet_facts: "calm quiet_world" "\<forall>fd. w_wsched quiet_world fd = []" "w_canopen quiet_world p"
  by (simp_all add: calm_def quiet_world_def)

theorem first_project_program_witness:
  "\<exists>u. p1_main junk first_files (\<lambda>_. Some [''x.job'', ''notes'', ''y.job'']) [] [''kvs'', ''d'', ''2'', ''+1''] quiet_world =
      Some (Inr (0, u)) \<and>
    u_outputs u = [(''d/x.out'', []), (''d/y.out'', ''[(c,KVSERROR)]'' @ [newline])]"
proof -
  have one: "strtoul ''+1'' = 1"
    by (simp add: strtoul_def is_blank_def is_digit_def decimal_def digit_value_def)
  have short: "\<forall>d_name \<in> set [''x.job'', ''notes'', ''y.job'']. length (''d'' @ ''/'' @ d_name) < MAX_JOB_FILE_NAME_SIZE"
    by (simp add: MAX_JOB_FILE_NAME_SIZE_def)
  have files: "\<forall>p \<in> set (job_paths ''d'' [''x.job'', ''notes'', ''y.job'']). w_canopen quiet_world p \<and>
      w_canopen quiet_world (out_path p) \<and> (\<forall>c \<in> set (first_texts p). cmd_ok c) \<and>
      first_files p = concat (map cmd_text (first_texts p))"
    using first_texts_ok quiet_facts(3) by (simp add: first_files_def)
  have absent: "paths_reads_absent first_texts Map.empty [''d/x.job'', ''d/y.job'']"
    by (simp add: first_texts_def)
  have out: "paths_out first_texts Map.empty [''d/x.job'', ''d/y.job''] =
      [(''d/x.out'', []), (''d/y.out'', ''[(c,KVSERROR)]'' @ [newline])]"
    by (simp add: first_texts_def out_path_def base_path_def snprintf_def MAX_JOB_FILE_NAME_SIZE_def read_line_def)
  from first_project_program [OF junk_ok _ _ quiet_facts(1,2) short files, of "\<lambda>_. Some [''x.job'', ''notes'', ''y.job'']"
      "''+1''" "[]" "''kvs''" "''2''"]
  show ?thesis unfolding first_paths out using one absent by auto
qed

definition first_state :: p1_thread where
  "first_state = (p1_start quiet_world [])\<lparr>u_job := (u_job (p1_start quiet_world []))
     \<lparr>q_table := P1Table (forget empty_table), q_world := quiet_world, q_counter := 1\<rparr>\<rparr>"

theorem first_project_threads_witness:
  "\<exists>u' th'. process_thread first_files ''d'' [''x.job'', ''notes''] (first_thread quiet_world 1 []) = Some (Inr ([], th')) \<and>
     p1_process_thread junk first_files ''d'' [''x.job'', ''notes''] first_state = Some (Inr ([], u')) \<and>
     same_thread u' th'"
proof -
  let ?th = "first_thread quiet_world 1 []" and ?entries = "[''x.job'', ''notes'']"
  have same: "same_thread first_state ?th"
    unfolding first_state_def by (rule first_thread_same [OF quiet_facts(1,2)])
  have short: "\<forall>d_name \<in> set ?entries. length (''d'' @ ''/'' @ d_name) < MAX_JOB_FILE_NAME_SIZE"
    by (simp add: MAX_JOB_FILE_NAME_SIZE_def)
  have th: "thread_ready ?th empty_table" by (rule first_thread_ready [OF quiet_facts(1,2)])
  have ready: "paths_ready first_texts first_files ?th [''d/x.job'']"
    using first_texts_ok quiet_facts(3) by (simp add: paths_ready_def opens_def first_thread_def first_files_def)
  then have "\<not> file_finds first_files ''d/x.job'' ?th"
    by (simp add: file_finds_script [OF th] first_texts_def)
  moreover obtain th' where one: "process_file first_files ''d/x.job'' ?th = Some (Inr (True, th'))"
    using process_file_run [OF th, of "''d/x.job''" first_texts first_files] ready by (auto simp: paths_ready_def)
  ultimately have misses: "\<not> directory_finds first_files ''d'' ?entries ?th"
    by (simp add: is_job_name_def)
  have run: "process_thread first_files ''d'' ?entries ?th = Some (Inr ([], th'))"
    using one by (simp add: is_job_name_def job_path_def snprintf_def MAX_JOB_FILE_NAME_SIZE_def Let_def)
  show ?thesis
    using first_project_threads [OF same junk_ok short, of first_files] misses run by auto
qed

end
