(* ===== verification/NumberText.thy ===== *)
theory NumberText
  imports JobDirectory
begin

section \<open>Printing a number (server/io.c, write\_uint)\<close>

text \<open>
  The function fills a buffer of 16 cells from its end and writes the filled part. The loop around
  \<open>write\<close> adds its result, -1 included, to the index.
\<close>

function uint_digits :: "int \<Rightarrow> nat \<Rightarrow> char option list \<Rightarrow> (nat \<times> char option list) res" where
  "uint_digits v i buffer =
     (if v > 0 then
        (if i = 0 then Inl OutOfBounds
         else uint_digits (v div 10) (i - 1) (buffer[i - 1 := Some (char_of (48 + nat (v mod 10)))]))
      else Inr (i, buffer))"
  by pat_completeness auto
termination by (relation "measure (\<lambda>(v, i, buffer). nat v)") auto

declare uint_digits.simps [simp del]

lemma those_length: "those xs = Some ys \<Longrightarrow> length ys = length xs"
  by (induction xs arbitrary: ys) (auto split: option.splits)

lemma index_below: "(i :: 64 word) < 16 \<Longrightarrow> unat i < 16"
  by (simp add: word_less_nat_alt)

lemma index_down: "(i :: 64 word) < 16 \<Longrightarrow> i - 1 < 16 \<Longrightarrow> unat (i - 1) < unat i"
proof -
  assume "i < 16" "i - 1 < 16"
  then have "i \<noteq> 0" by auto
  then show "unat (i - 1) < unat i" by (simp add: unat_minus_one unat_gt_0)
qed

text \<open>A cell that was never filled must not reach \<open>write\<close>: that is a fault of the model.\<close>

function uint_write_from :: "world \<Rightarrow> int \<Rightarrow> char option list \<Rightarrow> 64 word \<Rightarrow> world res" where
  "uint_write_from w fd buffer i =
     (if i < 16 then
        (if length buffer < 16 then Inl OutOfBounds
         else case those (take (16 - unat i) (drop (unat i) buffer)) of
           None \<Rightarrow> Inl Uninitialised
         | Some bs \<Rightarrow>
             (case sys_write w fd bs of
                (Error e, w') \<Rightarrow> uint_write_from w' fd buffer (i - 1)
              | (Count written, w') \<Rightarrow> uint_write_from w' fd buffer (i + word_of_nat written)))
      else Inr w)"
  by pat_completeness auto
termination
proof (relation "inv_image (less_than <*lex*> less_than)
    (\<lambda>(w, fd, buffer, i :: 64 word). (length (w_wsched w fd), if i < 16 then unat i + 1 else 0))", goal_cases)
  case 1
  show ?case by auto
next
  case (2 w fd buffer i bs a w' e)
  then have "sys_write w fd bs = (Error e, w')" by simp
  then show ?case using index_down [of i] \<open>i < 16\<close>
    by (auto simp: sys_write_def Let_def split: if_splits list.splits irregular.splits)
next
  case (3 w fd buffer i bs a w' n)
  then have run: "sys_write w fd bs = (Count n, w')" by simp
  have i: "unat i < 16" "length bs = 16 - unat i"
    using 3 index_below [of i] those_length [of "take (16 - unat i) (drop (unat i) buffer)" bs] by auto
  have full: "i + word_of_nat (length bs) = 16" using i by (simp add: of_nat_diff)
  show ?case using run \<open>i < 16\<close> unfolding sys_write_def
    by (auto simp: full Let_def split: if_splits list.splits irregular.splits)
qed

declare uint_write_from.simps [simp del]

definition write_uint :: "world \<Rightarrow> int \<Rightarrow> 32 word \<Rightarrow> world res" where
  "write_uint w fd v =
     bindE (uint_digits (sint v) 16 (replicate 16 None)) (\<lambda>(i, buffer).
       if i = 16 then uint_write_from w fd (buffer[i - 1 := Some (CHR ''0'')]) (word_of_nat (i - 1))
       else uint_write_from w fd buffer (word_of_nat i))"

text \<open>The text of a number.\<close>

definition uint_text :: "32 word \<Rightarrow> string" where
  "uint_text v = (if sint v > 0 then decimal_text (nat (sint v)) else ''0'')"

lemma uint_digits_text:
  assumes "0 < v" and "length (decimal_text (nat v)) \<le> i" and "i \<le> length buffer"
  shows "uint_digits v i buffer =
    Inr (i - length (decimal_text (nat v)),
      take (i - length (decimal_text (nat v))) buffer @ map Some (decimal_text (nat v)) @ drop i buffer)"
  using assms
proof (induction v i buffer rule: uint_digits.induct)
  case (1 v i buffer)
  have pos: "0 < i" using 1(3) by (auto simp: decimal_text.simps [of "nat v"] split: if_splits)
  let ?buffer = "buffer[i - 1 := Some (char_of (48 + nat (v mod 10)))]"
  have upd: "?buffer = take (i - 1) buffer @ Some (char_of (48 + nat (v mod 10))) # drop i buffer"
    using pos 1(4) by (simp add: upd_conv_take_nth_drop)
  have step: "uint_digits v i buffer = uint_digits (v div 10) (i - 1) ?buffer"
    using 1(2) pos by (simp add: uint_digits.simps [of v])
  show ?case
  proof (cases "nat v < 10")
    case True
    then have "v mod 10 = v" "v div 10 = 0" using 1(2) by auto
    then show ?thesis using step upd True by (simp add: uint_digits.simps [of 0] decimal_text.simps)
  next
    case False
    have more: "0 < v div 10" "nat (v div 10) = nat v div 10" "nat (v mod 10) = nat v mod 10"
      using False 1(2) by (auto simp: nat_div_distrib nat_mod_distrib)
    have txt_v: "decimal_text (nat v) = decimal_text (nat v div 10) @ [char_of (48 + nat v mod 10)]"
      using False by (simp add: decimal_text.simps [of "nat v"])
    have "uint_digits (v div 10) (i - 1) ?buffer =
      Inr (i - 1 - length (decimal_text (nat v div 10)),
        take (i - 1 - length (decimal_text (nat v div 10))) ?buffer @ map Some (decimal_text (nat v div 10)) @
          drop (i - 1) ?buffer)"
      using 1(1) [OF 1(2) _ more(1)] pos 1(3,4) more(2) txt_v by simp
    then show ?thesis using step upd txt_v more(3) 1(4) by (simp add: min_def)
  qed
qed

text \<open>
  When writes may be short but do not fail, the text of the number is printed. When the first write
  fails, the loop steps back to a cell that was never filled.
\<close>

lemma those_drop: "those xs = Some ys \<Longrightarrow> those (drop n xs) = Some (drop n ys)"
proof (induction xs arbitrary: n ys)
  case (Cons x xs)
  then show ?case by (cases n) (auto split: option.splits)
qed simp

lemma those_map_Some: "those (map Some xs) = Some xs"
  by (induction xs) simp_all

lemma uint_write_text:
  assumes "length buffer = 16" and "unat i \<le> 16" and "those (drop (unat i) buffer) = Some bs"
    and "fd \<in> set (w_open w)" and "\<forall>r \<in> set (w_wsched w fd). \<exists>n. r = Short n"
  shows "\<exists>w'. uint_write_from w fd buffer i = Inr w' \<and> w_out w' = (w_out w)(fd := w_out w fd @ bs)"
  using assms
proof (induction w fd buffer i arbitrary: bs rule: uint_write_from.induct)
  case (1 w fd buffer i)
  show ?case
  proof (cases "i < 16")
    case True
    have whole: "take (16 - unat i) (drop (unat i) buffer) = drop (unat i) buffer"
      using 1(3) by (intro take_all) simp
    obtain n w1 where run: "sys_write w fd bs = (Count n, w1)" "w_open w1 = w_open w"
      "\<forall>r \<in> set (w_wsched w1 fd). \<exists>n. r = Short n"
    proof (cases "w_wsched w fd")
      case Nil
      then show thesis using that 1(6) by (simp add: sys_write_def)
    next
      case (Cons r rs)
      then show thesis using that 1(6,7) by (auto simp: sys_write_def Let_def)
    qed
    have n: "n \<le> length bs" "w_out w1 = (w_out w)(fd := w_out w fd @ take n bs)"
      using sys_write_Count [OF run(1)] by auto
    have "length bs = 16 - unat i" using those_length [OF 1(5)] 1(3) by simp
    then have next_i: "unat (i + word_of_nat n) = unat i + n"
      using n(1) 1(4) by (simp add: unat_word_ariths unat_of_nat)
    have "\<exists>w'. uint_write_from w1 fd buffer (i + word_of_nat n) = Inr w' \<and>
        w_out w' = (w_out w1)(fd := w_out w1 fd @ drop n bs)"
      using 1(2) [OF True _ _ run(1) [symmetric] refl, of "drop n bs"] whole 1(3-6) run(2,3) next_i n(1)
        \<open>length bs = 16 - unat i\<close> those_drop [OF 1(5), of n] by (simp add: add.commute fun_upd_def)
    then show ?thesis
      using True whole 1(3,5) run(1) n(2) by (auto simp: uint_write_from.simps [of w] fun_upd_def cong: if_cong)
  next
    case False
    then have "unat i = 16" using 1(4) by (simp add: word_less_nat_alt)
    then show ?thesis using False 1(3,5) by (simp add: uint_write_from.simps [of w])
  qed
qed

text \<open>The state of the buffer after the digits, for every value.\<close>

lemma uint_text_length: "0 < length (uint_text v)" "length (uint_text v) \<le> 10"
proof -
  have "nat (sint v) < 10 ^ Suc 9" using sint_lt [of v] by simp
  then have "length (decimal_text (nat (sint v))) \<le> Suc 9" by (rule length_decimal_text)
  then show "length (uint_text v) \<le> 10" by (simp add: uint_text_def)
  show "0 < length (uint_text v)" by (simp add: uint_text_def decimal_text.simps [of "nat (sint v)"])
qed

lemma write_uint_eq:
  "write_uint w fd v =
     uint_write_from w fd (replicate (16 - length (uint_text v)) None @ map Some (uint_text v))
       (word_of_nat (16 - length (uint_text v)))"
proof (cases "sint v > 0")
  case True
  then have "length (decimal_text (nat (sint v))) \<le> 16" "0 < length (decimal_text (nat (sint v)))"
    using uint_text_length [of v] by (simp_all add: uint_text_def)
  moreover from this have "16 - length (decimal_text (nat (sint v))) \<noteq> 16" by arith
  ultimately show ?thesis using True by (simp add: write_uint_def uint_text_def uint_digits_text)
next
  case False
  have "(replicate 16 None)[15 := Some (CHR ''0'')] = replicate 15 None @ [Some (CHR ''0'')]"
    by (simp add: numeral_eq_Suc)
  then show ?thesis using False by (simp add: write_uint_def uint_text_def uint_digits.simps)
qed

lemma text_start: "unat (word_of_nat (16 - length (uint_text v)) :: 64 word) = 16 - length (uint_text v)"
  by (simp add: unat_of_nat)

text \<open>
  \<open>write_uint\<close> prints the number, 0 for a negative one, however the writes are cut; when its first
  write fails it goes on with a cell that was never filled.
\<close>

lemma write_uint_text:
  assumes "fd \<in> set (w_open w)" and "\<forall>r \<in> set (w_wsched w fd). \<exists>n. r = Short n"
  shows "\<exists>w'. write_uint w fd v = Inr w' \<and> w_out w' = (w_out w)(fd := w_out w fd @ uint_text v)"
proof -
  have "those (drop (16 - length (uint_text v))
      (replicate (16 - length (uint_text v)) None @ map Some (uint_text v))) = Some (uint_text v)"
    by (simp add: those_map_Some)
  from uint_write_text [OF _ _ _ assms, of _ "word_of_nat (16 - length (uint_text v))", unfolded text_start, OF _ _ this]
  show ?thesis using uint_text_length [of v] by (simp add: write_uint_eq)
qed

lemma write_uint_failed:
  assumes "fd \<in> set (w_open w)" and "w_wsched w fd = r # rs" and "r = Fails \<or> r = Interrupted"
  shows "write_uint w fd v = Inl Uninitialised"
proof -
  let ?n = "length (uint_text v)" and ?b = "replicate (16 - length (uint_text v)) None @ map Some (uint_text v)"
  obtain i :: "64 word" where i: "word_of_nat (16 - ?n) = i" by simp
  have n: "0 < ?n" "?n \<le> 10" using uint_text_length by auto
  have u: "unat i = 16 - ?n" using text_start [of v] i by simp
  then have "i \<noteq> 0" using n by auto
  then have "unat (i - 1) = 15 - ?n" using u by (simp add: unat_minus_one)
  then have down: "unat (i - 1) = 15 - ?n" "i < 16" "i - 1 < 16"
    using u n by (simp_all add: word_less_nat_alt)
  have cells: "drop (15 - ?n) ?b = None # map Some (uint_text v)"
  proof -
    have "16 - ?n = Suc (15 - ?n)" using n by simp
    then show ?thesis by (simp add: replicate_append_same [symmetric])
  qed
  have "\<exists>e w1. sys_write w fd (uint_text v) = (Error e, w1)"
    using assms by (auto simp: sys_write_def Let_def)
  then obtain e w1 where "sys_write w fd (uint_text v) = (Error e, w1)" by blast
  then have "uint_write_from w fd ?b i = uint_write_from w1 fd ?b (i - 1)"
    using u down(2) n by (simp add: uint_write_from.simps [of w] those_map_Some)
  also have "\<dots> = Inl Uninitialised"
    using down cells n by (simp add: uint_write_from.simps [of w1] take_Cons')
  finally show ?thesis by (simp add: write_uint_eq i)
qed

end
