(* ===== verification/ServerMain.thy ===== *)
theory ServerMain
  imports Startup HostQueue ClientMain
begin

section \<open>The server from its start to its first session (server/main.c, main)\<close>

text \<open>
  The function main of the server: its arguments, the table, the job threads, the start of the host
  thread, and the end that is reached only when the host thread could not open its pipe. The code
  creates all threads and joins them afterwards; the model follows one schedule, in which the job
  threads run one after the other and no client sends a connect message before they have ended. The
  theorems are about a single job thread: for more, other schedules give other results, which are the
  subject of Concurrency (the commands of several job threads) and of HostQueue (the host and session
  threads).
\<close>

subsection \<open>The host thread before its loop\<close>

text \<open>\<open>None\<close>: the thread returned, since its pipe could not be made or opened.\<close>

definition host_setup :: "file_system \<Rightarrow> string \<Rightarrow> world \<Rightarrow> int option \<times> world" where
  "host_setup fs fifo_path w =
     (if unlink_fails fs fifo_path then (None, w)
      else if mkfifo_fails fs fifo_path then (None, w)
      else (case sys_open w fifo_path of
        (fdServerPipe, w1) \<Rightarrow> if fdServerPipe < 0 then (None, w1) else (Some fdServerPipe, w1)))"

subsection \<open>The function main\<close>

text \<open>
  The program exited with a code, or it serves: the job threads have ended, the host thread is in
  its loop, which has no exit, and main waits for it.
\<close>

datatype server_run = Exited int job_thread | Serving int job_thread

text \<open>One of the schedules of several job threads; with a single thread, its only one.\<close>

fun run_threads ::
  "nat \<Rightarrow> (string \<Rightarrow> string) \<Rightarrow> string \<Rightarrow> string list \<Rightarrow> job_thread \<Rightarrow> job_thread res option" where
  "run_threads 0 files directory_path entries th = Some (Inr th)"
| "run_threads (Suc n) files directory_path entries th =
     (case process_thread files directory_path entries th of
        None \<Rightarrow> None
      | Some (Inl e) \<Rightarrow> Some (Inl e)
      | Some (Inr (left, th')) \<Rightarrow> run_threads n files directory_path left th')"

definition main_end :: "job_thread \<Rightarrow> job_thread res" where
  "main_end th =
     (let st = (t_job th)\<lparr>j_children := 0\<rparr> in
      case lock_outcome (j_world st) of
        (failed, w1) \<Rightarrow>
          if failed then Inr (th\<lparr>t_job := st\<lparr>j_world := w1\<rparr>\<rparr>)
          else bindE (kvs_terminate (j_table st) w1) (\<lambda>(_, t, w2).
            Inr (th\<lparr>t_job := st\<lparr>j_table := t, j_world := w2\<rparr>\<rparr>)))"

definition thread_at_start :: "world \<Rightarrow> bool list \<Rightarrow> job_thread" where
  "thread_at_start w forks =
     \<lparr>t_job = \<lparr>j_table = NullTable, j_world = w, j_input = [], backupCounter = 0, j_children = 0,
        fileBackups = 1, j_forks = forks, j_backups = []\<rparr>, t_outputs = []\<rparr>"

definition server_main ::
  "file_system \<Rightarrow> (string \<Rightarrow> string) \<Rightarrow> (string \<Rightarrow> string list option) \<Rightarrow> bool list \<Rightarrow> string list \<Rightarrow> world \<Rightarrow>
    server_run res option" where
  "server_main fs files dirs forks argv w =
     (let th = thread_at_start w forks; st = t_job th in
      if length argv \<noteq> 5 then Some (Inr (Exited 1 th))
      else (let directory_path = argv ! 1;
                counter = word_of_nat (strtoul (argv ! 2)) :: 32 word;
                max_threads = word_of_nat (strtoul (argv ! 3)) :: 32 word;
                fifo_path = argv ! 4 in
        case dirs directory_path of
          None \<Rightarrow> Some (Inr (Exited 1 th))
        | Some entries \<Rightarrow>
            (case kvs_init (j_table st) w of
               (r, t, w1) \<Rightarrow>
                 if r \<noteq> 0 then Some (Inr (Exited 1 (th\<lparr>t_job := st\<lparr>j_table := t, j_world := w1\<rparr>\<rparr>)))
                 else (case run_threads (unat max_threads) files directory_path entries
                     (th\<lparr>t_job := st\<lparr>j_table := t, j_world := snd (lock_outcome w1), backupCounter := counter\<rparr>\<rparr>) of
                   None \<Rightarrow> None
                 | Some (Inl e) \<Rightarrow> Some (Inl e)
                 | Some (Inr th') \<Rightarrow>
                     (case host_setup fs fifo_path (j_world (t_job th')) of
                        (fd, w2) \<Rightarrow>
                          (let th'' = th'\<lparr>t_job := (t_job th')\<lparr>j_world := w2\<rparr>\<rparr> in
                           case fd of
                             Some fdServerPipe \<Rightarrow> Some (Inr (Serving fdServerPipe th''))
                           | None \<Rightarrow> Some (map_res (Exited 0) (main_end th''))))))))"

lemma run_threads_done: "run_threads n files directory_path [] th = Some (Inr th)"
  by (induction n) simp_all

subsection \<open>The job files are worked through\<close>

text \<open>The job files can be opened, and hold the printed text of lists of commands.\<close>

definition jobs_ready :: "(string \<Rightarrow> script_cmd list) \<Rightarrow> (string \<Rightarrow> string) \<Rightarrow> world \<Rightarrow> string list \<Rightarrow> bool" where
  "jobs_ready scripts files w paths \<longleftrightarrow>
     (\<forall>p \<in> set paths. w_canopen w p \<and> w_canopen w (out_path p) \<and>
        (\<forall>c \<in> set (scripts p). cmd_ok c) \<and> files p = concat (map cmd_text (scripts p)))"

lemma server_jobs_run:
  assumes "dirs directory_path = Some entries" and "word_of_nat (strtoul threads) = (1 :: 32 word)"
    and "calm w" and "\<forall>fd. w_wsched w fd = []"
    and "jobs_ready scripts files w (job_paths directory_path entries)"
  obtains th ht where
    "server_main fs files dirs forks [prog, directory_path, backups, threads, fifo_path] w =
      (case host_setup fs fifo_path (j_world (t_job th)) of
         (fd, w2) \<Rightarrow>
           (let th'' = th\<lparr>t_job := (t_job th)\<lparr>j_world := w2\<rparr>\<rparr> in
            case fd of
              Some fdServerPipe \<Rightarrow> Some (Inr (Serving fdServerPipe th''))
            | None \<Rightarrow> Some (map_res (Exited 0) (main_end th''))))"
    and "thread_ready th ht" and "targets ht = {}"
    and "kvs_map ht = paths_map scripts Map.empty (job_paths directory_path entries)"
    and "t_outputs th = paths_out scripts Map.empty (job_paths directory_path entries)"
    and "same_files w (j_world (t_job th))"
proof -
  let ?n = "unat (word_of_nat (strtoul threads) :: 32 word)"
  let ?b = "word_of_nat (strtoul backups) :: 32 word"
  let ?th = "first_thread w ?b forks"
  have n: "?n = Suc 0" using assms(2) by simp
  have start: "(thread_at_start w forks)\<lparr>t_job := (t_job (thread_at_start w forks))\<lparr>j_table := Table empty_table,
      j_world := w, backupCounter := ?b\<rparr>\<rparr> = ?th"
    by (simp add: thread_at_start_def first_thread_def)
  have facts: "j_world (t_job ?th) = w" "t_outputs ?th = []" by (simp_all add: first_thread_def)
  have files: "\<forall>p \<in> set (job_paths directory_path entries). opens ?th p \<and> opens ?th (out_path p) \<and>
      (\<forall>c \<in> set (scripts p). cmd_ok c) \<and> files p = concat (map cmd_text (scripts p))"
    using assms(5) facts by (simp add: opens_def jobs_ready_def)
  obtain th ht where run: "process_thread files directory_path entries ?th = Some (Inr ([], th))" "thread_ready th ht"
    "kvs_map ht = paths_map scripts (kvs_map empty_table) (job_paths directory_path entries)"
    "targets ht \<subseteq> targets empty_table" "same_files (j_world (t_job ?th)) (j_world (t_job th))"
    "t_outputs th = t_outputs ?th @ paths_out scripts (kvs_map empty_table) (job_paths directory_path entries)"
    using job_directory_run [OF first_thread_ready [OF assms(3,4)] files] by blast
  have main: "server_main fs files dirs forks [prog, directory_path, backups, threads, fifo_path] w =
      (case run_threads (Suc 0) files directory_path entries ?th of
         None \<Rightarrow> None
       | Some (Inl e) \<Rightarrow> Some (Inl e)
       | Some (Inr th') \<Rightarrow>
           (case host_setup fs fifo_path (j_world (t_job th')) of
              (fd, w2) \<Rightarrow>
                (let th'' = th'\<lparr>t_job := (t_job th')\<lparr>j_world := w2\<rparr>\<rparr> in
                 case fd of
                   Some fdServerPipe \<Rightarrow> Some (Inr (Serving fdServerPipe th''))
                 | None \<Rightarrow> Some (map_res (Exited 0) (main_end th'')))))"
    unfolding n [symmetric] start [symmetric]
    using assms(1) kvs_init_calm [OF assms(3)] lock_outcome_calm [OF assms(3)]
    by (simp add: server_main_def thread_at_start_def Let_def)
  have "run_threads (Suc 0) files directory_path entries ?th = Some (Inr th)"
    using run(1) by (simp add: run_threads_done)
  with main have "server_main fs files dirs forks [prog, directory_path, backups, threads, fifo_path] w =
      (case host_setup fs fifo_path (j_world (t_job th)) of
         (fd, w2) \<Rightarrow>
           (let th'' = th\<lparr>t_job := (t_job th)\<lparr>j_world := w2\<rparr>\<rparr> in
            case fd of
              Some fdServerPipe \<Rightarrow> Some (Inr (Serving fdServerPipe th''))
            | None \<Rightarrow> Some (map_res (Exited 0) (main_end th''))))"
    by simp
  then show thesis
    using that run(2-6) empty_table_facts facts by auto
qed

text \<open>Whether the host thread gets its pipe.\<close>

definition host_ok :: "file_system \<Rightarrow> string \<Rightarrow> world \<Rightarrow> bool" where
  "host_ok fs fifo_path w \<longleftrightarrow>
     \<not> unlink_fails fs fifo_path \<and> \<not> mkfifo_fails fs fifo_path \<and> w_canopen w fifo_path"

lemma host_setup_ok:
  "host_setup fs fifo_path w =
     (if host_ok fs fifo_path w
      then (Some (fresh_fd (w_open w)), w\<lparr>w_open := fresh_fd (w_open w) # w_open w\<rparr>) else (None, w))"
proof -
  have "\<not> fresh_fd (w_open w) < 0" using fresh_fd_nonneg [of "w_open w"] by linarith
  then show ?thesis by (simp add: host_setup_def host_ok_def sys_open_def Let_def)
qed

lemma server_serves:
  assumes "dirs directory_path = Some entries" and "word_of_nat (strtoul threads) = (1 :: 32 word)"
    and "calm w" and "\<forall>fd. w_wsched w fd = []"
    and "jobs_ready scripts files w (job_paths directory_path entries)"
    and "host_ok fs fifo_path w"
  obtains th ht where
    "server_main fs files dirs forks [prog, directory_path, backups, threads, fifo_path] w =
      Some (Inr (Serving (fresh_fd (w_open w)) th))"
    and "j_table (t_job th) = Table ht" and "sound_table ht" and "targets ht = {}"
    and "kvs_map ht = paths_map scripts Map.empty (job_paths directory_path entries)"
    and "t_outputs th = paths_out scripts Map.empty (job_paths directory_path entries)"
    and "same_files (w\<lparr>w_open := fresh_fd (w_open w) # w_open w\<rparr>) (j_world (t_job th))"
    and "calm (j_world (t_job th))" and "\<forall>fd. w_wsched (j_world (t_job th)) fd = []"
proof (rule server_jobs_run [where dirs = dirs and directory_path = directory_path, OF assms(1-5),
      where fs = fs and forks = forks and prog = prog and backups = backups and fifo_path = fifo_path])
  fix th ht
  assume main: "server_main fs files dirs forks [prog, directory_path, backups, threads, fifo_path] w =
      (case host_setup fs fifo_path (j_world (t_job th)) of
         (fd, w2) \<Rightarrow>
           (let th'' = th\<lparr>t_job := (t_job th)\<lparr>j_world := w2\<rparr>\<rparr> in
            case fd of
              Some fdServerPipe \<Rightarrow> Some (Inr (Serving fdServerPipe th''))
            | None \<Rightarrow> Some (map_res (Exited 0) (main_end th''))))"
    and ready: "thread_ready th ht" and no_targets: "targets ht = {}"
    and meaning: "kvs_map ht = paths_map scripts Map.empty (job_paths directory_path entries)"
      "t_outputs th = paths_out scripts Map.empty (job_paths directory_path entries)"
    and same: "same_files w (j_world (t_job th))"
  let ?w = "j_world (t_job th)"
  let ?th = "th\<lparr>t_job := (t_job th)\<lparr>j_world := ?w\<lparr>w_open := fresh_fd (w_open w) # w_open w\<rparr>\<rparr>\<rparr>"
  have "host_ok fs fifo_path ?w" "w_open ?w = w_open w" using assms(6) same by (simp_all add: host_ok_def same_files_def)
  then have "server_main fs files dirs forks [prog, directory_path, backups, threads, fifo_path] w =
      Some (Inr (Serving (fresh_fd (w_open w)) ?th))"
    unfolding main by (simp add: host_setup_ok Let_def)
  then show thesis
    using ready no_targets meaning same by (intro that [of ?th ht]) (auto simp: thread_ready_def same_files_def calm_def)
qed

text \<open>
  C7: The server, started with one job thread on a directory whose job files hold printed lists of
  commands, on the schedules in which no client connects before the job thread has ended: when its
  pipe can be made and opened, it comes to serve clients with a sound table that is the meaning of
  the lists in their order, and the output files hold what the lists print; otherwise it exits
  with 0, with the same output files, the table released and no child left. With several job
  threads the order of the commands is open; concurrent_jobs_serializable is about that.
\<close>

theorem server_program:
  assumes "dirs directory_path = Some entries" and "word_of_nat (strtoul threads) = (1 :: 32 word)"
    and "calm w" and "\<forall>fd. w_wsched w fd = []"
    and "jobs_ready scripts files w (job_paths directory_path entries)"
  shows "\<exists>th. t_outputs th = paths_out scripts Map.empty (job_paths directory_path entries) \<and>
    (if host_ok fs fifo_path w
     then \<exists>fd ht. server_main fs files dirs forks [prog, directory_path, backups, threads, fifo_path] w =
         Some (Inr (Serving fd th)) \<and> fd \<in> set (w_open (j_world (t_job th))) \<and>
       j_table (t_job th) = Table ht \<and> sound_table ht \<and>
       kvs_map ht = paths_map scripts Map.empty (job_paths directory_path entries)
     else server_main fs files dirs forks [prog, directory_path, backups, threads, fifo_path] w =
         Some (Inr (Exited 0 th)) \<and>
       j_table (t_job th) = FreedTable \<and> j_children (t_job th) = 0)"
proof (cases "host_ok fs fifo_path w")
  case True
  obtain th ht where "server_main fs files dirs forks [prog, directory_path, backups, threads, fifo_path] w =
      Some (Inr (Serving (fresh_fd (w_open w)) th))"
    "j_table (t_job th) = Table ht" "sound_table ht"
    "kvs_map ht = paths_map scripts Map.empty (job_paths directory_path entries)"
    "t_outputs th = paths_out scripts Map.empty (job_paths directory_path entries)"
    "same_files (w\<lparr>w_open := fresh_fd (w_open w) # w_open w\<rparr>) (j_world (t_job th))"
    by (rule server_serves [where dirs = dirs and directory_path = directory_path, OF assms True])
  then show ?thesis using True by (intro exI [of _ th]) (auto simp: same_files_def)
next
  case False
  obtain th ht where main: "server_main fs files dirs forks [prog, directory_path, backups, threads, fifo_path] w =
      (case host_setup fs fifo_path (j_world (t_job th)) of
         (fd, w2) \<Rightarrow>
           (let th'' = th\<lparr>t_job := (t_job th)\<lparr>j_world := w2\<rparr>\<rparr> in
            case fd of
              Some fdServerPipe \<Rightarrow> Some (Inr (Serving fdServerPipe th''))
            | None \<Rightarrow> Some (map_res (Exited 0) (main_end th''))))"
    and th: "thread_ready th ht" "t_outputs th = paths_out scripts Map.empty (job_paths directory_path entries)"
      "same_files w (j_world (t_job th))"
    by (rule server_jobs_run [where dirs = dirs and directory_path = directory_path, OF assms,
          where fs = fs and forks = forks and prog = prog and backups = backups and fifo_path = fifo_path])
  let ?st = "t_job th"
  have "\<not> host_ok fs fifo_path (j_world ?st)" using False th(3) by (simp add: host_ok_def same_files_def)
  moreover have "main_end (th\<lparr>t_job := ?st\<lparr>j_world := j_world ?st\<rparr>\<rparr>) =
      Inr (th\<lparr>t_job := ?st\<lparr>j_children := 0, j_table := FreedTable, j_world := free_table ht (j_world ?st)\<rparr>\<rparr>)"
    using th(1) by (simp add: main_end_def thread_ready_def lock_outcome_calm kvs_terminate_def)
  ultimately show ?thesis
    using False th(2) unfolding main
    by (intro exI [of _ "th\<lparr>t_job := ?st\<lparr>j_children := 0, j_table := FreedTable,
        j_world := free_table ht (j_world ?st)\<rparr>\<rparr>"]) (simp add: host_setup_ok Let_def)
qed

subsection \<open>The first client\<close>

text \<open>The clients of a server that has just started: no object, no slot taken.\<close>

definition server_at_start :: "table_ptr \<Rightarrow> server" where
  "server_at_start t = \<lparr>kvs_table = t, clients = [], connectedClients = replicate MAX_SESSION_COUNT None\<rparr>"

lemma server_at_start_ok:
  assumes "sound_table ht" and "targets ht = {}"
  shows "sessions_ok (server_at_start (Table ht))" and "slot_clients (server_at_start (Table ht)) = []"
proof -
  have none: "\<not> live (server_at_start (Table ht)) p c" for p c by (simp add: live_def server_at_start_def)
  have "subscribers ht k = []" for k
  proof -
    have "set (subscribers ht k) \<subseteq> targets ht" using targets_iff [of ht] assms(1) by (auto simp: sound_table_def)
    then show ?thesis using assms(2) by simp
  qed
  then show "sessions_ok (server_at_start (Table ht))"
    using assms(1) none by (intro sessions_okI [of _ ht]) (simp_all add: slots_ok_iff server_at_start_def MAX_SESSION_COUNT_def)
  show "slot_clients (server_at_start (Table ht)) = []"
    using none slot_clients_live by (metis list.set_intros(1) neq_Nil_conv old.prod.exhaust)
qed

lemma first_session_ready:
  assumes "sound_table ht" and "targets ht = {}" and "calm w" and "\<forall>fd. w_wsched w fd = []"
    and "w_canopen w req" and "w_canopen w resp" and "w_canopen w notif"
    and "w_rsched w (fdReq (new_client w)) = []"
  obtains s1 w1 where
    "kvs_connect req resp notif None (server_at_start (Table ht)) w = Inr (0, Some 0, s1, w1)"
    and "session_ready s1 w1 0 (new_client w)" and "kvs_table s1 = Table ht"
    and "w_in w1 = w_in w"
    and "w_out w1 (fdResp (new_client w)) = w_out w (fdResp (new_client w)) @ [OP_CODE_CONNECT, CHR ''0'']"
proof -
  let ?s = "server_at_start (Table ht)" and ?c = "new_client w"
  let ?s1 = "?s\<lparr>clients := [Some ?c], connectedClients := [Some 0, None]\<rparr>"
  let ?w1 = "w\<lparr>w_open := [fdResp ?c, fdReq ?c, fdNotif ?c] @ w_open w,
    w_out := (w_out w)(fdResp ?c := w_out w (fdResp ?c) @ [OP_CODE_CONNECT, CHR ''0''])\<rparr>"
  have run: "kvs_connect req resp notif None ?s w = Inr (0, Some 0, ?s1, ?w1)"
    using kvs_connect_eq [OF assms(5-7,3), of None ?s] assms(4)
    by (simp add: server_at_start_def MAX_SESSION_COUNT_def numeral_2_eq_2 add_client_def Let_def)
  have "\<forall>(p, c) \<in> set (slot_clients ?s). fdNotif c \<in> set (w_open w)"
    using server_at_start_ok(2) [OF assms(1,2)] by simp
  from kvs_connect_run [OF server_at_start_ok(1) [OF assms(1,2)] assms(5-7,3) _ this] have ok: "sessions_ok ?s1"
    using run assms(4) by auto
  have "session_ready ?s1 ?w1 0 ?c"
    using ok assms(3,4,8) new_client_fds [of w]
    by (auto simp: session_ready_def live_def client_at_def calm_def healthy_def)
  then show thesis by (rule that [OF run]) (simp_all add: server_at_start_def)
qed


subsection \<open>Instances\<close>

definition pipe_files :: "bool \<Rightarrow> file_system" where
  "pipe_files blocked = \<lparr>accessible = (\<lambda>_. True), unlink_fails = (\<lambda>_. False), mkfifo_fails = (\<lambda>_. blocked)\<rparr>"

definition server_texts :: "string \<Rightarrow> script_cmd list" where
  "server_texts path = (if path = ''d/x.job'' then [DoWrite [(''b'', ''2'')]] else [DoRead [''b'']])"

definition server_files :: "string \<Rightarrow> string" where
  "server_files path = concat (map cmd_text (server_texts path))"

definition server_dirs :: "string \<Rightarrow> string list option" where
  "server_dirs path = (if path = ''d'' then Some [''x.job'', ''notes'', ''y.job''] else None)"

definition first_requests :: "client_request list" where
  "first_requests = [Subscribe ''b'', Unsubscribe ''b'', Subscribe ''z'']"

lemma server_paths: "job_paths ''d'' [''x.job'', ''notes'', ''y.job''] = [''d/x.job'', ''d/y.job'']"
  by (simp add: is_job_name_def job_path_def snprintf_def MAX_JOB_FILE_NAME_SIZE_def Let_def)

lemma server_instance:
  "server_dirs ''d'' = Some [''x.job'', ''notes'', ''y.job'']" "word_of_nat (strtoul '' +1'') = (1 :: 32 word)"
proof -
  show "server_dirs ''d'' = Some [''x.job'', ''notes'', ''y.job'']" by (simp add: server_dirs_def)
  have "strtoul '' +1'' = 1" by (simp add: strtoul_def is_blank_def is_digit_def decimal_def digit_value_def)
  then show "word_of_nat (strtoul '' +1'') = (1 :: 32 word)" by simp
qed

lemma server_texts_ready:
  assumes "\<forall>p. w_canopen w p"
  shows "jobs_ready server_texts server_files w (job_paths ''d'' [''x.job'', ''notes'', ''y.job''])"
proof -
  have "\<forall>c \<in> set (server_texts p). cmd_ok c" for p
    by (simp add: server_texts_def MAX_WRITE_SIZE_def plain_def fits_def separators_def valid_key_ConsI)
  then show ?thesis using assms by (simp add: jobs_ready_def server_files_def)
qed

theorem server_program_witness:
  "\<exists>th. server_main (pipe_files True) server_files server_dirs [] [''server'', ''d'', ''1'', '' +1'', ''/tmp/s''] quiet_world =
      Some (Inr (Exited 0 th)) \<and>
    t_outputs th = [(''d/x.out'', []), (''d/y.out'', ''[(b,2)]'' @ [newline])] \<and> j_table (t_job th) = FreedTable"
proof -
  have w: "\<forall>fd. w_wsched quiet_world fd = []" "\<forall>p. w_canopen quiet_world p" by (simp_all add: quiet_world_def)
  have blocked: "\<not> host_ok (pipe_files True) ''/tmp/s'' quiet_world" by (simp add: host_ok_def pipe_files_def)
  have out: "paths_out server_texts Map.empty [''d/x.job'', ''d/y.job''] =
      [(''d/x.out'', []), (''d/y.out'', ''[(b,2)]'' @ [newline])]"
    by (simp add: server_texts_def out_path_def base_path_def snprintf_def MAX_JOB_FILE_NAME_SIZE_def read_line_def)
  from server_program [where dirs = server_dirs and directory_path = "''d''", OF server_instance calm_quiet_world w(1)
      server_texts_ready [OF w(2)], of "pipe_files True" "''/tmp/s''" "[]" "''server''" "''1''"]
  show ?thesis unfolding server_paths out using blocked by auto
qed


end
