(* ===== verification/Spec2Isabelle.thy ===== *)
theory Spec2Isabelle
  imports Leaving SessionErrors JobDirectory HostQueue ClientSession NotifyRace FirstProject FirstDirectory
    NumberText ServerMain
begin

text \<open>
  A verification library for the IST Key Value Store.

  THE PROGRAM. The server (src/proj\_p2/src/server) keeps a hash table of 26 buckets in memory. Job
  threads work through command files of a directory and change, read, show and back up the table.
  Clients (src/proj\_p2/src/client) connect over named pipes, subscribe to keys and get a
  notification when the value of a key changes. A host thread accepts the connections and passes
  them to session threads. A first version without clients is in src/proj\_p1.

  THE THEORIES, in the order of their imports.
  \<^item> Prelude: results of C expressions (a fault or a value), loops over arrays, C strings.
  \<^item> Kernel: the state outside the program (descriptors with their input and output, schedules of
    failing or short calls, allocations, lock calls, the trace of locks). Everything the program does
    to it goes through the calls defined there.
  \<^item> Protocol: the constants of common/constants.h and common/protocol.h.
  \<^item> CommonIO: common/io.c and server/io.c. The retry loops are total functions, their measure is the
    unread schedule and the bytes left.
  \<^item> Interfaces: the locales \<open>sorting\<close> (what a command needs of qsort) and \<open>kv_store\<close> (what it needs
    of a table); the loops of the commands are proved correct against them.
  \<^item> Kvs: server/kvs.c. A bucket is the list of its nodes in link order. The invariant \<open>wf_table\<close>, the
    abstract map \<open>kvs_map\<close>, the interpretation of \<open>kv_store\<close> on the code's own functions.
  \<^item> Operations: the table part of server/operations.c with its lock calls, and the interpretation of
    \<open>sorting\<close> on the model of qsort. LockTrace: what every operation does to the locks when no lock
    call fails, whatever else fails; a thread never asks for a bucket that it holds. Locks: the bucket locks of several commands as a step relation,
    with the freedom from deadlock for keys in lower case and a deadlock for mixed keys.
  \<^item> Accesses: the turns of the loops of the commands, and the requests of session threads, as accesses
    to the pairs and the subscribers of buckets, to output files and response pipes; the locale
    \<open>access_contract\<close> (an access changes only what it writes and depends only on what it reads),
    interpreted on the code's own loop bodies. Concurrency: job threads and session threads that run
    lists of commands under the global lock and the bucket locks, one access or lock call at a time.
    Leaving: what the serial order says of the subscriptions of one client, its disconnect included.
  \<^item> JobParser: server/parser.c, with the rest of the file as the state. Jobs: the loop over the
    commands of one file in server/main.c, with backups and child processes, also as a step relation
    that shows the state before each fork; JobDirectory: the loop over the directory. A job file has a
    meaning, and the thread computes it.
  \<^item> Clients: the client part of server/operations.c: objects on a heap, slots, subscriptions. The
    invariant \<open>sessions_ok\<close> ties slots, objects and the subscribers of the table together.
    SessionErrors: subscriptions for which memory runs out.
  \<^item> ClientApi: the messages of client/api.c and the notification thread of client/main.c. Requests:
    the connect message, one request and the session loop of server/main.c. HostQueue: the host
    thread, the ring, the semaphores and SIGUSR1 as a step relation; the locale \<open>bounded_queue\<close>.
  \<^item> ClientParser: client/parser.c with its buffers as arrays, shown equal to JobParser. ClientMain:
    connecting and the loop of client/main.c, over any channel to a server. ClientSession: the channel
    whose other end is the session thread, with reads that wait, and a whole session of both sides.
  \<^item> Notifications: from a write in the table to the line a client prints; tables in an environment
    where allocations fail. NotifyRace: the notifications of several threads on one pipe.
    FirstProject: kvs.c and operations.c of proj\_p1, and the simulation that relates them to the
    server.
  \<^item> FirstParser: proj\_p1/parser.c on memory, shown to refine the model of the same parser on the text
    (\<open>res_refines\<close>: the same fault, or related values; \<open>unread\<close> is the abstraction). FirstJobs: the loop
    over the commands of proj\_p1/main.c on the arrays that outlive a command, with the simulation
    \<open>same_job\<close> by the server's thread. FirstDirectory: the loop over the directory and main.
  \<^item> Startup: what the two functions main share (numbers on the command line, outcomes of lock calls,
    the empty table, the first thread). ServerMain: main of server/main.c, the set-up of the host
    thread, and the way from the command line to the answers of the first client. NumberText:
    write\_uint of server/io.c.

  CONCURRENCY. The theorems on one command or one job file speak of a thread that runs alone. The
  theory Concurrency lifts them: every interleaving of job threads and session threads has the same
  effect as some order of whole commands and requests. A command counts as done when it has its last
  lock (all locks are taken before the first access); the invariant compares the table with the one
  of the serial run. The session threads do not take the global lock, so a child forked by BACKUP may
  get the subscribers of a key in the middle of a request, but its pairs, which are all it prints,
  are those of a moment between whole commands. The pipes of subscribers are not compared there:
  NotifyRace lets the threads of WRITE commands interleave call by call on them. Commands that share
  a bucket notify one after the other. Commands on different buckets do not, and since a
  notification is two calls, a client may read the key of one command with the key of another.

  HOW THE CODE IS READ. Records stand for structs, datatypes for enums, \<open>32 word\<close> for unsigned int.
  Undefined behaviour is a value of \<open>fault\<close>, so a theorem with a result \<open>Inr\<close> also says that none
  happens. Text on the error stream is left out. Memory is modelled where the code depends on it:
  the bytes behind an object that is read beyond its end (\<open>mem_bytes\<close>), buffers that were never
  written, freed clients and messages. Mutexes make their sections atomic and are implicit; the
  read-write locks are explicit calls that may fail.

  WHAT IS SHOWN. For each component: the functional behaviour of its operations on the abstract map
  or the registration state, the invariant they keep, and what happens on the error branches. Across
  components: a printed job file is executed as its meaning; a directory of files as the sequence of
  their meanings; the bytes of a client session are answered as an abstract specification says, and
  the client program and the session loop, joined by two pipes, never wait for each other in vain and
  consume exactly what the other wrote; a notification ends as a line on the screen of the
  subscriber. Several theorems show what the code does wrong.

  BOUNDS AND FUEL. The loops of notification and session threads take fuel, since they need not end;
  their theorems ask for one more than the number of messages, which is enough as every turn reads
  one. The turns of a session thread in \<open>serve_waiting\<close> have as much fuel as there are bytes in its
  pipe, which is enough as every turn takes one. All other loops are total. Where the source waits
  forever (a BACKUP that no child can end, a join of a thread that does not end, a client that waits
  for a response that cannot come) the result is \<open>None\<close>.

  NOT MODELLED. The sleep in nanosleep (the time it is given is), the removal of the named pipes, the
  text of the error stream, the masks of signals, failures of thread creation, the size of the stack
  (the arrays of threads). The functions main of FirstDirectory and ServerMain follow one schedule:
  the job threads run one after the other, in ServerMain before a client connects, while the code
  starts all threads and joins them afterwards. So the theorems about main are about a single job
  thread, for which this is the only order of the commands, and about clients that come after the
  jobs. The interleavings of several job threads, and of their commands with the subscribe and
  unsubscribe requests of sessions, are the subject of Concurrency, those of the host and session
  threads of HostQueue. Of a disconnect the removals of the client from the subscribers of its keys
  take part in these interleavings; its other steps, which concern the client alone, and connecting
  are modelled for a session whose steps are not interleaved with others. ClientSession lets the
  session thread run when its client waits. A lock call of the sequential functions never waits (see
  Kernel and LockTrace). After a failed unlock in BACKUP the child of the code would go on with the
  file; the model follows the parent.
\<close>

end
